(* ===== verification/Chat_Prelude.thy ===== *)
theory Chat_Prelude
  imports
    Complex_Main
    "HOL-Library.Word"
    "HOL-Library.Sublist"
    "HOL-Library.Product_Lexorder"
    "HOL-Library.List_Lexorder"
    "HOL-Library.Multiset"
begin

text \<open>
  Shared vocabulary of the development: Python strings as lists of code points, the string
  methods the application calls, fixed-width numerals, and the generic facts on lists that
  the component theories use.
\<close>

section \<open>Collections\<close>

named_theorems str_simps \<open>equations of the Python string methods\<close>
named_theorems db_simps \<open>equations of the table operations\<close>
named_theorems inv_intros \<open>preservation lemmas of the invariants\<close>

section \<open>Strings\<close>

text \<open>
  A Python \<open>str\<close> is a sequence of Unicode code points. \<open>lit\<close> turns an ASCII
  literal into one. Lexicographic order on lists is the order of Python's \<open><\<close> on \<open>str\<close>.
\<close>

type_synonym codepoint = nat
type_synonym pystr = "codepoint list"
type_synonym bytes = "nat list"

definition lit :: "string \<Rightarrow> pystr" where
  "lit s = map of_char s"

lemma lit_Nil [simp]: "lit [] = []"
  by (simp add: lit_def)

lemma lit_Cons [str_simps]: "lit (c # cs) = of_char c # lit cs"
  by (simp add: lit_def)

lemma lit_inject [simp]: "lit s = lit t \<longleftrightarrow> s = t"
  by (simp add: lit_def inj_map_eq_map inj_def)

text \<open>\<open>str.isspace\<close> of one character, as \<open>str.strip()\<close> and \<open>int()\<close> use it.\<close>

definition py_space :: "codepoint \<Rightarrow> bool" where
  "py_space c \<longleftrightarrow> (9 \<le> c \<and> c \<le> 13) \<or> (28 \<le> c \<and> c \<le> 32) \<or> c = 133 \<or> c = 160 \<or> c = 5760 \<or>
     (8192 \<le> c \<and> c \<le> 8202) \<or> c = 8232 \<or> c = 8233 \<or> c = 8239 \<or> c = 8287 \<or> c = 12288"

definition strip_where :: "(codepoint \<Rightarrow> bool) \<Rightarrow> pystr \<Rightarrow> pystr" where
  "strip_where p s = rev (dropWhile p (rev (dropWhile p s)))"

definition py_strip :: "pystr \<Rightarrow> pystr" where
  "py_strip s = strip_where py_space s"

definition rstrip_where :: "(codepoint \<Rightarrow> bool) \<Rightarrow> pystr \<Rightarrow> pystr" where
  "rstrip_where p s = rev (dropWhile p (rev s))"

text \<open>\<open>str.lower()\<close>, on ASCII letters; other code points are left as they are.\<close>

definition py_lower :: "pystr \<Rightarrow> pystr" where
  "py_lower s = map (\<lambda>c. if 65 \<le> c \<and> c \<le> 90 then c + 32 else c) s"

text \<open>\<open>s.split(c)\<close> for a one-character separator, and the two pieces of \<open>s.split(c, 1)\<close>.\<close>

fun py_split :: "codepoint \<Rightarrow> pystr \<Rightarrow> pystr list" where
  "py_split c [] = [[]]"
| "py_split c (x # xs) =
     (if x = c then [] # py_split c xs
      else (case py_split c xs of [] \<Rightarrow> [[x]] | p # ps \<Rightarrow> (x # p) # ps))"

definition py_split1 :: "codepoint \<Rightarrow> pystr \<Rightarrow> pystr list" where
  "py_split1 c s =
     (if c \<in> set s then [takeWhile (\<lambda>x. x \<noteq> c) s, tl (dropWhile (\<lambda>x. x \<noteq> c) s)] else [s])"

text \<open>\<open>sep.join(parts)\<close>.\<close>

fun py_join :: "pystr \<Rightarrow> pystr list \<Rightarrow> pystr" where
  "py_join sep [] = []"
| "py_join sep [x] = x"
| "py_join sep (x # y # xs) = x @ sep @ py_join sep (y # xs)"

text \<open>\<open>s.replace(pat, "")\<close>: every occurrence of \<open>pat\<close> from the left is dropped.\<close>

function replace_all :: "pystr \<Rightarrow> pystr \<Rightarrow> pystr" where
  "replace_all pat [] = []"
| "replace_all pat (c # cs) =
     (if pat \<noteq> [] \<and> prefix pat (c # cs) then replace_all pat (drop (length pat) (c # cs))
      else c # replace_all pat cs)"
  by pat_completeness auto
termination
  by (relation "measure (\<lambda>(pat, s). length s)") auto

declare replace_all.simps(2) [simp del]

lemma py_split_nonempty [simp]: "py_split c s \<noteq> []"
  by (induction s) (auto split: list.split)

lemma py_split1_first:
  "c \<notin> set a \<Longrightarrow> py_split1 c (a @ c # b) = [a, b]"
  by (auto simp: py_split1_def takeWhile_append dropWhile_append)

lemma py_split1_single: "c \<notin> set a \<Longrightarrow> py_split1 c a = [a]"
  by (simp add: py_split1_def)

lemma strip_where_id:
  "s = [] \<or> (\<not> p (hd s) \<and> \<not> p (last s)) \<Longrightarrow> strip_where p s = s"
proof -
  assume a: "s = [] \<or> (\<not> p (hd s) \<and> \<not> p (last s))"
  then have "dropWhile p s = s" by (auto simp: dropWhile_eq_self_iff)
  moreover have "dropWhile p (rev s) = rev s"
    using a by (auto simp: dropWhile_eq_self_iff hd_rev)
  ultimately show ?thesis by (simp add: strip_where_def)
qed

lemma set_strip_where: "set (strip_where p s) \<subseteq> set s"
  by (auto simp: strip_where_def dest!: set_dropWhileD)

lemma replace_all_id: "\<not> set pat \<subseteq> set s \<Longrightarrow> replace_all pat s = s"
proof (induction s)
  case Nil
  then show ?case by simp
next
  case (Cons c cs)
  then have "\<not> prefix pat (c # cs)"
    by (auto dest!: set_mono_prefix)
  with Cons show ?case by (auto simp: replace_all.simps(2))
qed

section \<open>Fixed-width numerals\<close>

text \<open>
  The \<open>k\<close> least significant base-\<open>b\<close> digits of a number, most significant first,
  and the value of a digit list.
\<close>

fun fixed_digits :: "nat \<Rightarrow> nat \<Rightarrow> nat \<Rightarrow> nat list" where
  "fixed_digits b 0 n = []"
| "fixed_digits b (Suc k) n = fixed_digits b k (n div b) @ [n mod b]"

definition digits_val :: "nat \<Rightarrow> nat list \<Rightarrow> nat" where
  "digits_val b ds = foldl (\<lambda>a d. a * b + d) 0 ds"

lemma length_fixed_digits [simp]: "length (fixed_digits b k n) = k"
  by (induction k arbitrary: n) auto

lemma fixed_digits_less: "0 < b \<Longrightarrow> d \<in> set (fixed_digits b k n) \<Longrightarrow> d < b"
  by (induction k arbitrary: n) auto

lemma digits_val_snoc: "digits_val b (ds @ [d]) = digits_val b ds * b + d"
  by (simp add: digits_val_def)

lemma digits_val_fixed: "digits_val b (fixed_digits b k n) = n mod b ^ k"
proof (induction k arbitrary: n)
  case 0
  then show ?case by (simp add: digits_val_def)
next
  case (Suc k)
  then show ?case
    by (simp add: digits_val_snoc mod_mult2_eq mult.commute)
qed

lemma digits_val_less: "0 < b \<Longrightarrow> \<forall>d \<in> set ds. d < b \<Longrightarrow> digits_val b ds < b ^ length ds"
proof (induction ds rule: rev_induct)
  case Nil
  then show ?case by (simp add: digits_val_def)
next
  case (snoc d ds)
  then have "digits_val b ds + 1 \<le> b ^ length ds" and "d < b" by auto
  then have "(digits_val b ds + 1) * b \<le> b ^ length ds * b" by (intro mult_le_mono1)
  with \<open>d < b\<close> show ?case by (simp add: digits_val_snoc algebra_simps)
qed

text \<open>Hexadecimal digits as characters (lower case), and the digit a character stands for.\<close>

definition hex_char :: "nat \<Rightarrow> codepoint" where
  "hex_char d = (if d < 10 then 48 + d else 87 + d)"

definition hex_val :: "codepoint \<Rightarrow> nat option" where
  "hex_val c =
     (if 48 \<le> c \<and> c \<le> 57 then Some (c - 48)
      else if 97 \<le> c \<and> c \<le> 102 then Some (c - 87)
      else if 65 \<le> c \<and> c \<le> 70 then Some (c - 55) else None)"

definition dec_val :: "codepoint \<Rightarrow> nat option" where
  "dec_val c = (if 48 \<le> c \<and> c \<le> 57 then Some (c - 48) else None)"

lemma hex_val_char [simp]: "d < 16 \<Longrightarrow> hex_val (hex_char d) = Some d"
  by (auto simp: hex_val_def hex_char_def)

lemma dec_val_char [simp]: "d < 10 \<Longrightarrow> dec_val (hex_char d) = Some d"
  by (auto simp: dec_val_def hex_char_def)

text \<open>\<open>f"{n:0k}"\<close>, the decimal field readers, and \<open>str(n)\<close>.\<close>

definition dec_fixed :: "nat \<Rightarrow> nat \<Rightarrow> pystr" where
  "dec_fixed k n = map hex_char (fixed_digits 10 k n)"

definition read_dec :: "pystr \<Rightarrow> nat option" where
  "read_dec s = (if s = [] then None
     else map_option (digits_val 10) (those (map dec_val s)))"

fun nat_str :: "nat \<Rightarrow> pystr" where
  "nat_str n = (if n < 10 then [hex_char n] else nat_str (n div 10) @ [hex_char (n mod 10)])"

declare nat_str.simps [simp del]

definition int_str :: "int \<Rightarrow> pystr" where
  "int_str i = (if i < 0 then 45 # nat_str (nat (- i)) else nat_str (nat i))"

lemma those_map_Some: "(\<And>x. x \<in> set xs \<Longrightarrow> f x = Some (g x)) \<Longrightarrow> those (map f xs) = Some (map g xs)"
  by (induction xs) auto

lemma length_dec_fixed [simp]: "length (dec_fixed k n) = k"
  by (simp add: dec_fixed_def)

lemma dec_fixed_digit: "c \<in> set (dec_fixed k n) \<Longrightarrow> 48 \<le> c \<and> c \<le> 57"
  by (auto simp: dec_fixed_def hex_char_def dest!: fixed_digits_less [rotated])

lemma read_dec_fixed: "0 < k \<Longrightarrow> n < 10 ^ k \<Longrightarrow> read_dec (dec_fixed k n) = Some n"
proof -
  assume k: "0 < k" and n: "n < 10 ^ k"
  have "those (map dec_val (dec_fixed k n)) = Some (fixed_digits 10 k n)"
    using those_map_Some [of "fixed_digits 10 k n" "\<lambda>d. dec_val (hex_char d)" id]
    by (simp add: dec_fixed_def comp_def fixed_digits_less [of 10])
  moreover have "dec_fixed k n \<noteq> []"
    using k length_dec_fixed [of k n] by (metis less_numeral_extra(3) list.size(3))
  ultimately show ?thesis using n by (simp add: read_dec_def digits_val_fixed)
qed

lemma nat_str_nonempty [simp]: "nat_str n \<noteq> []"
  by (subst nat_str.simps) simp

lemma nat_str_digit: "c \<in> set (nat_str n) \<Longrightarrow> 48 \<le> c \<and> c \<le> 57"
proof (induction n rule: nat_str.induct)
  case (1 n)
  then show ?case
    by (subst (asm) (2) nat_str.simps) (auto simp: hex_char_def split: if_splits)
qed

section \<open>Results\<close>

text \<open>A fallible Python call is an exception (\<open>Inl\<close>) or a value (\<open>Inr\<close>).\<close>

definition is_ok :: "'e + 'a \<Rightarrow> bool" where
  "is_ok r = (case r of Inl _ \<Rightarrow> False | Inr _ \<Rightarrow> True)"

lemma is_ok_simps [simp]: "is_ok (Inr x)" "\<not> is_ok (Inl e)"
  by (simp_all add: is_ok_def)

section \<open>Lists\<close>

text \<open>\<open>dict.fromkeys(xs)\<close> as a list: the first occurrence of each element, in order.\<close>

definition fromkeys :: "'a list \<Rightarrow> 'a list" where
  "fromkeys xs = rev (remdups (rev xs))"

lemma fromkeys_set [simp]: "set (fromkeys xs) = set xs"
  by (simp add: fromkeys_def)

lemma fromkeys_distinct [simp]: "distinct (fromkeys xs)"
  by (simp add: fromkeys_def)

lemma fromkeys_two [simp]: "fromkeys [a, b] = (if a = b then [a] else [a, b])"
  by (simp add: fromkeys_def)

lemma fromkeys_one [simp]: "fromkeys [a] = [a]"
  by (simp add: fromkeys_def)

lemma filter_eq_singleton:
  "distinct (map f xs) \<Longrightarrow> x \<in> set xs \<Longrightarrow> filter (\<lambda>y. f y = f x) xs = [x]"
  by (induction xs) (auto simp: filter_empty_conv image_iff)

lemma distinct_map_eq:
  "distinct (map f xs) \<Longrightarrow> x \<in> set xs \<Longrightarrow> y \<in> set xs \<Longrightarrow> f x = f y \<Longrightarrow> x = y"
  by (auto simp: distinct_map inj_on_def)

lemma map_upd_key_id:
  "(\<And>x. x \<in> set xs \<Longrightarrow> k (f x) = k x) \<Longrightarrow> map k (map (\<lambda>x. if p x then f x else x) xs) = map k xs"
  by auto

end
