(* ===== verification/Json.thy ===== *)
theory Json
  imports Chat_Prelude
begin

text \<open>
  JSON values, \<open>json.dumps\<close> and \<open>json.loads\<close> of the Python standard library, as the relay
  (\<open>ensure_ascii=True\<close>), the hub and the socket session (\<open>ensure_ascii=False\<close>) use them to move
  events through Redis and over the WebSocket; and the dictionary accesses made on decoded events.
\<close>

section \<open>Values\<close>

text \<open>
  A JSON object is its key/value list in insertion order. A float is its text, as \<open>repr\<close>
  prints it.
\<close>

datatype json =
  JNull
| JBool bool
| JInt int
| JFloat pystr
| JStr pystr
| JArr "json list"
| JObj "(pystr \<times> json) list"

text \<open>\<open>d[k] = v\<close> on a dict, \<open>dict(pairs)\<close>, \<open>d.get(k)\<close> and truth values.\<close>

fun dict_set :: "pystr \<Rightarrow> 'v \<Rightarrow> (pystr \<times> 'v) list \<Rightarrow> (pystr \<times> 'v) list" where
  "dict_set k v [] = [(k, v)]"
| "dict_set k v ((k', v') # d) = (if k = k' then (k, v) # d else (k', v') # dict_set k v d)"

definition dict_of :: "(pystr \<times> 'v) list \<Rightarrow> (pystr \<times> 'v) list" where
  "dict_of ps = foldl (\<lambda>d (k, v). dict_set k v d) [] ps"

definition float_zero :: "pystr \<Rightarrow> bool" where
  "float_zero t \<longleftrightarrow> (\<forall>c \<in> set (takeWhile (\<lambda>c. c \<noteq> 101 \<and> c \<noteq> 69) t). c \<notin> {49..57} \<and> c \<noteq> 78 \<and> c \<noteq> 73)"

fun truthy :: "json \<Rightarrow> bool" where
  "truthy JNull = False"
| "truthy (JBool b) = b"
| "truthy (JInt i) = (i \<noteq> 0)"
| "truthy (JFloat t) = (\<not> float_zero t)"
| "truthy (JStr s) = (s \<noteq> [])"
| "truthy (JArr xs) = (xs \<noteq> [])"
| "truthy (JObj ps) = (ps \<noteq> [])"

text \<open>
  \<open>str(value)\<close> where the result goes to \<open>uuid.UUID\<close>. The text of a list or dict always holds a
  bracket, a quote or nothing at all, which \<open>UUID\<close> rejects, and \<open>repr\<close> of a float is shorter than
  the 32 digits \<open>UUID\<close> asks for: a fixed text it rejects stands for each of them.
\<close>

fun py_str :: "json \<Rightarrow> pystr" where
  "py_str (JStr s) = s"
| "py_str (JInt i) = int_str i"
| "py_str (JBool b) = (if b then lit ''True'' else lit ''False'')"
| "py_str JNull = lit ''None''"
| "py_str (JFloat t) = lit ''0.0''"
| "py_str (JArr xs) = lit ''[]''"
| "py_str (JObj ps) = lit ''{}''"

section \<open>Printing\<close>

definition hex4 :: "nat \<Rightarrow> pystr" where
  "hex4 n = map hex_char (fixed_digits 16 4 n)"

definition u_escape :: "nat \<Rightarrow> pystr" where
  "u_escape n = 92 # 117 # hex4 n"

definition esc_char :: "bool \<Rightarrow> codepoint \<Rightarrow> pystr" where
  "esc_char ascii c =
     (if c = 34 then [92, 34] else if c = 92 then [92, 92] else if c = 10 then [92, 110]
      else if c = 13 then [92, 114] else if c = 9 then [92, 116] else if c = 8 then [92, 98]
      else if c = 12 then [92, 102]
      else if c < 32 then u_escape c
      else if c < 127 \<or> \<not> ascii then [c]
      else if c < 65536 then u_escape c
      else u_escape (55296 + (c - 65536) div 1024) @ u_escape (56320 + (c - 65536) mod 1024))"

definition dumps_str :: "bool \<Rightarrow> pystr \<Rightarrow> pystr" where
  "dumps_str ascii s = 34 # concat (map (esc_char ascii) s) @ [34]"

fun dumps :: "bool \<Rightarrow> json \<Rightarrow> pystr" where
  "dumps ascii JNull = lit ''null''"
| "dumps ascii (JBool b) = (if b then lit ''true'' else lit ''false'')"
| "dumps ascii (JInt i) = int_str i"
| "dumps ascii (JFloat t) = t"
| "dumps ascii (JStr s) = dumps_str ascii s"
| "dumps ascii (JArr xs) = 91 # py_join [44, 32] (map (dumps ascii) xs) @ [93]"
| "dumps ascii (JObj ps) =
     123 # py_join [44, 32] (map (\<lambda>(k, v). dumps_str ascii k @ [58, 32] @ dumps ascii v) ps) @ [125]"

section \<open>Parsing\<close>

definition read_hex4 :: "pystr \<Rightarrow> nat option" where
  "read_hex4 s = (if length s < 4 then None
     else map_option (digits_val 16) (those (map hex_val (take 4 s))))"

text \<open>The second half of a surrogate pair, when it follows as another \<open>\\u\<close> escape.\<close>

definition low_escape :: "pystr \<Rightarrow> nat option" where
  "low_escape s =
     (if prefix [92, 117] s then
        (case read_hex4 (drop 2 s) of
           Some l \<Rightarrow> if 56320 \<le> l \<and> l < 57344 then Some l else None
         | None \<Rightarrow> None)
      else None)"

definition unescape :: "codepoint \<Rightarrow> codepoint option" where
  "unescape e =
     (if e = 34 \<or> e = 92 \<or> e = 47 then Some e else if e = 98 then Some 8 else if e = 102 then Some 12
      else if e = 110 then Some 10 else if e = 114 then Some 13 else if e = 116 then Some 9 else None)"

definition cons_fst :: "'a \<Rightarrow> ('a list \<times> 'b) option \<Rightarrow> ('a list \<times> 'b) option" where
  "cons_fst x r = map_option (\<lambda>(xs, b). (x # xs, b)) r"

lemma cons_fst_simps [simp]: "cons_fst x None = None" "cons_fst x (Some (xs, b)) = Some (x # xs, b)"
  by (simp_all add: cons_fst_def)

text \<open>The rest of a string literal after its opening quote, in strict mode.\<close>

function parse_str :: "pystr \<Rightarrow> (pystr \<times> pystr) option" where
  "parse_str [] = None"
| "parse_str (c # cs) =
     (if c = 34 then Some ([], cs)
      else if c = 92 then
        (case cs of [] \<Rightarrow> None
         | e # r \<Rightarrow>
             if e = 117 then
               (case read_hex4 r of None \<Rightarrow> None
                | Some u \<Rightarrow>
                    (case (if 55296 \<le> u \<and> u < 56320 then low_escape (drop 4 r) else None) of
                       Some l \<Rightarrow> cons_fst (65536 + (u - 55296) * 1024 + (l - 56320)) (parse_str (drop 10 r))
                     | None \<Rightarrow> cons_fst u (parse_str (drop 4 r))))
             else (case unescape e of None \<Rightarrow> None | Some x \<Rightarrow> cons_fst x (parse_str r)))
      else if c < 32 then None
      else cons_fst c (parse_str cs))"
  by pat_completeness auto
termination
  by (relation "measure length") auto

declare parse_str.simps(2) [simp del]

definition is_digit :: "codepoint \<Rightarrow> bool" where
  "is_digit c \<longleftrightarrow> 48 \<le> c \<and> c \<le> 57"

definition int_part :: "pystr \<Rightarrow> pystr \<times> pystr" where
  "int_part s = (if s \<noteq> [] \<and> hd s = 48 then ([48], tl s) else (takeWhile is_digit s, dropWhile is_digit s))"

definition frac_part :: "pystr \<Rightarrow> pystr \<times> pystr" where
  "frac_part s =
     (if s \<noteq> [] \<and> hd s = 46 \<and> takeWhile is_digit (tl s) \<noteq> []
      then (46 # takeWhile is_digit (tl s), dropWhile is_digit (tl s)) else ([], s))"

definition exp_part :: "pystr \<Rightarrow> pystr \<times> pystr" where
  "exp_part s =
     (if s \<noteq> [] \<and> (hd s = 101 \<or> hd s = 69) then
        (let t = tl s; sg = (if t \<noteq> [] \<and> (hd t = 43 \<or> hd t = 45) then [hd t] else []);
             ds = takeWhile is_digit (drop (length sg) t)
         in if ds \<noteq> [] then (hd s # sg @ ds, dropWhile is_digit (drop (length sg) t)) else ([], s))
      else ([], s))"

text \<open>Numbers: an integer, or a float when a fraction or an exponent follows.\<close>

definition parse_num :: "pystr \<Rightarrow> (json \<times> pystr) option" where
  "parse_num s =
     (let neg = (s \<noteq> [] \<and> hd s = 45); s1 = (if neg then tl s else s);
          (ip, s2) = int_part s1; (fp, s3) = frac_part s2; (ep, s4) = exp_part s3
      in if ip = [] then None
         else if fp = [] \<and> ep = [] then
           map_option (\<lambda>n. (JInt (if neg then - int n else int n), s4)) (read_dec ip)
         else Some (JFloat ((if neg then [45] else []) @ ip @ fp @ ep), s4))"

definition ws :: "pystr \<Rightarrow> pystr" where
  "ws s = dropWhile (\<lambda>c. c = 32 \<or> c = 9 \<or> c = 10 \<or> c = 13) s"

definition keyword :: "pystr \<Rightarrow> json \<Rightarrow> pystr \<Rightarrow> (json \<times> pystr) option" where
  "keyword w j s = (if prefix w s then Some (j, drop (length w) s) else None)"

text \<open>
  \<open>scan_once\<close> and its array and object loops. The first argument is fuel for nested calls; \<open>loads\<close>
  gives more than the text can use (\<open>loads_fuel\<close>). The limits the interpreter sets on top of the
  grammar are in \<open>Json_Limits\<close>.
\<close>

fun parse_value :: "nat \<Rightarrow> pystr \<Rightarrow> (json \<times> pystr) option"
  and parse_elems :: "nat \<Rightarrow> pystr \<Rightarrow> (json list \<times> pystr) option"
  and parse_members :: "nat \<Rightarrow> pystr \<Rightarrow> ((pystr \<times> json) list \<times> pystr) option"
where
  "parse_value 0 s = None"
| "parse_value (Suc n) [] = None"
| "parse_value (Suc n) (c # cs) =
     (if c = 34 then map_option (\<lambda>(t, r). (JStr t, r)) (parse_str cs)
      else if c = 123 then
        (let r = ws cs in if r \<noteq> [] \<and> hd r = 125 then Some (JObj [], tl r)
         else map_option (\<lambda>(ps, r'). (JObj (dict_of ps), r')) (parse_members n r))
      else if c = 91 then
        (let r = ws cs in if r \<noteq> [] \<and> hd r = 93 then Some (JArr [], tl r)
         else map_option (\<lambda>(xs, r'). (JArr xs, r')) (parse_elems n r))
      else if c = 110 then keyword (lit ''null'') JNull (c # cs)
      else if c = 116 then keyword (lit ''true'') (JBool True) (c # cs)
      else if c = 102 then keyword (lit ''false'') (JBool False) (c # cs)
      else if c = 78 then keyword (lit ''NaN'') (JFloat (lit ''NaN'')) (c # cs)
      else if c = 73 then keyword (lit ''Infinity'') (JFloat (lit ''Infinity'')) (c # cs)
      else if c = 45 \<and> prefix (lit ''Infinity'') cs
        then Some (JFloat (lit ''-Infinity''), drop 8 cs)
      else parse_num (c # cs))"
| "parse_elems 0 s = None"
| "parse_elems (Suc n) s =
     (case parse_value n s of None \<Rightarrow> None
      | Some (v, r) \<Rightarrow>
          (case ws r of [] \<Rightarrow> None
           | c # r' \<Rightarrow>
               if c = 93 then Some ([v], r')
               else if c = 44 then cons_fst v (parse_elems n (ws r'))
               else None))"
| "parse_members 0 s = None"
| "parse_members (Suc n) s =
     (if s = [] \<or> hd s \<noteq> 34 then None
      else case parse_str (tl s) of None \<Rightarrow> None
      | Some (k, r) \<Rightarrow>
          (case ws r of [] \<Rightarrow> None
           | c # r1 \<Rightarrow>
               if c \<noteq> 58 then None
               else case parse_value n (ws r1) of None \<Rightarrow> None
               | Some (v, r2) \<Rightarrow>
                   (case ws r2 of [] \<Rightarrow> None
                    | c' # r3 \<Rightarrow>
                        if c' = 125 then Some ([(k, v)], r3)
                        else if c' = 44 then cons_fst (k, v) (parse_members n (ws r3))
                        else None)))"

text \<open>\<open>json.loads\<close>: \<open>None\<close> is the \<open>JSONDecodeError\<close> (a \<open>ValueError\<close>).\<close>

definition loads :: "pystr \<Rightarrow> json option" where
  "loads s =
     (case parse_value (Suc (2 * length s)) (ws s) of None \<Rightarrow> None
      | Some (j, r) \<Rightarrow> if ws r = [] then Some j else None)"

subsection \<open>The fuel is enough\<close>

lemma length_ws: "length (ws s) \<le> length s"
  unfolding ws_def by (rule length_dropWhile_le)

lemma cons_fst_Some: "cons_fst x y = Some (t, r) \<longleftrightarrow> (\<exists>t'. y = Some (t', r) \<and> t = x # t')"
  by (cases y) (auto simp: cons_fst_def)

lemma parse_str_shorter: "parse_str s = Some (t, r) \<Longrightarrow> length r < length s"
proof (induction s arbitrary: t rule: length_induct)
  case (1 s)
  have IH: "length r < length s'" if "cons_fst x (parse_str s') = Some (t, r)" "length s' < length s" for x s'
    using that 1(1) by (auto simp: cons_fst_Some)
  show ?case
  proof (cases s)
    case (Cons c cs)
    consider "c = 34" | e r' where "c = 92" "cs = e # r'" | "c \<noteq> 34" "c \<noteq> 92"
      using 1(2) Cons by (cases cs) (auto simp: parse_str.simps(2) split: if_splits)
    then show ?thesis
    proof cases
      case 2
      then have "length r < length (drop 10 r') \<or> length r < length (drop 4 r') \<or> length r < length r'"
        using 1(2) Cons IH [of _ "drop 10 r'"] IH [of _ "drop 4 r'"] IH [of _ r']
        by (auto simp: parse_str.simps(2) split: if_splits option.splits)
      then show ?thesis using Cons 2 by auto
    qed (use 1(2) Cons IH [of c cs] in \<open>auto simp: parse_str.simps(2) split: if_splits\<close>)
  qed (use 1(2) in simp)
qed

lemma number_parts_shorter:
  "length (snd (int_part t)) \<le> length t" "fst (int_part t) \<noteq> [] \<Longrightarrow> length (snd (int_part t)) < length t"
  "length (snd (frac_part t)) \<le> length t" "length (snd (exp_part t)) \<le> length t"
proof -
  have d: "length (dropWhile is_digit u) \<le> length u" for u by (rule length_dropWhile_le)
  show "length (snd (int_part t)) \<le> length t" using d [of t] by (simp add: int_part_def)
  show "fst (int_part t) \<noteq> [] \<Longrightarrow> length (snd (int_part t)) < length t"
    using d [of "tl t"] by (cases t) (auto simp: int_part_def less_Suc_eq_le split: if_splits)
  show "length (snd (frac_part t)) \<le> length t" using d [of "tl t"] by (auto simp: frac_part_def)
  have "length (dropWhile is_digit (drop k (tl t))) \<le> length t" for k
    using d [of "drop k (tl t)"] by simp
  then show "length (snd (exp_part t)) \<le> length t" by (simp add: exp_part_def Let_def)
qed

lemma parse_num_shorter: "parse_num s = Some (v, r) \<Longrightarrow> length r < length s"
proof -
  define s1 where "s1 = (if s \<noteq> [] \<and> hd s = 45 then tl s else s)"
  assume p: "parse_num s = Some (v, r)"
  have s1: "length s1 \<le> length s" by (simp add: s1_def)
  have ip: "fst (int_part s1) \<noteq> []" and r: "r = snd (exp_part (snd (frac_part (snd (int_part s1)))))"
    using p by (auto simp: parse_num_def Let_def split_def s1_def split: if_splits)
  show ?thesis
    using number_parts_shorter(2) [OF ip] number_parts_shorter(3) [of "snd (int_part s1)"]
      number_parts_shorter(4) [of "snd (frac_part (snd (int_part s1)))"] s1 unfolding r by linarith
qed

lemma keyword_shorter: "keyword w j s = Some (v, r) \<Longrightarrow> w \<noteq> [] \<Longrightarrow> length r < length s"
  by (auto simp: keyword_def prefix_def split: if_splits)

lemma parse_atom_shorter:
  assumes "c \<noteq> 123" "c \<noteq> 91" "parse_value (Suc n) (c # cs) = Some (v, r)"
  shows "length r < length (c # cs)"
proof -
  have "length r < length (c # cs)" if "parse_str cs = Some (t, r)" for t using parse_str_shorter [OF that] by simp
  then show ?thesis
    using assms by (auto simp: lit_Cons dest: keyword_shorter parse_num_shorter split: if_splits)
qed

lemma parse_value_object:
  "parse_value (Suc n) (123 # cs) =
     (if ws cs \<noteq> [] \<and> hd (ws cs) = 125 then Some (JObj [], tl (ws cs))
      else map_option (\<lambda>(ps, r). (JObj (dict_of ps), r)) (parse_members n (ws cs)))"
  by (simp add: Let_def)

lemma parse_value_array:
  "parse_value (Suc n) (91 # cs) =
     (if ws cs \<noteq> [] \<and> hd (ws cs) = 93 then Some (JArr [], tl (ws cs))
      else map_option (\<lambda>(xs, r). (JArr xs, r)) (parse_elems n (ws cs)))"
  by (simp add: Let_def)

lemma length_after: "ws r = c # r' \<Longrightarrow> length r' < length r" "length (ws r) \<le> length r"
  using length_ws [of r] by auto

lemma parse_shorter:
  "parse_value n s = Some (v, r) \<Longrightarrow> length r < length s"
  "parse_elems n s = Some (xs, r) \<Longrightarrow> length r < length s"
  "parse_members n s = Some (ps, r) \<Longrightarrow> length r < length s"
proof (induction n s and n s and n s arbitrary: v r and xs r and ps r rule: parse_value_parse_elems_parse_members.induct)
  case (3 n c cs)
  note w = length_ws [of cs]
  consider "c = 123" | "c = 91" | "c \<noteq> 123" "c \<noteq> 91" by blast
  then show ?case
  proof cases
    case 1
    with "3.IH"(1) "3.prems" w show ?thesis by (fastforce simp: parse_value_object simp del: parse_value.simps split: if_splits)
  next
    case 2
    with "3.IH"(2) "3.prems" w show ?thesis by (fastforce simp: parse_value_array simp del: parse_value.simps split: if_splits)
  next
    case 3
    from parse_atom_shorter [OF this "3.prems"] show ?thesis .
  qed
next
  case (5 n s)
  from "5.prems" obtain v r1 c r' where v: "parse_value n s = Some (v, r1)" "ws r1 = c # r'"
    and c: "c = 93 \<and> r = r' \<or> c = 44 \<and> (\<exists>xs'. parse_elems n (ws r') = Some (xs', r))"
    by (auto simp: cons_fst_Some split: option.splits list.splits if_splits)
  have "length r < length (ws r')" if "parse_elems n (ws r') = Some (xs', r)" "c = 44" for xs'
    using "5.IH"(2) [OF v(1) refl v(2) _ that(2) that(1)] that(2) by simp
  then show ?case using "5.IH"(1) [OF v(1)] length_after(1) [OF v(2)] length_ws [of r'] c by fastforce
next
  case (7 n s)
  from "7.prems" obtain cs k r0 c1 r1 where s: "s = 34 # cs" and k: "parse_str cs = Some (k, r0)" "ws r0 = c1 # r1"
    by (cases s) (auto split: option.splits list.splits if_splits)
  from "7.prems" obtain v r2 c r' where v: "c1 = 58" "parse_value n (ws r1) = Some (v, r2)" "ws r2 = c # r'"
    and c: "c = 125 \<and> r = r' \<or> c = 44 \<and> (\<exists>ps'. parse_members n (ws r') = Some (ps', r))"
    unfolding s by (auto simp: k cons_fst_Some split: option.splits list.splits if_splits)
  have "length r2 < length (ws r1)" using "7.IH"(1) [of "(k, r0)" k r0 c1 r1 v r2] s k v by simp
  moreover have "length r < length (ws r')" if "parse_members n (ws r') = Some (ps', r)" "c = 44" for ps'
    using "7.IH"(2) [of "(k, r0)" k r0 c1 r1 "(v, r2)" v r2 c r' ps' r] s k v that by simp
  ultimately show ?case
    using c parse_str_shorter [OF k(1)] length_after(1) [OF k(2)] length_after(1) [OF v(3)] length_ws [of r1] length_ws [of r']
    unfolding s by fastforce
qed simp_all

text \<open>With fuel for two calls per character the result no longer depends on the fuel.\<close>

lemma parse_fuel_step:
  "2 * length s < n \<Longrightarrow> parse_value (Suc n) s = parse_value n s"
  "2 * length s + 1 < n \<Longrightarrow> parse_elems (Suc n) s = parse_elems n s"
  "2 * length s + 1 < n \<Longrightarrow> parse_members (Suc n) s = parse_members n s"
proof (induction n s and n s and n s rule: parse_value_parse_elems_parse_members.induct)
  case (3 n c cs)
  have w: "2 * length (ws cs) + 1 < n" using "3.prems" length_ws [of cs] by simp
  consider "c = 123" | "c = 91" | "c \<noteq> 123" "c \<noteq> 91" by blast
  then show ?case
  proof cases
    case 1
    with "3.IH"(1) w show ?thesis by (cases "ws cs = []") (simp_all add: parse_value_object del: parse_value.simps parse_members.simps)
  next
    case 2
    with "3.IH"(2) w show ?thesis by (cases "ws cs = []") (simp_all add: parse_value_array del: parse_value.simps parse_elems.simps)
  qed simp
next
  case (5 n s)
  have v: "parse_value (Suc n) s = parse_value n s" using "5.IH"(1) "5.prems" by simp
  have "parse_elems (Suc n) (ws r') = parse_elems n (ws r')" if "parse_value n s = Some (u, r)" "ws r = 44 # r'" for u r r'
    using "5.IH"(2) [OF that(1) refl that(2)] "5.prems" parse_shorter(1) [OF that(1)] length_after(1) [OF that(2)] length_ws [of r']
    by simp
  then show ?case unfolding parse_elems.simps(2) [of "Suc n"] parse_elems.simps(2) [of n] v
    by (auto split: option.splits list.splits)
next
  case (7 n s)
  have v: "parse_value (Suc n) (ws r1) = parse_value n (ws r1)"
    if "s = 34 # cs" "parse_str cs = Some (k, r0)" "ws r0 = 58 # r1" for cs k r0 r1
    using "7.IH"(1) [of "(k, r0)" k r0 58 r1] that "7.prems" parse_str_shorter [OF that(2)] length_after(1) [OF that(3)] length_ws [of r1]
    by simp
  have m: "parse_members (Suc n) (ws r') = parse_members n (ws r')"
    if "s = 34 # cs" "parse_str cs = Some (k, r0)" "ws r0 = 58 # r1" "parse_value n (ws r1) = Some (u, r2)" "ws r2 = 44 # r'"
    for cs k r0 r1 u r2 r'
    using "7.IH"(2) [of "(k, r0)" k r0 58 r1 "(u, r2)" u r2 44 r'] that "7.prems" parse_str_shorter [OF that(2)]
      length_after(1) [OF that(3)] length_ws [of r1] parse_shorter(1) [OF that(4)] length_after(1) [OF that(5)] length_ws [of r']
    by simp
  show ?case
  proof (cases s)
    case (Cons c cs)
    show ?thesis
      using v m unfolding parse_members.simps(2) [of "Suc n"] parse_members.simps(2) [of n]
      by (auto simp: Cons split: option.splits list.splits)
  qed simp
qed simp_all

lemma parse_fuel: "2 * length s < n \<Longrightarrow> n \<le> m \<Longrightarrow> parse_value m s = parse_value n s"
proof (induction m)
  case (Suc m)
  then show ?case using parse_fuel_step(1) [of s m] by (cases "n = Suc m") simp_all
qed simp

text \<open>So \<open>loads\<close> is the parse of the text, whatever larger fuel it is given.\<close>

lemma loads_fuel:
  "2 * length s < n \<Longrightarrow> loads s = (case parse_value n (ws s) of None \<Rightarrow> None | Some (j, r) \<Rightarrow> if ws r = [] then Some j else None)"
  using parse_fuel [of "ws s" "Suc (2 * length s)" n] length_ws [of s] by (simp add: loads_def)

section \<open>Reading back what was printed\<close>

subsection \<open>Strings\<close>

text \<open>A string of Unicode scalar values: what UTF-8 input can produce.\<close>

definition scalar :: "codepoint \<Rightarrow> bool" where
  "scalar c \<longleftrightarrow> c < 1114112 \<and> \<not> (55296 \<le> c \<and> c < 57344)"

lemma read_hex4_hex4: "n < 65536 \<Longrightarrow> read_hex4 (hex4 n @ r) = Some n"
proof -
  assume n: "n < 65536"
  have d: "d < 16" if "d \<in> set (fixed_digits 16 4 n)" for d
    using fixed_digits_less [OF _ that] by simp
  then have "those (map hex_val (hex4 n)) = Some (fixed_digits 16 4 n)"
    using those_map_Some [of "fixed_digits 16 4 n" "\<lambda>d. hex_val (hex_char d)" id]
    by (simp add: hex4_def comp_def)
  moreover have "length (hex4 n) = 4" by (simp add: hex4_def)
  ultimately show ?thesis using n by (simp add: read_hex4_def digits_val_fixed)
qed

lemma length_hex4 [simp]: "length (hex4 n) = 4"
  by (simp add: hex4_def)

lemma parse_u_escape:
  "n < 65536 \<Longrightarrow> \<not> (55296 \<le> n \<and> n < 56320) \<Longrightarrow> parse_str (u_escape n @ r) = cons_fst n (parse_str r)"
  by (subst u_escape_def) (auto simp: parse_str.simps(2) read_hex4_hex4)

lemma low_escape_u_escape:
  "56320 \<le> n \<Longrightarrow> n < 57344 \<Longrightarrow> low_escape (u_escape n @ r) = Some n"
  by (simp add: low_escape_def u_escape_def read_hex4_hex4)

lemma parse_surrogate_pair:
  assumes "65536 \<le> c" "c < 1114112"
  shows "parse_str (u_escape (55296 + (c - 65536) div 1024) @ u_escape (56320 + (c - 65536) mod 1024) @ r)
    = cons_fst c (parse_str r)"
proof -
  let ?h = "55296 + (c - 65536) div 1024" and ?l = "56320 + (c - 65536) mod 1024"
  have h: "55296 \<le> ?h" "?h < 56320" using assms by auto
  have l: "low_escape (u_escape ?l @ r) = Some ?l" by (rule low_escape_u_escape) auto
  have "65536 + (?h - 55296) * 1024 + (?l - 56320) = c"
    using assms mult_div_mod_eq [of 1024 "c - 65536"] by simp
  then show ?thesis
    using h l by (subst (1) u_escape_def) (simp add: parse_str.simps(2) read_hex4_hex4 u_escape_def [of ?l])
qed

lemma parse_esc_char:
  "scalar c \<Longrightarrow> parse_str (esc_char ascii c @ r) = cons_fst c (parse_str r)"
proof -
  assume c: "scalar c"
  show ?thesis
  proof (cases "c \<in> {34, 92, 10, 13, 9, 8, 12}")
    case True
    then show ?thesis by (auto simp: esc_char_def parse_str.simps(2) unescape_def)
  next
    case named: False
    consider "c < 32" | "32 \<le> c" "c < 127 \<or> \<not> ascii" | "127 \<le> c" "ascii" "c < 65536" | "ascii" "65536 \<le> c"
      by linarith
    then show ?thesis
    proof cases
      case 1
      with named show ?thesis by (simp add: esc_char_def parse_u_escape)
    next
      case 2
      with named show ?thesis by (auto simp: esc_char_def parse_str.simps(2))
    next
      case 3
      with c show ?thesis by (auto simp: esc_char_def parse_u_escape scalar_def)
    next
      case 4
      with c show ?thesis by (simp add: esc_char_def parse_surrogate_pair scalar_def)
    qed
  qed
qed

lemma parse_dumps_str:
  "\<forall>c \<in> set t. scalar c \<Longrightarrow> parse_str (tl (dumps_str ascii t @ r)) = Some (t, r)"
  by (induction t) (simp_all add: dumps_str_def parse_str.simps(2) [of 34] parse_esc_char)

subsection \<open>Numbers\<close>

lemma nat_str_digits:
  "\<exists>ds. nat_str n = map hex_char ds \<and> (\<forall>d \<in> set ds. d < 10) \<and> ds \<noteq> [] \<and> digits_val 10 ds = n \<and>
     (hd ds = 0 \<longrightarrow> n = 0)"
proof (induction n rule: nat_str.induct)
  case (1 n)
  show ?case
  proof (cases "n < 10")
    case True
    then show ?thesis
      by (subst nat_str.simps) (auto simp: digits_val_def intro!: exI [of _ "[n]"])
  next
    case False
    with 1 obtain ds where "nat_str (n div 10) = map hex_char ds" "\<forall>d \<in> set ds. d < 10" "ds \<noteq> []"
      "digits_val 10 ds = n div 10" "hd ds = 0 \<longrightarrow> n div 10 = 0" by (elim meta_impE exE conjE)
    with False show ?thesis
      by (subst nat_str.simps) (auto simp: digits_val_snoc intro!: exI [of _ "ds @ [n mod 10]"])
  qed
qed

lemma read_dec_nat_str: "read_dec (nat_str n) = Some n"
proof -
  obtain ds where ds: "nat_str n = map hex_char ds" "\<forall>d \<in> set ds. d < 10" "ds \<noteq> []" "digits_val 10 ds = n"
    using nat_str_digits [of n] by (elim exE conjE)
  then have "those (map dec_val (nat_str n)) = Some ds"
    using those_map_Some [of ds "\<lambda>d. dec_val (hex_char d)" id] by (simp add: comp_def)
  with ds show ?thesis by (simp add: read_dec_def)
qed

lemma nat_str_0 [simp]: "nat_str 0 = [48]"
  by (simp add: nat_str.simps hex_char_def)

lemma nat_str_head: "n \<noteq> 0 \<Longrightarrow> hd (nat_str n) \<noteq> 48"
proof
  assume "n \<noteq> 0" and h: "hd (nat_str n) = 48"
  obtain ds where ds: "nat_str n = map hex_char ds" "\<forall>d \<in> set ds. d < 10" "ds \<noteq> []" "hd ds = 0 \<longrightarrow> n = 0"
    using nat_str_digits [of n] by (elim exE conjE)
  with h have "hex_char (hd ds) = 48" "hd ds < 10" by (simp_all add: hd_map)
  then have "hd ds = 0" by (simp add: hex_char_def)
  with ds \<open>n \<noteq> 0\<close> show False by simp
qed

text \<open>What may follow a number: nothing, or a character that no number continues with.\<close>

definition stops :: "pystr \<Rightarrow> bool" where
  "stops r \<longleftrightarrow> r = [] \<or> \<not> (is_digit (hd r) \<or> hd r \<in> {43, 45, 46, 69, 101})"

lemma span_digits:
  assumes "stops r"
  shows "takeWhile is_digit (s @ r) = takeWhile is_digit s"
    and "dropWhile is_digit (s @ r) = dropWhile is_digit s @ r"
  using assms by (induction s) (cases r; simp add: stops_def)+

lemmas span_none = span_digits [of r "[]" for r, simplified]

lemma int_part_append:
  assumes "stops r"
  shows "int_part (s @ r) = (fst (int_part s), snd (int_part s) @ r)"
proof (cases s)
  case Nil
  have "hd r \<noteq> 48" if "r \<noteq> []" using assms that by (auto simp: stops_def is_digit_def)
  with Nil assms show ?thesis by (auto simp: int_part_def span_none)
next
  case (Cons c t)
  then show ?thesis using span_digits [OF assms, of s] by (auto simp: int_part_def)
qed

lemma frac_part_append:
  assumes "stops r"
  shows "frac_part (s @ r) = (fst (frac_part s), snd (frac_part s) @ r)"
proof (cases s)
  case Nil
  with assms show ?thesis by (auto simp: frac_part_def stops_def)
next
  case (Cons c t)
  then show ?thesis using span_digits [OF assms, of t] by (auto simp: frac_part_def)
qed

lemma exp_part_append:
  assumes "stops r"
  shows "exp_part (s @ r) = (fst (exp_part s), snd (exp_part s) @ r)"
proof (cases s)
  case Nil
  with assms show ?thesis by (auto simp: exp_part_def stops_def)
next
  case (Cons c t)
  have "hd r \<noteq> 43" "hd r \<noteq> 45" if "r \<noteq> []" using assms that by (auto simp: stops_def)
  with Cons assms show ?thesis
    by (cases t) (auto simp: exp_part_def Let_def span_digits span_digits [of r "[]", simplified])
qed

lemma parse_num_append:
  assumes "stops r" "parse_num t = Some (v, u)"
  shows "parse_num (t @ r) = Some (v, u @ r)"
proof -
  have t: "t \<noteq> []" using assms(2) by (auto simp: parse_num_def int_part_def split_def)
  then have "(if (t @ r \<noteq> [] \<and> hd (t @ r) = 45) then tl (t @ r) else t @ r) =
      (if t \<noteq> [] \<and> hd t = 45 then tl t else t) @ r" by auto
  then show ?thesis
    using assms t
    by (auto simp: parse_num_def Let_def split_def int_part_append frac_part_append exp_part_append
        split: if_splits)
qed

lemma parse_num_int: "parse_num (int_str i) = Some (JInt i, [])"
proof -
  have dig: "takeWhile is_digit (nat_str n) = nat_str n" "dropWhile is_digit (nat_str n) = []" for n
    using nat_str_digit by (auto simp: is_digit_def)
  have ip: "int_part (nat_str n) = (nat_str n, [])" for n
    using nat_str_head [of n] by (cases "n = 0") (auto simp: int_part_def dig)
  have "hd (nat_str n) \<noteq> 45" for n
    using nat_str_digit [of "hd (nat_str n)" n] by auto
  then show ?thesis
    by (simp add: parse_num_def int_str_def ip frac_part_def exp_part_def read_dec_nat_str)
qed

lemma int_str_head: "hd (int_str i) = 45 \<or> is_digit (hd (int_str i))"
  using nat_str_digit [of "hd (nat_str n)" n for n] by (auto simp: int_str_def is_digit_def)

lemma int_str_nonempty [simp]: "int_str i \<noteq> []"
  by (simp add: int_str_def)

subsection \<open>Values\<close>

text \<open>
  The values \<open>dumps\<close> prints without loss: strings of scalar values, float texts that are number
  tokens, objects with distinct keys (every Python dict).
\<close>

definition scalars :: "pystr \<Rightarrow> bool" where
  "scalars t \<longleftrightarrow> (\<forall>c \<in> set t. scalar c)"

lemma scalars_lit [simp]: "scalars (lit s)"
proof -
  have "scalar (of_char c)" for c
  proof -
    have "(of_char c :: nat) < 256" by simp
    then show ?thesis unfolding scalar_def by linarith
  qed
  then show ?thesis by (simp add: scalars_def lit_def)
qed

lemma scalars_list [simp]: "scalars []" "scalars (c # s) \<longleftrightarrow> scalar c \<and> scalars s" "scalars (s @ t) \<longleftrightarrow> scalars s \<and> scalars t"
  by (auto simp: scalars_def)

fun wf_json :: "json \<Rightarrow> bool" where
  "wf_json (JFloat t) = (parse_num t = Some (JFloat t, []))"
| "wf_json (JStr t) = scalars t"
| "wf_json (JArr xs) = (\<forall>x \<in> set xs. wf_json x)"
| "wf_json (JObj ps) = (distinct (map fst ps) \<and> (\<forall>p \<in> set ps. scalars (fst p) \<and> wf_json (snd p)))"
| "wf_json _ = True"

lemma dict_set_new: "k \<notin> fst ` set d \<Longrightarrow> dict_set k v d = d @ [(k, v)]"
  by (induction d) auto

lemma dict_of_distinct: "distinct (map fst ps) \<Longrightarrow> dict_of ps = ps"
  unfolding dict_of_def
proof (induction ps rule: rev_induct)
  case Nil
  then show ?case by simp
next
  case (snoc p ps)
  then show ?case by (cases p) (auto simp: dict_set_new)
qed

lemma parse_num_head: "parse_num t = Some (v, u) \<Longrightarrow> t \<noteq> [] \<and> (is_digit (hd t) \<or> (hd t = 45 \<and> tl t \<noteq> [] \<and> is_digit (hd (tl t))))"
proof -
  have ip: "fst (int_part s) \<noteq> [] \<Longrightarrow> s \<noteq> [] \<and> is_digit (hd s)" for s
    by (cases s) (auto simp: int_part_def is_digit_def split: if_splits)
  assume "parse_num t = Some (v, u)"
  then have "fst (int_part (if t \<noteq> [] \<and> hd t = 45 then tl t else t)) \<noteq> []"
    by (auto simp: parse_num_def Let_def split_def split: if_splits)
  from ip [OF this] show ?thesis by (auto split: if_splits)
qed

lemma parse_value_num:
  assumes "parse_num t = Some (v, [])" "stops r"
  shows "parse_value (Suc n) (t @ r) = Some (v, r)"
proof -
  obtain c cs where t: "t = c # cs" and h: "is_digit c \<or> (c = 45 \<and> cs \<noteq> [] \<and> is_digit (hd cs))"
    using parse_num_head [OF assms(1)] by (cases t) auto
  have "parse_num (c # cs @ r) = Some (v, r)"
    using parse_num_append [OF assms(2,1)] t by simp
  moreover have "\<not> (c = 45 \<and> prefix (lit ''Infinity'') (cs @ r))"
    using h by (cases cs) (auto simp: lit_Cons is_digit_def)
  moreover have "c \<notin> {34, 123, 91, 110, 116, 102, 78, 73}"
    using h by (auto simp: is_digit_def)
  ultimately show ?thesis by (auto simp: t)
qed

definition ws_char :: "codepoint \<Rightarrow> bool" where
  "ws_char c \<longleftrightarrow> c = 32 \<or> c = 9 \<or> c = 10 \<or> c = 13"

lemma ws_id: "s \<noteq> [] \<Longrightarrow> \<not> ws_char (hd s) \<Longrightarrow> ws (s @ r) = s @ r"
  by (cases s) (auto simp: ws_def ws_char_def)

lemma ws_punct: "\<not> ws_char c \<Longrightarrow> ws (c # r) = c # r"
  by (auto simp: ws_def ws_char_def)

lemma ws_space [simp]: "ws (32 # r) = ws r"
  by (simp add: ws_def)

lemma dumps_head: "wf_json j \<Longrightarrow> dumps a j \<noteq> [] \<and> \<not> ws_char (hd (dumps a j)) \<and> hd (dumps a j) \<noteq> 93"
proof (cases j)
  case (JInt i)
  then show ?thesis using int_str_head [of i] by (auto simp: ws_char_def is_digit_def)
next
  case (JFloat t)
  moreover assume "wf_json j"
  ultimately show ?thesis using parse_num_head [of t] by (auto simp: ws_char_def is_digit_def)
qed (auto simp: ws_char_def lit_Cons dumps_str_def)

lemma parse_elems_dumps:
  assumes "xs \<noteq> []"
    and "\<And>x n r. x \<in> set xs \<Longrightarrow> length (dumps a x) < n \<Longrightarrow> stops r \<Longrightarrow>
      parse_value n (dumps a x @ r) = Some (x, r)"
    and "\<And>x. x \<in> set xs \<Longrightarrow> wf_json x"
    and "length (py_join [44, 32] (map (dumps a) xs)) + 1 < n"
  shows "parse_elems n (py_join [44, 32] (map (dumps a) xs) @ 93 # r) = Some (xs, r)"
  using assms
proof (induction xs arbitrary: n rule: induct_list012)
  case 1
  then show ?case by simp
next
  case (2 x)
  then obtain m where n: "n = Suc m" by (cases n) auto
  with 2 show ?case by (simp add: ws_punct ws_char_def stops_def is_digit_def)
next
  case (3 x y zs)
  from 3(6) obtain m where n: "n = Suc m" by (cases n) auto
  let ?rest = "py_join [44, 32] (map (dumps a) (y # zs))"
  have p: "parse_value m (dumps a x @ 44 # 32 # ?rest @ 93 # r) = Some (x, 44 # 32 # ?rest @ 93 # r)"
    using 3(6) n by (intro 3(4)) (auto simp: stops_def is_digit_def)
  have rest: "?rest \<noteq> [] \<and> hd ?rest = hd (dumps a y)"
    using dumps_head [OF 3(5) [of y], of a] by (cases zs) auto
  have w: "ws (?rest @ 93 # r) = ?rest @ 93 # r"
    using rest dumps_head [OF 3(5) [of y], of a] by (intro ws_id) auto
  have "parse_elems m (?rest @ 93 # r) = Some (y # zs, r)"
    using 3 n by (intro 3(2)) auto
  with p w show ?case by (simp add: n ws_punct ws_char_def)
qed

lemma parse_members_dumps:
  assumes "ps \<noteq> []"
    and "\<And>k v n r. (k, v) \<in> set ps \<Longrightarrow> length (dumps a v) < n \<Longrightarrow> stops r \<Longrightarrow>
      parse_value n (dumps a v @ r) = Some (v, r)"
    and "\<And>k v. (k, v) \<in> set ps \<Longrightarrow> wf_json v \<and> scalars k"
    and "length (py_join [44, 32] (map (\<lambda>(k, v). dumps_str a k @ [58, 32] @ dumps a v) ps)) + 1 < n"
  shows "parse_members n (py_join [44, 32] (map (\<lambda>(k, v). dumps_str a k @ [58, 32] @ dumps a v) ps) @ 125 # r)
    = Some (ps, r)"
  using assms
proof (induction ps arbitrary: n rule: induct_list012)
  case 1
  then show ?case by simp
next
  case (2 p)
  obtain k v where p: "p = (k, v)" by (cases p)
  from 2(4) obtain m where n: "n = Suc m" by (cases n) auto
  have "parse_str (tl (dumps_str a k @ 58 # 32 # dumps a v @ 125 # r)) = Some (k, 58 # 32 # dumps a v @ 125 # r)"
    using 2(3) [of k v] p by (intro parse_dumps_str) (auto simp: scalars_def)
  moreover have "parse_value m (dumps a v @ 125 # r) = Some (v, 125 # r)"
    using 2(4) n p by (intro 2(2) [of k]) (auto simp: stops_def is_digit_def)
  moreover have "ws (dumps a v @ 125 # r) = dumps a v @ 125 # r"
    using dumps_head [of v a] 2(3) [of k v] p by (intro ws_id) auto
  ultimately show ?case by (simp add: n p ws_punct ws_char_def dumps_str_def)
next
  case (3 p q qs)
  obtain k v where p: "p = (k, v)" by (cases p)
  from 3(6) obtain m where n: "n = Suc m" by (cases n) auto
  let ?rest = "py_join [44, 32] (map (\<lambda>(k, v). dumps_str a k @ [58, 32] @ dumps a v) (q # qs))"
  have "parse_str (tl (dumps_str a k @ 58 # 32 # dumps a v @ 44 # 32 # ?rest @ 125 # r)) =
      Some (k, 58 # 32 # dumps a v @ 44 # 32 # ?rest @ 125 # r)"
    using 3(5) [of k v] p by (intro parse_dumps_str) (auto simp: scalars_def)
  moreover have "parse_value m (dumps a v @ 44 # 32 # ?rest @ 125 # r) = Some (v, 44 # 32 # ?rest @ 125 # r)"
    using 3(6) n p by (intro 3(4) [of k]) (auto simp: stops_def is_digit_def)
  moreover have "ws (dumps a v @ 44 # 32 # ?rest @ 125 # r) = dumps a v @ 44 # 32 # ?rest @ 125 # r"
    using dumps_head [of v a] 3(5) [of k v] p by (intro ws_id) auto
  moreover have "?rest \<noteq> [] \<and> hd ?rest = 34"
    by (cases q; cases qs) (auto simp: dumps_str_def)
  then have "ws (?rest @ 125 # r) = ?rest @ 125 # r" by (intro ws_id) (auto simp: ws_char_def)
  moreover have "parse_members m (?rest @ 125 # r) = Some (q # qs, r)"
  proof (rule 3(2))
    show "length ?rest + 1 < m" using 3(6) n by (simp add: p)
  next
    fix k' v' n' r'
    assume "(k', v') \<in> set (q # qs)"
    then have i: "(k', v') \<in> set (p # q # qs)" by simp
    show "wf_json v' \<and> scalars k'" using i by (rule 3(5))
    assume "length (dumps a v') < n'" "stops r'"
    with i show "parse_value n' (dumps a v' @ r') = Some (v', r')" by (rule 3(4))
  qed simp
  ultimately show ?case by (simp add: n p ws_punct ws_char_def dumps_str_def)
qed

lemma length_dumps_str: "2 \<le> length (dumps_str a t)"
  by (simp add: dumps_str_def)

lemma parse_value_dumps:
  "wf_json j \<Longrightarrow> length (dumps a j) < n \<Longrightarrow> stops r \<Longrightarrow> parse_value n (dumps a j @ r) = Some (j, r)"
proof (induction j arbitrary: n r)
  case (JStr t)
  then obtain m where "n = Suc m" by (cases n) auto
  moreover have "parse_str (tl (dumps_str a t @ r)) = Some (t, r)"
    using JStr by (intro parse_dumps_str) (simp add: scalars_def)
  ultimately show ?case by (simp add: dumps_str_def)
next
  case (JInt i)
  then obtain m where "n = Suc m" by (cases n) auto
  with JInt show ?case by (simp add: parse_value_num [OF parse_num_int])
next
  case (JFloat t)
  then obtain m where "n = Suc m" by (cases n) auto
  with JFloat show ?case by (simp add: parse_value_num)
next
  case (JArr xs)
  then obtain m where n: "n = Suc m" by (cases n) auto
  show ?case
  proof (cases "xs = []")
    case True
    then show ?thesis by (simp add: n ws_punct ws_char_def)
  next
    case False
    let ?b = "py_join [44, 32] (map (dumps a) xs)"
    have e: "parse_elems m (?b @ 93 # r) = Some (xs, r)"
      using JArr n False by (intro parse_elems_dumps) auto
    obtain y ys where xs: "xs = y # ys" using False by (cases xs) auto
    then have "?b \<noteq> [] \<and> \<not> ws_char (hd ?b) \<and> hd ?b \<noteq> 93"
      using dumps_head [of y a] JArr.prems(1) by (cases ys) auto
    moreover from this have "ws (?b @ 93 # r) = ?b @ 93 # r" by (intro ws_id) auto
    ultimately show ?thesis using e by (auto simp: n)
  qed
next
  case (JObj ps)
  then obtain m where n: "n = Suc m" by (cases n) auto
  show ?case
  proof (cases "ps = []")
    case True
    then show ?thesis by (simp add: n ws_punct ws_char_def dict_of_def)
  next
    case False
    let ?b = "py_join [44, 32] (map (\<lambda>(k, v). dumps_str a k @ [58, 32] @ dumps a v) ps)"
    have e: "parse_members m (?b @ 125 # r) = Some (ps, r)"
    proof (rule parse_members_dumps [OF False])
      fix k v n' r'
      assume i: "(k, v) \<in> set ps"
      then show "wf_json v \<and> scalars k" using JObj.prems(1) by auto
      assume "length (dumps a v) < n'" "stops r'"
      with i JObj show "parse_value n' (dumps a v @ r') = Some (v, r')" by force
    qed (use JObj.prems(2) n in simp)
    obtain y ys where ps: "ps = y # ys" using False by (cases ps) auto
    then have "?b \<noteq> [] \<and> hd ?b = 34" by (cases y; cases ys) (auto simp: dumps_str_def)
    moreover from this have "ws (?b @ 125 # r) = ?b @ 125 # r" by (intro ws_id) (auto simp: ws_char_def)
    ultimately show ?thesis using e JObj.prems(1) by (auto simp: n dict_of_distinct)
  qed
next
  case JNull
  then obtain m where "n = Suc m" by (cases n) auto
  then show ?case by (simp add: keyword_def lit_Cons)
next
  case (JBool b)
  then obtain m where "n = Suc m" by (cases n) auto
  then show ?case by (simp add: keyword_def lit_Cons)
qed

lemma loads_dumps: "wf_json j \<Longrightarrow> loads (dumps a j) = Some j"
proof -
  assume j: "wf_json j"
  then have "ws (dumps a j) = dumps a j"
    using dumps_head [OF j, of a] ws_id [of "dumps a j" "[]"] by simp
  with j show ?thesis
    using parse_value_dumps [OF j, of a "Suc (2 * length (dumps a j))" "[]"]
    by (simp add: loads_def stops_def ws_def)
qed

section \<open>Dictionaries\<close>

text \<open>\<open>event.get(key)\<close>, \<open>event[key]\<close> and \<open>isinstance(event, dict)\<close> on decoded values.\<close>

definition dict_get :: "pystr \<Rightarrow> (pystr \<times> 'v) list \<Rightarrow> 'v option" where
  "dict_get k d = map_of d k"

lemma dict_get_set: "dict_get x (dict_set k v d) = (if x = k then Some v else dict_get x d)"
  by (induction d) (auto simp: dict_get_def)

definition is_obj :: "json \<Rightarrow> bool" where
  "is_obj j = (case j of JObj _ \<Rightarrow> True | _ \<Rightarrow> False)"

text \<open>Constructors for the payloads the application builds.\<close>

definition jopt :: "('a \<Rightarrow> json) \<Rightarrow> 'a option \<Rightarrow> json" where
  "jopt f x = (case x of None \<Rightarrow> JNull | Some v \<Rightarrow> f v)"

section \<open>The channel codec\<close>

text \<open>
  What the relay and the hub rely on between them: a well-formed payload survives the trip
  through the text of a Redis message. Both writers (with and without ASCII escapes) give it.
\<close>

locale payload_codec =
  fixes enc :: "json \<Rightarrow> pystr"
    and dec :: "pystr \<Rightarrow> json option"
    and wf :: "json \<Rightarrow> bool"
  assumes dec_enc: "wf j \<Longrightarrow> dec (enc j) = Some j"
begin

lemma enc_inject: "wf j \<Longrightarrow> wf k \<Longrightarrow> enc j = enc k \<longleftrightarrow> j = k"
  using dec_enc by (metis option.inject)

lemma dec_map_enc: "\<forall>j \<in> set js. wf j \<Longrightarrow> those (map (dec \<circ> enc) js) = Some js"
  by (induction js) (auto simp: dec_enc)

end

interpretation ascii_json: payload_codec "dumps True" loads wf_json
  by unfold_locales (rule loads_dumps)

interpretation unicode_json: payload_codec "dumps False" loads wf_json
  by unfold_locales (rule loads_dumps)

end
