(* ===== verification/Errors.thy ===== *)
theory Errors
  imports Json
begin

text \<open>
  \<^verbatim>\<open>app/errors.py\<close>: the application's exceptions as a datatype, the uniform error body and the
  exception handlers installed on the application.
\<close>

section \<open>Exceptions\<close>

text \<open>
  The exceptions that reach a handler, one constructor per class the code distinguishes. The
  class relations of Python (\<open>OperationalError\<close> and \<open>DBAPIError\<close> are \<open>SQLAlchemyError\<close>s,
  \<open>ConnectionError\<close> is an \<open>OSError\<close>) are the predicates below. \<open>RuntimeError\<close> stands for every
  class no handler names.
\<close>

record verr =
  verr_loc :: "pystr list"
  verr_msg :: pystr

datatype exn =
  AppError (status_code: int) (code: pystr) (exn_message: pystr)
| HTTPException int pystr
| RequestValidationError "verr list"
| OperationalError
| DBAPIError
| NoResultFound
| RedisError
| ConnectionError
| OSError
| ClientError
| KeyError
| TypeError
| ValueError
| IndexError
| RuntimeError

definition NotFoundError :: "pystr \<Rightarrow> exn" where
  "NotFoundError message = AppError 404 (lit ''not_found'') message"

fun is_sqlalchemy :: "exn \<Rightarrow> bool" where
  "is_sqlalchemy OperationalError = True"
| "is_sqlalchemy DBAPIError = True"
| "is_sqlalchemy NoResultFound = True"
| "is_sqlalchemy _ = False"

fun is_oserror :: "exn \<Rightarrow> bool" where
  "is_oserror ConnectionError = True"
| "is_oserror OSError = True"
| "is_oserror _ = False"

section \<open>Responses\<close>

text \<open>A response is its status and JSON body; \<open>request_id\<close> is the context variable's value.\<close>

type_synonym response = "int \<times> json"

definition error_body :: "pystr option \<Rightarrow> pystr \<Rightarrow> pystr \<Rightarrow> json" where
  "error_body request_id c message =
     JObj [(lit ''code'', JStr c), (lit ''message'', JStr message), (lit ''request_id'', jopt JStr request_id)]"

definition error_response :: "pystr option \<Rightarrow> int \<Rightarrow> pystr \<Rightarrow> pystr \<Rightarrow> response" where
  "error_response request_id status c message = (status, error_body request_id c message)"

definition status_codes :: "(int \<times> pystr) list" where
  "status_codes =
     [(400, lit ''bad_request''), (401, lit ''unauthorized''), (403, lit ''access_denied''),
      (404, lit ''not_found''), (405, lit ''method_not_allowed''), (409, lit ''conflict''),
      (413, lit ''payload_too_large''), (415, lit ''unsupported_media_type''),
      (422, lit ''validation_error''), (429, lit ''rate_limited''), (503, lit ''service_unavailable'')]"

definition http_error :: "pystr option \<Rightarrow> int \<Rightarrow> pystr \<Rightarrow> response" where
  "http_error rid status detail =
     error_response rid status
       (case map_of status_codes status of None \<Rightarrow> lit ''error'' | Some c \<Rightarrow> c) detail"

definition verr_part :: "verr \<Rightarrow> pystr" where
  "verr_part e =
     (let loc = py_join (lit ''.'') (filter (\<lambda>p. p \<noteq> lit ''body'') (verr_loc e))
      in if loc \<noteq> [] then loc @ lit '': '' @ verr_msg e else verr_msg e)"

definition validation_error :: "pystr option \<Rightarrow> verr list \<Rightarrow> response" where
  "validation_error rid errs =
     (let text = py_join (lit ''; '') (map verr_part (take 5 errs))
      in error_response rid 422 (lit ''validation_error'') (if text \<noteq> [] then text else lit ''Invalid request''))"

definition dependency_down :: "pystr option \<Rightarrow> response" where
  "dependency_down rid =
     error_response rid 503 (lit ''service_unavailable'') (lit ''A backing service is unavailable, retry'')"

text \<open>
  The handlers \<open>install_error_handlers\<close> registers: \<open>Some\<close> of the response, or \<open>None\<close> when no
  handler covers the exception's class and it reaches the middleware.
\<close>

fun handle_exn :: "pystr option \<Rightarrow> exn \<Rightarrow> response option" where
  "handle_exn rid (AppError s c m) = Some (error_response rid s c m)"
| "handle_exn rid (HTTPException s d) = Some (http_error rid s d)"
| "handle_exn rid (RequestValidationError es) = Some (validation_error rid es)"
| "handle_exn rid OperationalError = Some (dependency_down rid)"
| "handle_exn rid DBAPIError = Some (dependency_down rid)"
| "handle_exn rid RedisError = Some (dependency_down rid)"
| "handle_exn rid ConnectionError = Some (dependency_down rid)"
| "handle_exn rid _ = None"

text \<open>A uniform error: status, and a body of exactly \<open>code\<close>, \<open>message\<close>, \<open>request_id\<close>.\<close>

definition uniform_error :: "pystr option \<Rightarrow> response \<Rightarrow> bool" where
  "uniform_error rid r \<longleftrightarrow> (\<exists>c m. snd r = error_body rid c m)"

lemma uniform_error_response [simp]: "uniform_error rid (error_response rid s c m)"
  unfolding uniform_error_def error_response_def by (intro exI) simp

lemma handle_exn_uniform: "handle_exn rid e = Some r \<Longrightarrow> uniform_error rid r"
  by (cases e) (auto simp: http_error_def validation_error_def dependency_down_def Let_def)

end
