(* ===== verification/Storage.thy ===== *)
theory Storage
  imports Config Errors
begin

text \<open>
  \<^verbatim>\<open>app/storage.py\<close>: the attachment store. The boto3 client is a parameter: the outcome of a
  call is given, and the model is what the code makes of it.
\<close>

record stored_object =
  so_size :: int
  so_content_type :: pystr

text \<open>The outcome of \<open>head_object\<close> / \<open>head_bucket\<close> / \<open>create_bucket\<close>.\<close>

datatype head_outcome =
  HeadMeta "int option" "pystr option"  \<comment> \<open>\<open>ContentLength\<close> and \<open>ContentType\<close>, where present\<close>
| HeadClientError "pystr option"  \<comment> \<open>the \<open>Error.Code\<close> of the response\<close>
| HeadRaises exn

definition head :: "head_outcome \<Rightarrow> exn + stored_object option" where
  "head r =
     (case r of
        HeadMeta len ct \<Rightarrow>
          Inr (Some \<lparr>so_size = (case len of None \<Rightarrow> 0 | Some n \<Rightarrow> n),
                     so_content_type = (case ct of None \<Rightarrow> lit ''application/octet-stream'' | Some t \<Rightarrow> t)\<rparr>)
      | HeadClientError c \<Rightarrow>
          if c \<in> {Some (lit ''404''), Some (lit ''NoSuchKey''), Some (lit ''NotFound'')} then Inr None
          else Inl ClientError
      | HeadRaises e \<Rightarrow> Inl e)"

text \<open>
  The POST policy \<open>presign_upload\<close> asks the signer for: bucket, key, fields, conditions and
  expiry. A condition is an exact field value or a range for the content length.
\<close>

datatype policy_condition = ExactField pystr pystr | ContentLengthRange int int

record post_policy =
  pol_bucket :: pystr
  pol_key :: pystr
  pol_fields :: "(pystr \<times> pystr) list"
  pol_conditions :: "policy_condition list"
  pol_expires_in :: int

definition presign_upload :: "settings \<Rightarrow> pystr \<Rightarrow> pystr \<Rightarrow> post_policy" where
  "presign_upload s key content_type =
     \<lparr>pol_bucket = s3_bucket s, pol_key = key, pol_fields = [(lit ''Content-Type'', content_type)],
      pol_conditions = [ExactField (lit ''Content-Type'') content_type,
                        ContentLengthRange 1 (attachment_max_bytes s)],
      pol_expires_in = presign_expiry_seconds s\<rparr>"

text \<open>What a storage service that enforces the policy accepts as an upload.\<close>

definition policy_allows :: "post_policy \<Rightarrow> pystr \<Rightarrow> pystr \<Rightarrow> int \<Rightarrow> bool" where
  "policy_allows p key content_type nbytes \<longleftrightarrow>
     key = pol_key p \<and>
     (\<forall>c \<in> set (pol_conditions p). case c of
        ExactField f v \<Rightarrow> f = lit ''Content-Type'' \<longrightarrow> content_type = v
      | ContentLengthRange lo hi \<Rightarrow> lo \<le> nbytes \<and> nbytes \<le> hi)"

text \<open>
  \<open>presign_download\<close>: the arguments of \<open>generate_presigned_url\<close>; the signing function
  \<open>sign_url operation bucket key expires\<close> is a parameter.
\<close>

definition presign_download ::
  "settings \<Rightarrow> (pystr \<Rightarrow> pystr \<Rightarrow> pystr \<Rightarrow> int \<Rightarrow> pystr) \<Rightarrow> pystr \<Rightarrow> pystr"
where
  "presign_download s sign_url key =
     sign_url (lit ''get_object'') (s3_bucket s) key (download_url_expiry_seconds s)"

text \<open>
  \<open>ensure_bucket\<close>: \<open>create_bucket\<close> is called when \<open>head_bucket\<close> raises a \<open>ClientError\<close>. The result
  is the list of calls made and how the last one ended.
\<close>

datatype bucket_call = HeadBucket | CreateBucket

definition ensure_bucket :: "exn option \<Rightarrow> exn option \<Rightarrow> bucket_call list \<times> (exn + unit)" where
  "ensure_bucket head_error create_error =
     (case head_error of
        None \<Rightarrow> ([HeadBucket], Inr ())
      | Some ClientError \<Rightarrow>
          ([HeadBucket, CreateBucket], (case create_error of None \<Rightarrow> Inr () | Some e \<Rightarrow> Inl e))
      | Some e \<Rightarrow> ([HeadBucket], Inl e))"

text \<open>
  The retry loop of \<^verbatim>\<open>app/bootstrap.py\<close>: \<open>attempts\<close> tries, each with the outcome the list gives
  (an exception, or \<open>None\<close> for success); success stops, exhaustion is \<open>SystemExit\<close>. The result is
  the number of tries made and whether the bucket is ready.
\<close>

fun bootstrap :: "nat \<Rightarrow> (nat \<Rightarrow> exn option) \<Rightarrow> nat \<Rightarrow> nat \<times> bool" where
  "bootstrap 0 outcome attempt = (attempt, False)"
| "bootstrap (Suc left) outcome attempt =
     (case outcome (Suc attempt) of
        None \<Rightarrow> (Suc attempt, True)
      | Some _ \<Rightarrow> bootstrap left outcome (Suc attempt))"

definition bootstrap_main :: "(nat \<Rightarrow> exn option) \<Rightarrow> nat \<times> bool" where
  "bootstrap_main outcome = bootstrap 30 outcome 0"

lemma bootstrap_result:
  "bootstrap n outcome k = (j, ok) \<Longrightarrow>
     k \<le> j \<and> j \<le> k + n \<and> (ok \<longleftrightarrow> (\<exists>i. k < i \<and> i \<le> k + n \<and> outcome i = None)) \<and>
     (ok \<longrightarrow> outcome j = None \<and> (\<forall>i. k < i \<and> i < j \<longrightarrow> outcome i \<noteq> None)) \<and> (\<not> ok \<longrightarrow> j = k + n)"
proof (induction n arbitrary: k)
  case 0
  then show ?case by auto
next
  case (Suc n)
  show ?case
  proof (cases "outcome (Suc k)")
    case None
    with Suc.prems show ?thesis by (auto intro: exI [of _ "Suc k"])
  next
    case (Some e)
    with Suc.prems have "bootstrap n outcome (Suc k) = (j, ok)" by simp
    note IH = Suc.IH [OF this]
    have "i = Suc k \<or> Suc k < i" if "k < i" for i using that by auto
    then show ?thesis using IH Some by (auto; metis Suc_lessD option.distinct(1))
  qed
qed

text \<open>
  The bootstrap always ends: after at most 30 attempts, with the first one that succeeds, or with
  failure exactly when all 30 fail.
\<close>

theorem bootstrap_ends:
  "case bootstrap_main outcome of (attempts, ready) \<Rightarrow>
     attempts \<le> 30 \<and> (ready \<longleftrightarrow> (\<exists>i. 1 \<le> i \<and> i \<le> 30 \<and> outcome i = None)) \<and>
     (if ready then outcome attempts = None \<and> (\<nexists>i. 1 \<le> i \<and> i < attempts \<and> outcome i = None) else attempts = 30)"
proof -
  obtain j ok where b: "bootstrap 30 outcome 0 = (j, ok)" by fastforce
  from bootstrap_result [OF b] show ?thesis by (auto simp: bootstrap_main_def b Suc_le_eq)
qed

end
