(* ===== verification/Ids.thy ===== *)
theory Ids
  imports Chat_Prelude
begin

text \<open>
  \<open>uuid7\<close> of \<^verbatim>\<open>app/ids.py\<close>: time-ordered identifiers on 128-bit words, and the text of a UUID as
  \<open>str(u)\<close> writes it and \<open>uuid.UUID(s)\<close> reads it, with their round trip.
\<close>

unbundle bit_operations_syntax

type_synonym uuid = "128 word"

section \<open>UUIDv7\<close>

text \<open>
  \<open>uuid7()\<close> reads the clock in milliseconds and 80 random bits; both are arguments. The
  shifts and masks are on Python's unbounded integers.
\<close>

definition uuid7_int :: "int \<Rightarrow> int \<Rightarrow> int" where
  "uuid7_int ts_ms rand =
     (let rand_a = drop_bit 62 rand AND 0xFFF;
          rand_b = rand AND 0x3FFFFFFFFFFFFFFF
      in push_bit 80 (ts_ms AND 0xFFFFFFFFFFFF) OR push_bit 76 0x7 OR push_bit 64 rand_a
           OR push_bit 62 0b10 OR rand_b)"

definition uuid7 :: "int \<Rightarrow> int \<Rightarrow> uuid" where
  "uuid7 ts_ms rand = word_of_int (uuid7_int ts_ms rand)"

text \<open>The \<open>version\<close> and \<open>variant\<close> fields of \<open>uuid.UUID\<close>.\<close>

definition uuid_version :: "uuid \<Rightarrow> nat" where
  "uuid_version u = unat (drop_bit 76 u AND 0xF)"

definition uuid_variant :: "uuid \<Rightarrow> nat" where
  "uuid_variant u = unat (drop_bit 62 u AND 0x3)"

lemma or_push_bit_add:
  "0 \<le> y \<Longrightarrow> y < 2 ^ n \<Longrightarrow> push_bit n (x::int) OR y = x * 2 ^ n + y"
proof -
  assume y: "0 \<le> y" "y < 2 ^ n"
  then have "take_bit n y = y" by (simp add: take_bit_int_eq_self)
  then show ?thesis
    using concat_bit_eq [of n y x] concat_bit_def [of n y x]
    by (simp add: push_bit_eq_mult or.commute add.commute)
qed

lemma and_low_mask: "(x::int) AND (2 ^ n - 1) = x mod 2 ^ n"
  by (simp add: take_bit_eq_mod [symmetric] take_bit_eq_mask mask_eq_exp_minus_1)

lemma uuid7_int_arith:
  "uuid7_int ts r = (ts mod 2 ^ 48) * 2 ^ 80 +
     (7 * 2 ^ 76 + ((r div 2 ^ 62 mod 2 ^ 12) * 2 ^ 64 + (2 * 2 ^ 62 + r mod 2 ^ 62)))"
proof -
  let ?t = "ts mod 2 ^ 48" and ?a = "r div 2 ^ 62 mod 2 ^ 12" and ?b = "r mod 2 ^ 62"
  have t: "ts AND 0xFFFFFFFFFFFF = ?t" and b: "r AND 0x3FFFFFFFFFFFFFFF = ?b"
    and a: "drop_bit 62 r AND 0xFFF = ?a"
    using and_low_mask [of ts 48] and_low_mask [of r 62] and_low_mask [of "drop_bit 62 r" 12]
    by (simp_all add: drop_bit_eq_div)
  have 1: "push_bit 62 2 OR ?b = 2 * 2 ^ 62 + ?b"
    by (rule or_push_bit_add) auto
  have b62: "0 \<le> ?b" "?b < 2 ^ 62" by auto
  have a12: "0 \<le> ?a" "?a < 2 ^ 12" by auto
  have 2: "push_bit 64 ?a OR (2 * 2 ^ 62 + ?b) = ?a * 2 ^ 64 + (2 * 2 ^ 62 + ?b)"
    using b62 by (intro or_push_bit_add) (auto simp: algebra_simps)
  have 3: "push_bit 76 7 OR (?a * 2 ^ 64 + (2 * 2 ^ 62 + ?b)) =
      7 * 2 ^ 76 + (?a * 2 ^ 64 + (2 * 2 ^ 62 + ?b))"
    using a12 b62 by (intro or_push_bit_add) auto
  have 4: "push_bit 80 ?t OR (7 * 2 ^ 76 + (?a * 2 ^ 64 + (2 * 2 ^ 62 + ?b))) =
      ?t * 2 ^ 80 + (7 * 2 ^ 76 + (?a * 2 ^ 64 + (2 * 2 ^ 62 + ?b)))"
    using a12 b62 by (intro or_push_bit_add) auto
  show ?thesis
    unfolding uuid7_int_def Let_def t a b by (simp only: or.assoc 1 2 3 4)
qed

lemma uuid7_int_bounds: "0 \<le> uuid7_int ts r" "uuid7_int ts r < 2 ^ 128"
proof -
  have "0 \<le> ts mod 2 ^ 48" "ts mod 2 ^ 48 < (2::int) ^ 48"
    "0 \<le> r div 2 ^ 62 mod 2 ^ 12" "r div 2 ^ 62 mod 2 ^ 12 < (2::int) ^ 12"
    "0 \<le> r mod 2 ^ 62" "r mod 2 ^ 62 < (2::int) ^ 62" by auto
  then show "0 \<le> uuid7_int ts r" "uuid7_int ts r < 2 ^ 128"
    unfolding uuid7_int_arith by auto
qed

lemma uint_uuid7: "uint (uuid7 ts r) = uuid7_int ts r"
  using uuid7_int_bounds [of ts r] by (simp add: uuid7_def uint_word_of_int)

text \<open>Ids of a later millisecond compare greater, whatever the random bits.\<close>

lemma uuid7_less:
  assumes "0 \<le> t1" "t1 < t2" "t2 < 2 ^ 48"
  shows "uuid7 t1 r1 < uuid7 t2 r2"
proof -
  define low where "low r = 7 * 2 ^ 76 + ((r div 2 ^ 62 mod 2 ^ 12) * 2 ^ 64 + (2 * 2 ^ 62 + r mod 2 ^ 62))"
    for r :: int
  have "0 \<le> 7 * 2 ^ 76 + (a * 2 ^ 64 + (2 * 2 ^ 62 + b)) \<and> 7 * 2 ^ 76 + (a * 2 ^ 64 + (2 * 2 ^ 62 + b)) < 2 ^ 80"
    if "0 \<le> a" "a < 2 ^ 12" "0 \<le> b" "b < 2 ^ 62" for a b :: int
    using that by simp
  then have low: "0 \<le> low r" "low r < 2 ^ 80" for r
    by (simp_all add: low_def)
  have e: "uuid7_int t r = t * 2 ^ 80 + low r" if "0 \<le> t" "t < 2 ^ 48" for t r
    using that by (simp add: uuid7_int_arith low_def)
  have "(t1 + 1) * 2 ^ 80 \<le> t2 * 2 ^ 80" using assms by (intro mult_right_mono) auto
  then have "uuid7_int t1 r1 < uuid7_int t2 r2"
    using assms low [of r1] low [of r2] by (simp add: e algebra_simps)
  then show ?thesis by (simp add: word_less_def uint_uuid7)
qed

lemma uuid7_int_low:
  "\<exists>x. 0 \<le> x \<and> x < 2 ^ 64 \<and> uuid7_int ts r =
     x + ((ts mod 2 ^ 48) * 2 ^ 16 + 7 * 2 ^ 12 + r div 2 ^ 62 mod 2 ^ 12) * 2 ^ 64 \<and> x div 2 ^ 62 = 2"
proof -
  let ?x = "r mod 2 ^ 62 + 2 * 2 ^ 62"
  have "?x div 2 ^ 62 = 2"
    using div_mult_self1 [of "2 ^ 62::int" "r mod 2 ^ 62" 2] by simp
  moreover have "0 \<le> ?x" "?x < 2 ^ 64" by (auto simp: add_strict_increasing)
  ultimately show ?thesis
    by (intro exI [of _ ?x]) (simp add: uuid7_int_arith)
qed

lemma uint_drop_bit: "uint (drop_bit n (u :: uuid)) = uint u div 2 ^ n"
  using uint_lt2p [of u]
  by (subst unsigned_drop_bit_eq) (simp add: drop_bit_eq_div take_bit_int_eq_self)

lemma uuid7_version: "uuid_version (uuid7 ts r) = 7"
proof -
  let ?a = "r div 2 ^ 62 mod 2 ^ 12"
  obtain x where x: "0 \<le> x" "x < 2 ^ 64" and
    e: "uuid7_int ts r = x + ((ts mod 2 ^ 48) * 2 ^ 16 + 7 * 2 ^ 12 + ?a) * 2 ^ 64"
    using uuid7_int_low by blast
  have "uuid7_int ts r div 2 ^ 64 = (ts mod 2 ^ 48) * 2 ^ 16 + 7 * 2 ^ 12 + ?a"
    unfolding e using x by (subst div_mult_self1) auto
  moreover have "((ts mod 2 ^ 48) * 2 ^ 16 + 7 * 2 ^ 12 + ?a) div 2 ^ 12 = (ts mod 2 ^ 48) * 16 + 7"
  proof -
    have "(ts mod 2 ^ 48) * 2 ^ 16 + 7 * 2 ^ 12 + ?a = ?a + ((ts mod 2 ^ 48) * 16 + 7) * 2 ^ 12"
      by simp
    then show ?thesis by (simp only: div_mult_self1 mod_div_trivial) simp
  qed
  moreover have "uuid7_int ts r div 2 ^ 76 = uuid7_int ts r div 2 ^ 64 div 2 ^ 12"
    by (simp add: zdiv_zmult2_eq [symmetric])
  ultimately have "uuid7_int ts r div 2 ^ 76 mod 16 = 7"
    by simp
  then have "uint (drop_bit 76 (uuid7 ts r)) mod 16 = 7"
    by (simp only: uint_drop_bit uint_uuid7)
  then have "uint (drop_bit 76 (uuid7 ts r) AND 0xF) = 7"
    using and_low_mask [of "uint (drop_bit 76 (uuid7 ts r))" 4] by (simp only: uint_and) simp
  then show ?thesis by (simp add: uuid_version_def unat_eq_nat_uint)
qed

lemma uuid7_variant: "uuid_variant (uuid7 ts r) = 2"
proof -
  let ?h = "(ts mod 2 ^ 48) * 2 ^ 16 + 7 * 2 ^ 12 + r div 2 ^ 62 mod 2 ^ 12"
  obtain x where e: "uuid7_int ts r = x + ?h * 2 ^ 64" and x: "x div 2 ^ 62 = 2"
    using uuid7_int_low by blast
  have "uuid7_int ts r = x + (?h * 4) * 2 ^ 62" by (simp add: e)
  then have "uuid7_int ts r div 2 ^ 62 = ?h * 4 + 2"
    using x div_mult_self1 [of "2 ^ 62::int" x "?h * 4"] by simp
  moreover have "(h * 4 + 2) mod 4 = 2" for h :: int by presburger
  ultimately have "uuid7_int ts r div 2 ^ 62 mod 4 = 2" by (simp only:)
  then have "uint (drop_bit 62 (uuid7 ts r)) mod 4 = 2"
    by (simp only: uint_drop_bit uint_uuid7)
  then have "uint (drop_bit 62 (uuid7 ts r) AND 0x3) = 2"
    using and_low_mask [of "uint (drop_bit 62 (uuid7 ts r))" 2] by (simp only: uint_and) simp
  then show ?thesis by (simp add: uuid_variant_def unat_eq_nat_uint)
qed

section \<open>UUID text\<close>

text \<open>
  \<open>str(uuid)\<close>: 32 lower-case hexadecimal digits, hyphens after 8, 12, 16 and 20. \<open>uuid.UUID(text)\<close>
  drops \<open>urn:\<close>, then \<open>uuid:\<close>, braces at the ends and every hyphen, wants 32 characters and
  reads them with \<open>int(_, 16)\<close>, which itself allows surrounding space, a sign, a \<open>0x\<close> prefix
  and single underscores between digits. ASCII digits only.
\<close>

definition uuid_hex :: "uuid \<Rightarrow> pystr" where
  "uuid_hex u = map hex_char (fixed_digits 16 32 (unat u))"

definition uuid_str :: "uuid \<Rightarrow> pystr" where
  "uuid_str u =
     (let h = uuid_hex u
      in take 8 h @ [45] @ take 4 (drop 8 h) @ [45] @ take 4 (drop 12 h) @ [45] @
         take 4 (drop 16 h) @ [45] @ drop 20 h)"

fun underscored_digits :: "bool \<Rightarrow> pystr \<Rightarrow> nat list option" where
  "underscored_digits prev [] = (if prev then Some [] else None)"
| "underscored_digits prev (c # cs) =
     (if c = 95 then (if prev then underscored_digits False cs else None)
      else case hex_val c of None \<Rightarrow> None
           | Some d \<Rightarrow> map_option (Cons d) (underscored_digits True cs))"

definition py_int16 :: "pystr \<Rightarrow> int option" where
  "py_int16 s =
     (let t = py_strip s;
          neg = (t \<noteq> [] \<and> hd t = 45);
          t = (if t \<noteq> [] \<and> (hd t = 43 \<or> hd t = 45) then tl t else t);
          hasp = (prefix (lit ''0x'') t \<or> prefix (lit ''0X'') t);
          body = (if hasp then drop 2 t else t)
      in if body = [] then None
         else map_option (\<lambda>ds. (if neg then - 1 else 1) * int (digits_val 16 ds))
                (underscored_digits hasp body))"

definition uuid_parse :: "pystr \<Rightarrow> uuid option" where
  "uuid_parse text =
     (let h = replace_all (lit ''uuid:'') (replace_all (lit ''urn:'') text);
          h = filter (\<lambda>c. c \<noteq> 45) (strip_where (\<lambda>c. c = 123 \<or> c = 125) h)
      in if length h \<noteq> 32 then None
         else case py_int16 h of None \<Rightarrow> None
              | Some i \<Rightarrow> if 0 \<le> i \<and> i < 2 ^ 128 then Some (word_of_int i) else None)"

lemma hex_char_range: "d < 16 \<Longrightarrow> (48 \<le> hex_char d \<and> hex_char d \<le> 57) \<or> (97 \<le> hex_char d \<and> hex_char d \<le> 102)"
  by (auto simp: hex_char_def)

lemma uuid_hex_range: "c \<in> set (uuid_hex u) \<Longrightarrow> (48 \<le> c \<and> c \<le> 57) \<or> (97 \<le> c \<and> c \<le> 102)"
  using hex_char_range by (auto simp: uuid_hex_def dest!: fixed_digits_less [rotated])

lemma length_uuid_hex [simp]: "length (uuid_hex u) = 32"
  by (simp add: uuid_hex_def)

lemma uuid_str_range: "c \<in> set (uuid_str u) \<Longrightarrow> c = 45 \<or> (48 \<le> c \<and> c \<le> 57) \<or> (97 \<le> c \<and> c \<le> 102)"
  using uuid_hex_range
  by (auto simp: uuid_str_def Let_def dest!: in_set_takeD in_set_dropD)

lemma uuid_str_nonempty [simp]: "uuid_str u \<noteq> []"
  by (simp add: uuid_str_def Let_def)

lemma filter_uuid_str: "filter (\<lambda>c. c \<noteq> 45) (uuid_str u) = uuid_hex u"
proof -
  let ?h = "uuid_hex u"
  have n: "filter (\<lambda>c. c \<noteq> 45) xs = xs" if "set xs \<subseteq> set ?h" for xs
    using that uuid_hex_range [of _ u] by (force simp: filter_id_conv)
  have l: "take n (drop m ?h) @ drop (m + n) ?h = drop m ?h" for n m
    by (metis add.commute append_take_drop_id drop_drop)
  have "take 8 ?h @ take 4 (drop 8 ?h) @ take 4 (drop 12 ?h) @ take 4 (drop 16 ?h) @ drop 20 ?h = ?h"
    using l [of 4 8] l [of 4 12] l [of 4 16] l [of 8 0] by simp
  moreover have "set (take i (drop j ?h)) \<subseteq> set ?h" for i j
    by (auto dest!: in_set_takeD in_set_dropD)
  moreover have "set (take i ?h) \<subseteq> set ?h" "set (drop i ?h) \<subseteq> set ?h" for i
    by (auto dest!: in_set_takeD in_set_dropD)
  ultimately show ?thesis by (simp add: uuid_str_def Let_def n)
qed

lemma underscored_digits_hex:
  "\<forall>d \<in> set ds. d < 16 \<Longrightarrow> underscored_digits prev (map hex_char ds) =
     (if ds = [] \<and> \<not> prev then None else Some ds)"
  by (induction ds arbitrary: prev) (auto simp: hex_char_def hex_val_def)

lemma py_int16_hex: "py_int16 (uuid_hex u) = Some (int (unat u))"
proof -
  let ?h = "uuid_hex u" and ?ds = "fixed_digits 16 32 (unat u)"
  have ne: "?h \<noteq> []" using length_uuid_hex [of u] by (metis list.size(3) zero_neq_numeral)
  have "\<not> py_space c" if "c \<in> set ?h" for c
    using uuid_hex_range [OF that] by (auto simp: py_space_def)
  with ne have strip: "py_strip ?h = ?h"
    unfolding py_strip_def by (intro strip_where_id) auto
  have hd: "hd ?h \<noteq> 43" "hd ?h \<noteq> 45"
    using uuid_hex_range [of "hd ?h" u] ne by auto
  have x: "\<not> prefix (lit ''0x'') ?h" "\<not> prefix (lit ''0X'') ?h"
    using uuid_hex_range [of 120 u] uuid_hex_range [of 88 u]
    by (auto simp: lit_Cons dest!: set_mono_prefix)
  have lt: "\<forall>d \<in> set ?ds. d < 16" using fixed_digits_less [of 16] by auto
  have nd: "?ds \<noteq> []" using ne by (simp add: uuid_hex_def)
  have "underscored_digits False ?h = Some ?ds"
    using lt nd by (simp add: uuid_hex_def underscored_digits_hex)
  moreover have "unat u < 16 ^ 32" using unsigned_less [of u] by simp
  ultimately show ?thesis
    using ne hd x by (simp add: py_int16_def Let_def strip digits_val_fixed)
qed

lemma uuid_parse_str [simp]: "uuid_parse (uuid_str u) = Some u"
proof -
  let ?s = "uuid_str u"
  have r: "replace_all (lit ''urn:'') ?s = ?s" "replace_all (lit ''uuid:'') ?s = ?s"
    using uuid_str_range [of 58 u] by (auto simp: lit_Cons intro!: replace_all_id)
  have "\<not> (c = 123 \<or> c = 125)" if "c \<in> set ?s" for c
    using uuid_str_range [OF that] by auto
  then have s: "strip_where (\<lambda>c. c = 123 \<or> c = 125) ?s = ?s"
    by (intro strip_where_id) auto
  have "int (unat u) < 2 ^ 128" using unsigned_less [of u] by simp
  then show ?thesis
    by (simp add: uuid_parse_def Let_def r s filter_uuid_str py_int16_hex)
qed

end
