(* ===== verification/Codecs.thy ===== *)
theory Codecs
  imports Chat_Prelude
begin

text \<open>
  The standard-library codecs the application calls: UTF-8, urlsafe base64 as
  \<open>base64.urlsafe_b64encode\<close> and the lenient \<open>base64.urlsafe_b64decode\<close> work, and
  \<open>datetime.isoformat\<close> / \<open>datetime.fromisoformat\<close> with the order of aware datetimes.
\<close>

section \<open>UTF-8\<close>

definition utf8_char :: "codepoint \<Rightarrow> bytes" where
  "utf8_char c =
     (if c < 128 then [c]
      else if c < 2048 then [192 + c div 64, 128 + c mod 64]
      else if c < 65536 then [224 + c div 4096, 128 + c div 64 mod 64, 128 + c mod 64]
      else [240 + c div 262144, 128 + c div 4096 mod 64, 128 + c div 64 mod 64, 128 + c mod 64])"

definition utf8_encode :: "pystr \<Rightarrow> bytes" where
  "utf8_encode s = concat (map utf8_char s)"

definition cont_byte :: "nat \<Rightarrow> bool" where
  "cont_byte b \<longleftrightarrow> 128 \<le> b \<and> b < 192"

text \<open>
  Strict decoding (\<open>bytes.decode()\<close>): overlong forms, surrogates, values past U+10FFFF and
  truncated sequences raise \<open>UnicodeDecodeError\<close> (\<open>None\<close>).
\<close>

fun utf8_decode :: "bytes \<Rightarrow> pystr option" where
  "utf8_decode [] = Some []"
| "utf8_decode (a # bs) =
     (if a < 128 then map_option (Cons a) (utf8_decode bs)
      else if 194 \<le> a \<and> a < 224 then
        (case bs of b # bs' \<Rightarrow>
           if cont_byte b then map_option (Cons ((a - 192) * 64 + (b - 128))) (utf8_decode bs') else None
         | _ \<Rightarrow> None)
      else if 224 \<le> a \<and> a < 240 then
        (case bs of b # c # bs' \<Rightarrow>
           let cp = (a - 224) * 4096 + (b - 128) * 64 + (c - 128)
           in if cont_byte b \<and> cont_byte c \<and> 2048 \<le> cp \<and> \<not> (55296 \<le> cp \<and> cp < 57344)
              then map_option (Cons cp) (utf8_decode bs') else None
         | _ \<Rightarrow> None)
      else if 240 \<le> a \<and> a < 245 then
        (case bs of b # c # d # bs' \<Rightarrow>
           let cp = (a - 240) * 262144 + (b - 128) * 4096 + (c - 128) * 64 + (d - 128)
           in if cont_byte b \<and> cont_byte c \<and> cont_byte d \<and> 65536 \<le> cp \<and> cp < 1114112
              then map_option (Cons cp) (utf8_decode bs') else None
         | _ \<Rightarrow> None)
      else None)"

lemma utf8_encode_ascii: "\<forall>c \<in> set s. c < 128 \<Longrightarrow> utf8_encode s = s"
  by (induction s) (auto simp: utf8_encode_def utf8_char_def)

lemma utf8_decode_ascii: "\<forall>c \<in> set s. c < 128 \<Longrightarrow> utf8_decode s = Some s"
  by (induction s) auto

text \<open>
  \<open>bytes.decode("utf-8", "replace")\<close>: a lead byte with the number of bytes it announces and the range
  of the first of them; where they do not all follow, the lead and those that did are one U+FFFD.
\<close>

definition utf8_lead :: "nat \<Rightarrow> (nat \<times> nat \<times> nat) option" where
  "utf8_lead a =
     (if 194 \<le> a \<and> a < 224 then Some (1, 128, 191)
      else if a = 224 then Some (2, 160, 191)
      else if a = 237 then Some (2, 128, 159)
      else if 225 \<le> a \<and> a < 240 then Some (2, 128, 191)
      else if a = 240 then Some (3, 144, 191)
      else if 241 \<le> a \<and> a < 244 then Some (3, 128, 191)
      else if a = 244 then Some (3, 128, 143)
      else None)"

definition utf8_follow :: "nat \<Rightarrow> nat \<Rightarrow> nat \<Rightarrow> bytes \<Rightarrow> bytes" where
  "utf8_follow n lo hi bs =
     (case bs of [] \<Rightarrow> [] | b # bs' \<Rightarrow>
        if lo \<le> b \<and> b \<le> hi then b # takeWhile cont_byte (take (n - 1) bs') else [])"

lemma length_utf8_follow: "length (utf8_follow n lo hi bs) \<le> length bs"
  by (auto simp: utf8_follow_def split: list.splits intro: order_trans [OF length_takeWhile_le])

function utf8_replace :: "bytes \<Rightarrow> pystr" where
  "utf8_replace [] = []"
| "utf8_replace (a # bs) =
     (if a < 128 then a # utf8_replace bs
      else case utf8_lead a of
        None \<Rightarrow> 65533 # utf8_replace bs
      | Some (n, lo, hi) \<Rightarrow>
          let f = utf8_follow n lo hi bs
          in (if length f = n then case utf8_decode (a # f) of Some [c] \<Rightarrow> c | _ \<Rightarrow> 65533 else 65533) #
             utf8_replace (drop (length f) bs))"
  by pat_completeness auto
termination
  by (relation "measure length") (auto simp: less_Suc_eq_le)

declare utf8_replace.simps(2) [simp del]

lemma utf8_replace_char:
  assumes "128 \<le> a" "utf8_lead a = Some (n, lo, hi)" "length (utf8_follow n lo hi bs) = n"
    "utf8_decode (a # utf8_follow n lo hi bs) = Some [c]"
  shows "utf8_replace (a # bs) = c # utf8_replace (drop n bs)"
  using assms by (simp add: utf8_replace.simps(2) Let_def)

text \<open>On valid UTF-8 the lenient decoder is the strict one.\<close>

lemma utf8_replace_valid: "utf8_decode bs = Some s \<Longrightarrow> utf8_replace bs = s"
proof (induction bs arbitrary: s rule: utf8_decode.induct)
  case (2 a bs)
  consider "a < 128" | "194 \<le> a" "a < 224" | "224 \<le> a" "a < 240" | "240 \<le> a" "a < 245"
    using 2(5) by (auto split: if_splits)
  then show ?case
  proof cases
    case 1
    with 2 show ?thesis by (auto simp: utf8_replace.simps(2))
  next
    case two: 2
    with 2(5) obtain b bs' t where bs: "bs = b # bs'" "cont_byte b" "utf8_decode bs' = Some t"
      "s = ((a - 192) * 64 + (b - 128)) # t" by (auto split: list.splits if_splits)
    then have "utf8_replace bs' = t" using 2(2) two by auto
    moreover have "utf8_replace (a # bs) = ((a - 192) * 64 + (b - 128)) # utf8_replace (drop 1 bs)"
      by (rule utf8_replace_char [of a 1 128 191]) (use two bs in \<open>auto simp: utf8_lead_def utf8_follow_def cont_byte_def\<close>)
    ultimately show ?thesis using bs by simp
  next
    case three: 3
    let ?cp = "\<lambda>b c. (a - 224) * 4096 + (b - 128) * 64 + (c - 128)"
    from three 2(5) obtain b c bs' t where bs: "bs = b # c # bs'" "cont_byte b" "cont_byte c" "utf8_decode bs' = Some t"
      "s = ?cp b c # t" "2048 \<le> ?cp b c" "\<not> (55296 \<le> ?cp b c \<and> ?cp b c < 57344)"
      by (auto split: list.splits if_splits simp: Let_def)
    then have "utf8_replace bs' = t" using 2(3) three by auto
    moreover obtain lo hi where l: "utf8_lead a = Some (2, lo, hi)" "lo \<le> b \<and> b \<le> hi"
    proof -
      have "a = 224 \<Longrightarrow> 160 \<le> b" "a = 237 \<Longrightarrow> b \<le> 159" using bs by (auto simp: cont_byte_def)
      with bs(2) three show ?thesis
        by (intro that [of "if a = 224 then 160 else 128" "if a = 237 then 159 else 191"]) (auto simp: utf8_lead_def cont_byte_def)
    qed
    moreover have "utf8_replace (a # bs) = ?cp b c # utf8_replace (drop 2 bs)"
      by (rule utf8_replace_char [OF _ l(1)]) (use three bs l in \<open>auto simp: utf8_follow_def Let_def\<close>)
    ultimately show ?thesis using bs by simp
  next
    case four: 4
    let ?cp = "\<lambda>b c d. (a - 240) * 262144 + (b - 128) * 4096 + (c - 128) * 64 + (d - 128)"
    from four 2(5) obtain b c d bs' t where bs: "bs = b # c # d # bs'" "cont_byte b" "cont_byte c" "cont_byte d" "utf8_decode bs' = Some t"
      "s = ?cp b c d # t" "65536 \<le> ?cp b c d" "?cp b c d < 1114112"
      by (auto split: list.splits if_splits simp: Let_def)
    then have "utf8_replace bs' = t" using 2(4) four by auto
    moreover obtain lo hi where l: "utf8_lead a = Some (3, lo, hi)" "lo \<le> b \<and> b \<le> hi"
    proof -
      have "a = 240 \<Longrightarrow> 144 \<le> b" "a = 244 \<Longrightarrow> b \<le> 143" using bs by (auto simp: cont_byte_def)
      with bs(2) four show ?thesis
        by (intro that [of "if a = 240 then 144 else 128" "if a = 244 then 143 else 191"]) (auto simp: utf8_lead_def cont_byte_def)
    qed
    moreover have "utf8_replace (a # bs) = ?cp b c d # utf8_replace (drop 3 bs)"
      by (rule utf8_replace_char [OF _ l(1)]) (use four bs l in \<open>auto simp: utf8_follow_def Let_def\<close>)
    ultimately show ?thesis using bs by simp
  qed
qed simp

section \<open>Urlsafe base64\<close>

definition b64_char :: "nat \<Rightarrow> codepoint" where
  "b64_char v =
     (if v < 26 then 65 + v else if v < 52 then 71 + v else if v < 62 then v - 4
      else if v = 62 then 45 else 95)"

text \<open>The decoder first maps \<open>-_\<close> to \<open>+/\<close>, so it takes both alphabets.\<close>

definition b64_val :: "codepoint \<Rightarrow> nat option" where
  "b64_val c =
     (if 65 \<le> c \<and> c \<le> 90 then Some (c - 65) else if 97 \<le> c \<and> c \<le> 122 then Some (c - 71)
      else if 48 \<le> c \<and> c \<le> 57 then Some (c + 4)
      else if c = 45 \<or> c = 43 then Some 62 else if c = 95 \<or> c = 47 then Some 63 else None)"

fun b64_encode :: "bytes \<Rightarrow> pystr" where
  "b64_encode [] = []"
| "b64_encode [a] = [b64_char (a div 4), b64_char (a mod 4 * 16), 61, 61]"
| "b64_encode [a, b] =
     [b64_char (a div 4), b64_char (a mod 4 * 16 + b div 16), b64_char (b mod 16 * 4), 61]"
| "b64_encode (a # b # c # r) =
     b64_char (a div 4) # b64_char (a mod 4 * 16 + b div 16) #
     b64_char (b mod 16 * 4 + c div 64) # b64_char (c mod 64) # b64_encode r"

text \<open>
  The loop of \<open>binascii.a2b_base64\<close> in its lenient mode: the position in the quad, the bits
  left over, the pads seen. Characters outside the alphabet are skipped; a complete pad ends
  the input; a text that stops inside a quad raises \<open>binascii.Error\<close> (\<open>None\<close>).
\<close>

fun b64_loop :: "nat \<Rightarrow> nat \<Rightarrow> nat \<Rightarrow> pystr \<Rightarrow> bytes option" where
  "b64_loop q l p [] = (if q = 0 then Some [] else None)"
| "b64_loop q l p (c # cs) =
     (if c = 61 then
        (if 2 \<le> q then (if 4 \<le> q + Suc p then Some [] else b64_loop q l (Suc p) cs)
         else b64_loop q l p cs)
      else case b64_val c of
        None \<Rightarrow> b64_loop q l p cs
      | Some v \<Rightarrow>
          if q = 0 then b64_loop 1 v 0 cs
          else if q = 1 then map_option (Cons (l * 4 + v div 16)) (b64_loop 2 (v mod 16) 0 cs)
          else if q = 2 then map_option (Cons (l * 16 + v div 4)) (b64_loop 3 (v mod 4) 0 cs)
          else map_option (Cons (l * 64 + v)) (b64_loop 0 0 0 cs))"

definition b64_decode :: "pystr \<Rightarrow> bytes option" where
  "b64_decode s = (if \<forall>c \<in> set s. c < 128 then b64_loop 0 0 0 s else None)"

lemma b64_val_char [simp]: "v < 64 \<Longrightarrow> b64_val (b64_char v) = Some v"
  by (auto simp: b64_val_def b64_char_def)

lemma b64_char_not_pad [simp]: "v < 64 \<Longrightarrow> b64_char v \<noteq> 61"
  by (auto simp: b64_char_def)

lemma b64_char_ascii: "v < 64 \<Longrightarrow> b64_char v < 128"
  by (auto simp: b64_char_def)

text \<open>Joining and splitting bit fields, as quotient and remainder.\<close>

lemma field_div: "y < k \<Longrightarrow> (x * k + y) div k = (x::nat)"
  by simp

lemma field_mod: "y < k \<Longrightarrow> (x * k + y) mod k = (y::nat)"
  by simp

lemma field_less: "x < m \<Longrightarrow> y < k \<Longrightarrow> x * k + y < m * (k::nat)"
proof -
  assume "x < m" "y < k"
  then have "(x + 1) * k \<le> m * k" by (intro mult_le_mono1) simp
  with \<open>y < k\<close> show ?thesis by (simp add: algebra_simps)
qed

lemma sextet_first: "(a::nat) < 256 \<Longrightarrow> a div 4 < 64" and sextet_last: "(a::nat) mod 64 < 64"
  by simp_all

lemma sextet_second: "(b::nat) < 256 \<Longrightarrow> a mod 4 * 16 + b div 16 < 64"
  using field_less [of "a mod 4" 4 "b div 16" 16] by auto

lemma sextet_third: "(c::nat) < 256 \<Longrightarrow> b mod 16 * 4 + c div 64 < 64"
  using field_less [of "b mod 16" 16 "c div 64" 4] by auto

lemmas sextets = sextet_first sextet_second sextet_third sextet_last

lemma octet_first: "(b::nat) < 256 \<Longrightarrow> a div 4 * 4 + (a mod 4 * 16 + b div 16) div 16 = a"
  using field_div [of "b div 16" 16 "a mod 4"] by simp

lemma octet_second:
  "(b::nat) < 256 \<Longrightarrow> c < 256 \<Longrightarrow>
     (a mod 4 * 16 + b div 16) mod 16 * 16 + (b mod 16 * 4 + c div 64) div 4 = b"
  using field_mod [of "b div 16" 16 "a mod 4"] field_div [of "c div 64" 4 "b mod 16"] by simp

lemma octet_third: "(c::nat) < 256 \<Longrightarrow> (b mod 16 * 4 + c div 64) mod 4 * 64 + c mod 64 = c"
  using field_mod [of "c div 64" 4 "b mod 16"] by simp

lemma b64_quad:
  assumes "v0 < 64" "v1 < 64" "v2 < 64" "v3 < 64"
  shows "b64_loop 0 0 0 (b64_char v0 # b64_char v1 # b64_char v2 # b64_char v3 # r) =
    map_option (\<lambda>xs. (v0 * 4 + v1 div 16) # (v1 mod 16 * 16 + v2 div 4) # (v2 mod 4 * 64 + v3) # xs)
      (b64_loop 0 0 0 r)"
  using assms by (cases "b64_loop 0 0 0 r") simp_all

lemma b64_pad1:
  assumes "v0 < 64" "v1 < 64" "v2 < 64"
  shows "b64_loop 0 0 0 [b64_char v0, b64_char v1, b64_char v2, 61] =
    Some [v0 * 4 + v1 div 16, v1 mod 16 * 16 + v2 div 4]"
  using assms by simp

lemma b64_pad2:
  assumes "v0 < 64" "v1 < 64"
  shows "b64_loop 0 0 0 [b64_char v0, b64_char v1, 61, 61] = Some [v0 * 4 + v1 div 16]"
  using assms by simp

lemma b64_loop_encode:
  "\<forall>x \<in> set bs. x < 256 \<Longrightarrow> b64_loop 0 0 0 (b64_encode bs) = Some bs"
proof (induction bs rule: b64_encode.induct)
  case 1
  then show ?case by simp
next
  case (2 a)
  then have "a < 256" by simp
  then show ?case
    using b64_pad2 [of "a div 4" "a mod 4 * 16"] sextet_first [of a] sextet_second [of 0 a] octet_first [of 0 a]
    by (simp del: b64_loop.simps)
next
  case (3 a b)
  then have "a < 256" "b < 256" by simp_all
  then show ?case
    using b64_pad1 [of "a div 4" "a mod 4 * 16 + b div 16" "b mod 16 * 4"]
      sextet_first [of a] sextet_second [of b a] sextet_third [of 0 b] octet_first [of b a] octet_second [of b 0 a]
    by (simp del: b64_loop.simps)
next
  case (4 a b c r)
  then have "a < 256" "b < 256" "c < 256" and "b64_loop 0 0 0 (b64_encode r) = Some r" by simp_all
  then show ?case
    using b64_quad [of "a div 4" "a mod 4 * 16 + b div 16" "b mod 16 * 4 + c div 64" "c mod 64"]
      octet_first [of b a] octet_second [of b c a] octet_third [of c b]
    by (simp only: b64_encode.simps sextets option.map)
qed

lemma b64_encode_ascii: "\<forall>x \<in> set bs. x < 256 \<Longrightarrow> c \<in> set (b64_encode bs) \<Longrightarrow> c < 128"
  using sextet_second [of 0] sextet_third [of 0]
  by (induction bs rule: b64_encode.induct) (auto simp: sextets b64_char_ascii)

lemma b64_decode_encode: "\<forall>x \<in> set bs. x < 256 \<Longrightarrow> b64_decode (b64_encode bs) = Some bs"
  using b64_encode_ascii by (auto simp: b64_decode_def b64_loop_encode)

text \<open>The encoder's output is unpadded text followed by at most two pads, in whole quads.\<close>

lemma b64_encode_shape:
  "\<forall>x \<in> set bs. x < 256 \<Longrightarrow>
     \<exists>body k. b64_encode bs = body @ replicate k 61 \<and> 61 \<notin> set body \<and> k < 3 \<and>
       (length body + k) mod 4 = 0"
proof (induction bs rule: b64_encode.induct)
  case 1
  show ?case by (intro exI [of _ "[]"] exI [of _ 0]) simp
next
  case (2 a)
  then have "b64_char (a div 4) \<noteq> 61" "b64_char (a mod 4 * 16) \<noteq> 61"
    using sextet_second [of 0 a] by (simp_all add: sextet_first)
  then show ?case
    by (intro exI [of _ "[b64_char (a div 4), b64_char (a mod 4 * 16)]"] exI [of _ 2])
      (simp add: numeral_2_eq_2)
next
  case (3 a b)
  then have "b64_char (a div 4) \<noteq> 61" "b64_char (a mod 4 * 16 + b div 16) \<noteq> 61"
    "b64_char (b mod 16 * 4) \<noteq> 61"
    using sextet_second [of b a] sextet_third [of 0 b] by (simp_all add: sextet_first)
  then show ?case
    by (intro exI [of _ "[b64_char (a div 4), b64_char (a mod 4 * 16 + b div 16), b64_char (b mod 16 * 4)]"]
        exI [of _ 1]) simp
next
  case (4 a b c r)
  then obtain body k where r: "b64_encode r = body @ replicate k 61" "61 \<notin> set body" "k < 3"
    "(length body + k) mod 4 = 0" by auto
  let ?q = "[b64_char (a div 4), b64_char (a mod 4 * 16 + b div 16),
    b64_char (b mod 16 * 4 + c div 64), b64_char (c mod 64)]"
  have "61 \<notin> set ?q" using 4 by (simp add: sextets b64_char_not_pad [THEN not_sym])
  moreover have "(4 + (length body + k)) mod 4 = 0" using r(4) by simp
  ultimately show ?case using r
    by (intro exI [of _ "?q @ body"] exI [of _ k]) (simp add: add.assoc)
qed

section \<open>Datetimes\<close>

text \<open>
  A Python \<open>datetime\<close>: civil fields and, for an aware one, the UTC offset in minutes (the
  offsets the model has are whole minutes; \<open>None\<close> is a naive datetime).
\<close>

record datetime =
  dt_year :: nat
  dt_month :: nat
  dt_day :: nat
  dt_hour :: nat
  dt_minute :: nat
  dt_second :: nat
  dt_micro :: nat
  dt_offset :: "int option"

definition is_leap :: "nat \<Rightarrow> bool" where
  "is_leap y \<longleftrightarrow> y mod 4 = 0 \<and> (y mod 100 \<noteq> 0 \<or> y mod 400 = 0)"

definition days_in_month :: "nat \<Rightarrow> nat \<Rightarrow> nat" where
  "days_in_month y m = (if m = 2 then (if is_leap y then 29 else 28)
     else if m \<in> {4, 6, 9, 11} then 30 else 31)"

definition days_before_month :: "nat \<Rightarrow> nat \<Rightarrow> nat" where
  "days_before_month y m = sum_list (map (days_in_month y) [1..<m])"

definition days_before_year :: "nat \<Rightarrow> nat" where
  "days_before_year y = (let p = y - 1 in p * 365 + p div 4 - p div 100 + p div 400)"

text \<open>The checks of the \<open>datetime\<close> and \<open>timezone\<close> constructors.\<close>

definition valid_dt :: "datetime \<Rightarrow> bool" where
  "valid_dt d \<longleftrightarrow> 1 \<le> dt_year d \<and> dt_year d \<le> 9999 \<and> 1 \<le> dt_month d \<and> dt_month d \<le> 12 \<and>
     1 \<le> dt_day d \<and> dt_day d \<le> days_in_month (dt_year d) (dt_month d) \<and>
     dt_hour d < 24 \<and> dt_minute d < 60 \<and> dt_second d < 60 \<and> dt_micro d < 1000000 \<and>
     (case dt_offset d of None \<Rightarrow> True | Some z \<Rightarrow> \<bar>z\<bar> < 1440)"

text \<open>
  The instant of a datetime in microseconds, on which aware datetimes compare and which
  PostgreSQL's \<open>timestamptz\<close> stores. A naive datetime is taken in the host's zone, UTC here.
\<close>

definition instant :: "datetime \<Rightarrow> int" where
  "instant d =
     (let days = int (days_before_year (dt_year d) + days_before_month (dt_year d) (dt_month d) + dt_day d);
          minutes = (days * 24 + int (dt_hour d)) * 60 + int (dt_minute d)
                      - (case dt_offset d of None \<Rightarrow> 0 | Some z \<Rightarrow> z)
      in (minutes * 60 + int (dt_second d)) * 1000000 + int (dt_micro d))"

definition offset_str :: "int \<Rightarrow> pystr" where
  "offset_str z = (if z < 0 then 45 else 43) #
     dec_fixed 2 (nat \<bar>z\<bar> div 60) @ [58] @ dec_fixed 2 (nat \<bar>z\<bar> mod 60)"

definition isoformat :: "datetime \<Rightarrow> pystr" where
  "isoformat d =
     dec_fixed 4 (dt_year d) @ [45] @ dec_fixed 2 (dt_month d) @ [45] @ dec_fixed 2 (dt_day d) @ [84] @
     dec_fixed 2 (dt_hour d) @ [58] @ dec_fixed 2 (dt_minute d) @ [58] @ dec_fixed 2 (dt_second d) @
     (if dt_micro d = 0 then [] else 46 # dec_fixed 6 (dt_micro d)) @
     (case dt_offset d of None \<Rightarrow> [] | Some z \<Rightarrow> offset_str z)"

text \<open>
  \<open>datetime.fromisoformat\<close> on the extended formats
  \<open>YYYY-MM-DD[*HH:MM[:SS[.fff[fff]]][Z|+HH:MM|-HH:MM]]\<close>, where \<open>*\<close> is any one character. The
  basic formats, week dates and offsets with seconds that Python 3.11 also takes are rejected
  here; \<open>isoformat\<close> never prints them.
\<close>

definition field :: "nat \<Rightarrow> nat \<Rightarrow> pystr \<Rightarrow> nat option" where
  "field i n s = (if i + n \<le> length s then read_dec (take n (drop i s)) else None)"

definition parse_offset :: "pystr \<Rightarrow> int option option" where
  "parse_offset s =
     (if s = [] then Some None
      else if s = [90] then Some (Some 0)
      else if length s = 6 \<and> (hd s = 43 \<or> hd s = 45) \<and> s ! 3 = 58 then
        (case (field 1 2 s, field 4 2 s) of
           (Some h, Some m) \<Rightarrow> Some (Some ((if hd s = 45 then - 1 else 1) * (int h * 60 + int m)))
         | _ \<Rightarrow> None)
      else None)"

definition parse_clock :: "pystr \<Rightarrow> (nat \<times> nat \<times> nat \<times> nat) option" where
  "parse_clock t =
     (let sec_ok = (length t \<ge> 8 \<and> t ! 5 = 58); dot = (length t > 8 \<and> t ! 8 = 46)
      in if length t < 5 \<or> t ! 2 \<noteq> 58 then None
         else case (field 0 2 t, field 3 2 t) of
           (Some h, Some m) \<Rightarrow>
             if length t = 5 then Some (h, m, 0, 0)
             else if \<not> sec_ok then None
             else (case field 6 2 t of None \<Rightarrow> None
                   | Some s \<Rightarrow>
                       if length t = 8 then Some (h, m, s, 0)
                       else if \<not> dot then None
                       else if length t = 12 then map_option (\<lambda>f. (h, m, s, f * 1000)) (field 9 3 t)
                       else if length t = 15 then map_option (\<lambda>f. (h, m, s, f)) (field 9 6 t)
                       else None)
         | _ \<Rightarrow> None)"

definition zone_char :: "codepoint \<Rightarrow> bool" where
  "zone_char c \<longleftrightarrow> c = 43 \<or> c = 45 \<or> c = 90"

definition fromisoformat :: "pystr \<Rightarrow> datetime option" where
  "fromisoformat s =
     (let t = drop 11 s; clock = takeWhile (\<lambda>c. \<not> zone_char c) t; zone = dropWhile (\<lambda>c. \<not> zone_char c) t;
          tz = (if length s = 10 then Some ((0, 0, 0, 0), None)
                else case (parse_clock clock, parse_offset zone) of
                  (Some hms, Some z) \<Rightarrow> Some (hms, z) | _ \<Rightarrow> None)
      in if length s < 10 \<or> s ! 4 \<noteq> 45 \<or> s ! 7 \<noteq> 45 then None
         else case (field 0 4 s, field 5 2 s, field 8 2 s, tz) of
           (Some y, Some mo, Some d, Some ((h, mi, sec, us), z)) \<Rightarrow>
             let dt = \<lparr>dt_year = y, dt_month = mo, dt_day = d, dt_hour = h, dt_minute = mi,
                       dt_second = sec, dt_micro = us, dt_offset = z\<rparr>
             in if valid_dt dt then Some dt else None
         | _ \<Rightarrow> None)"

text \<open>Reading a decimal field back out of a text it was printed into.\<close>

lemma field_dec_fixed:
  "length a = i \<Longrightarrow> 0 < n \<Longrightarrow> v < 10 ^ n \<Longrightarrow> field i n (a @ dec_fixed n v @ b) = Some v"
  by (simp add: field_def read_dec_fixed)

lemma dec_fixed_not_zone: "\<forall>c \<in> set (dec_fixed k n). \<not> zone_char c"
  by (auto simp: zone_char_def dest!: dec_fixed_digit)

lemma days_in_month_le: "days_in_month y m \<le> 31"
  by (simp add: days_in_month_def)

lemma parse_offset_str: "\<bar>z\<bar> < 1440 \<Longrightarrow> parse_offset (offset_str z) = Some (Some z)"
proof -
  assume z: "\<bar>z\<bar> < 1440"
  let ?h = "nat \<bar>z\<bar> div 60" and ?m = "nat \<bar>z\<bar> mod 60" and ?sg = "if z < 0 then 45 else (43::nat)"
  have lt: "?h < 10 ^ 2" "?m < 10 ^ 2" using z by auto
  have s: "offset_str z = [?sg] @ dec_fixed 2 ?h @ (58 # dec_fixed 2 ?m)"
    "offset_str z = (?sg # dec_fixed 2 ?h @ [58]) @ dec_fixed 2 ?m @ []"
    by (simp_all add: offset_str_def)
  have f: "field 1 2 (offset_str z) = Some ?h" "field 4 2 (offset_str z) = Some ?m"
    using lt by (subst s(1), intro field_dec_fixed, simp_all) (subst s(2), intro field_dec_fixed, simp_all)
  have c: "offset_str z \<noteq> []" "offset_str z \<noteq> [90]" "length (offset_str z) = 6"
    "hd (offset_str z) = ?sg" "offset_str z ! 3 = 58"
    by (auto simp: offset_str_def nth_append)
  have "int ?h * 60 + int ?m = \<bar>z\<bar>"
    using mult_div_mod_eq [of 60 "nat \<bar>z\<bar>"] by linarith
  then have "(if hd (offset_str z) = 45 then - 1 else 1) * (int ?h * 60 + int ?m) = z"
    by (simp add: c)
  then show ?thesis unfolding parse_offset_def using c f by simp
qed

lemma parse_clock_str:
  assumes "h < 24" "m < 60" "sec < 60" "us < 1000000"
  shows "parse_clock (dec_fixed 2 h @ [58] @ dec_fixed 2 m @ [58] @ dec_fixed 2 sec @
    (if us = 0 then [] else 46 # dec_fixed 6 us)) = Some (h, m, sec, us)"
proof -
  let ?f = "if us = 0 then [] else 46 # dec_fixed 6 us"
  let ?t = "dec_fixed 2 h @ [58] @ dec_fixed 2 m @ [58] @ dec_fixed 2 sec @ ?f"
  have "field 0 2 ([] @ dec_fixed 2 h @ ([58] @ dec_fixed 2 m @ [58] @ dec_fixed 2 sec @ ?f)) = Some h"
    "field 3 2 ((dec_fixed 2 h @ [58]) @ dec_fixed 2 m @ ([58] @ dec_fixed 2 sec @ ?f)) = Some m"
    "field 6 2 ((dec_fixed 2 h @ [58] @ dec_fixed 2 m @ [58]) @ dec_fixed 2 sec @ ?f) = Some sec"
    using assms by (intro field_dec_fixed; simp)+
  then have f: "field 0 2 ?t = Some h" "field 3 2 ?t = Some m" "field 6 2 ?t = Some sec"
    by simp_all
  have n: "?t ! 2 = 58" "?t ! 5 = 58"
    by (simp_all add: nth_append)
  show ?thesis
  proof (cases "us = 0")
    case True
    with f n show ?thesis by (simp add: parse_clock_def Let_def)
  next
    case False
    have "field 9 6 ((dec_fixed 2 h @ [58] @ dec_fixed 2 m @ [58] @ dec_fixed 2 sec @ [46]) @
        dec_fixed 6 us @ []) = Some us"
      using assms by (intro field_dec_fixed; simp)
    then have g: "field 9 6 ?t = Some us" using False by simp
    have "?t ! 8 = 46" using False by (simp add: nth_append)
    with f n g False show ?thesis by (simp add: parse_clock_def Let_def)
  qed
qed

lemma offset_str_zone: "takeWhile (\<lambda>c. \<not> zone_char c) (offset_str z) = []"
  "dropWhile (\<lambda>c. \<not> zone_char c) (offset_str z) = offset_str z"
  by (simp_all add: offset_str_def zone_char_def)

lemma fromisoformat_isoformat:
  assumes "valid_dt d"
  shows "fromisoformat (isoformat d) = Some d"
proof -
  obtain y mo dd h mi sec us z where d: "d = \<lparr>dt_year = y, dt_month = mo, dt_day = dd, dt_hour = h,
      dt_minute = mi, dt_second = sec, dt_micro = us, dt_offset = z\<rparr>" by (cases d)
  have b: "y \<le> 9999" "mo \<le> 12" "dd \<le> 31" "h < 24" "mi < 60" "sec < 60" "us < 1000000"
    "\<And>v. z = Some v \<Longrightarrow> \<bar>v\<bar> < 1440"
    using assms days_in_month_le [of y mo] by (auto simp: d valid_dt_def)
  let ?c = "dec_fixed 2 h @ [58] @ dec_fixed 2 mi @ [58] @ dec_fixed 2 sec @
    (if us = 0 then [] else 46 # dec_fixed 6 us)"
  let ?z = "case z of None \<Rightarrow> [] | Some v \<Rightarrow> offset_str v"
  let ?s = "dec_fixed 4 y @ [45] @ dec_fixed 2 mo @ [45] @ dec_fixed 2 dd @ [84] @ ?c @ ?z"
  have s: "isoformat d = ?s" by (simp add: isoformat_def d)
  have "field 0 4 ([] @ dec_fixed 4 y @ ([45] @ dec_fixed 2 mo @ [45] @ dec_fixed 2 dd @ [84] @ ?c @ ?z)) = Some y"
    "field 5 2 ((dec_fixed 4 y @ [45]) @ dec_fixed 2 mo @ ([45] @ dec_fixed 2 dd @ [84] @ ?c @ ?z)) = Some mo"
    "field 8 2 ((dec_fixed 4 y @ [45] @ dec_fixed 2 mo @ [45]) @ dec_fixed 2 dd @ ([84] @ ?c @ ?z)) = Some dd"
    using b by (intro field_dec_fixed; simp)+
  then have f: "field 0 4 ?s = Some y" "field 5 2 ?s = Some mo" "field 8 2 ?s = Some dd" by simp_all
  have n: "?s ! 4 = 45" "?s ! 7 = 45" "drop 11 ?s = ?c @ ?z" "length ?s \<noteq> 10" "\<not> length ?s < 10"
    by (simp_all add: nth_append)
  have "\<forall>c \<in> set ?c. \<not> zone_char c"
    using dec_fixed_not_zone by (auto simp: zone_char_def)
  then have zc: "takeWhile (\<lambda>c. \<not> zone_char c) (?c @ ?z) = ?c" "dropWhile (\<lambda>c. \<not> zone_char c) (?c @ ?z) = ?z"
    by (simp_all add: takeWhile_append2 dropWhile_append2 offset_str_zone split: option.split)
  have "parse_offset ?z = Some z"
    using b(8) by (cases z) (simp_all add: parse_offset_str, simp add: parse_offset_def)
  with f n show ?thesis
    using assms unfolding s fromisoformat_def Let_def n(3) zc parse_clock_str [OF b(4-7)]
    by (simp add: d)
qed

text \<open>Every character \<open>isoformat\<close> prints is ASCII, and none is a vertical bar.\<close>

lemma isoformat_chars: "c \<in> set (isoformat d) \<Longrightarrow> c < 128 \<and> c \<noteq> 124"
  by (auto simp: isoformat_def offset_str_def split: if_splits option.splits dest!: dec_fixed_digit)

end
