(* ===== verification/Models.thy ===== *)
theory Models
  imports Ids Codecs Errors
begin

text \<open>
  \<^verbatim>\<open>app/models.py\<close> and the schema of \<^verbatim>\<open>alembic/versions/0001_initial.py\<close>: the three tables as
  lists of records, with the column limits, check constraints and unique constraints the
  database enforces on inserts, and the insert / update / select forms the services use.
\<close>

section \<open>Rows\<close>

datatype message_status = sent | delivered | read

text \<open>The receipt order: sent, then delivered, then read.\<close>

fun status_rank :: "message_status \<Rightarrow> nat" where
  "status_rank sent = 0"
| "status_rank delivered = 1"
| "status_rank read = 2"

lemma status_rank_inject: "status_rank a = status_rank b \<Longrightarrow> a = b"
  by (cases a; cases b) auto

instantiation message_status :: linorder
begin

definition less_eq_message_status :: "message_status \<Rightarrow> message_status \<Rightarrow> bool" where
  "less_eq_message_status a b \<longleftrightarrow> status_rank a \<le> status_rank b"

definition less_message_status :: "message_status \<Rightarrow> message_status \<Rightarrow> bool" where
  "less_message_status a b \<longleftrightarrow> status_rank a < status_rank b"

instance
  by standard
    (auto simp: less_eq_message_status_def less_message_status_def intro: status_rank_inject)

end

text \<open>The text of the enum's values (\<open>StrEnum\<close>).\<close>

fun status_text :: "message_status \<Rightarrow> pystr" where
  "status_text sent = lit ''sent''"
| "status_text delivered = lit ''delivered''"
| "status_text read = lit ''read''"

record conversation =
  conv_id :: uuid
  user_a :: pystr
  user_b :: pystr
  conv_created_at :: datetime

definition peer_of :: "conversation \<Rightarrow> pystr \<Rightarrow> pystr" where
  "peer_of c user_id = (if user_id = user_a c then user_b c else user_a c)"

record message =
  msg_id :: uuid
  conversation_id :: uuid
  sender_id :: pystr
  recipient_id :: pystr
  client_msg_id :: pystr
  body :: "pystr option"
  attachment_key :: "pystr option"
  attachment_mime :: "pystr option"
  status :: message_status
  created_at :: datetime
  delivered_at :: "datetime option"
  read_at :: "datetime option"

record outbox_row =
  ob_id :: nat
  topic :: pystr
  payload :: json
  ob_created_at :: datetime
  published_at :: "datetime option"

text \<open>The database: three tables and the identity sequence of the outbox.\<close>

record db =
  conversations :: "conversation list"
  messages :: "message list"
  outbox :: "outbox_row list"
  outbox_seq :: nat

definition empty_db :: db where
  "empty_db = \<lparr>conversations = [], messages = [], outbox = [], outbox_seq = 1\<rparr>"

section \<open>Constraints\<close>

definition USER_ID_LENGTH :: nat where
  "USER_ID_LENGTH = 64"

text \<open>A text value PostgreSQL stores in \<open>varchar(n)\<close> (or \<open>text\<close>): no NUL, at most \<open>n\<close> characters.\<close>

definition pg_text :: "pystr \<Rightarrow> bool" where
  "pg_text s \<longleftrightarrow> 0 \<notin> set s"

definition varchar :: "nat \<Rightarrow> pystr \<Rightarrow> bool" where
  "varchar n s \<longleftrightarrow> pg_text s \<and> length s \<le> n"

text \<open>
  \<open>ck_conversations_sorted_pair\<close> compares with the collation of the database, a parameter of
  the model: \<open>collate a b\<close> is the result of \<open>a < b\<close> in SQL.
\<close>

definition conversation_check :: "(pystr \<Rightarrow> pystr \<Rightarrow> bool) \<Rightarrow> conversation \<Rightarrow> bool" where
  "conversation_check collate c \<longleftrightarrow>
     varchar USER_ID_LENGTH (user_a c) \<and> varchar USER_ID_LENGTH (user_b c) \<and> collate (user_a c) (user_b c)"

definition opt_all :: "('a \<Rightarrow> bool) \<Rightarrow> 'a option \<Rightarrow> bool" where
  "opt_all p x = (case x of None \<Rightarrow> True | Some v \<Rightarrow> p v)"

definition message_check :: "conversation list \<Rightarrow> message \<Rightarrow> bool" where
  "message_check convs m \<longleftrightarrow>
     varchar USER_ID_LENGTH (sender_id m) \<and> varchar USER_ID_LENGTH (recipient_id m) \<and>
     varchar 64 (client_msg_id m) \<and> opt_all pg_text (body m) \<and> opt_all (varchar 512) (attachment_key m) \<and>
     opt_all (varchar 100) (attachment_mime m) \<and> (body m \<noteq> None \<or> attachment_key m \<noteq> None) \<and>
     conversation_id m \<in> conv_id ` set convs"

text \<open>The columns of the two unique constraints.\<close>

definition pair_key :: "conversation \<Rightarrow> pystr \<times> pystr" where
  "pair_key c = (user_a c, user_b c)"

definition client_key :: "message \<Rightarrow> pystr \<times> pystr" where
  "client_key m = (sender_id m, client_msg_id m)"

section \<open>Statements\<close>

text \<open>
  \<open>INSERT .. ON CONFLICT ON CONSTRAINT .. DO NOTHING\<close>: a failed check raises; a row with the same
  unique key leaves the table as it is; a clash of the primary key raises; else the row is added.
  The flag says whether it was.
\<close>

definition pg_insert ::
  "('r \<Rightarrow> bool) \<Rightarrow> ('r \<Rightarrow> 'k) \<Rightarrow> ('r \<Rightarrow> 'i) \<Rightarrow> 'r \<Rightarrow> 'r list \<Rightarrow> exn + bool \<times> 'r list"
where
  "pg_insert chk key pk r tab =
     (if \<not> chk r then Inl DBAPIError
      else if key r \<in> key ` set tab then Inr (False, tab)
      else if pk r \<in> pk ` set tab then Inl DBAPIError
      else Inr (True, tab @ [r]))"

text \<open>\<open>UPDATE .. SET .. WHERE .. RETURNING\<close>: the new table and the updated rows.\<close>

definition pg_update :: "('r \<Rightarrow> bool) \<Rightarrow> ('r \<Rightarrow> 'r) \<Rightarrow> 'r list \<Rightarrow> 'r list \<times> 'r list" where
  "pg_update p f tab = (map (\<lambda>r. if p r then f r else r) tab, map f (filter p tab))"

text \<open>\<open>one_or_none()\<close> and \<open>one()\<close> of a result.\<close>

definition one_or_none :: "'r list \<Rightarrow> exn + 'r option" where
  "one_or_none rows = (case rows of [] \<Rightarrow> Inr None | [r] \<Rightarrow> Inr (Some r) | _ \<Rightarrow> Inl NoResultFound)"

definition exactly_one :: "'r list \<Rightarrow> exn + 'r" where
  "exactly_one rows = (case rows of [r] \<Rightarrow> Inr r | _ \<Rightarrow> Inl NoResultFound)"

section \<open>The contract of a table with a unique key\<close>

text \<open>
  What both tables promise about inserts: distinct keys and ids stay distinct, every row passes
  its check, and afterwards exactly one row has the key of the insert.
\<close>

locale unique_table =
  fixes chk :: "'r \<Rightarrow> bool" and key :: "'r \<Rightarrow> 'k" and pk :: "'r \<Rightarrow> 'i"
    and ins :: "'r \<Rightarrow> 'r list \<Rightarrow> exn + bool \<times> 'r list"
  assumes ins_added: "ins r tab = Inr (True, tab') \<Longrightarrow>
      chk r \<and> tab' = tab @ [r] \<and> key r \<notin> key ` set tab \<and> pk r \<notin> pk ` set tab"
    and ins_kept: "ins r tab = Inr (False, tab') \<Longrightarrow> tab' = tab \<and> key r \<in> key ` set tab"
    and ins_error: "ins r tab = Inl e \<Longrightarrow> e = DBAPIError"
begin

lemma ins_distinct:
  "ins r tab = Inr (b, tab') \<Longrightarrow> distinct (map key tab) \<and> distinct (map pk tab) \<Longrightarrow>
     distinct (map key tab') \<and> distinct (map pk tab')"
  by (cases b) (auto dest!: ins_added ins_kept)

lemma ins_checked:
  "ins r tab = Inr (b, tab') \<Longrightarrow> \<forall>x \<in> set tab. chk x \<Longrightarrow> \<forall>x \<in> set tab'. chk x"
  by (cases b) (auto dest!: ins_added ins_kept)

lemma ins_present: "ins r tab = Inr (b, tab') \<Longrightarrow> key r \<in> key ` set tab'"
  by (cases b) (auto dest!: ins_added ins_kept)

lemma ins_mono: "ins r tab = Inr (b, tab') \<Longrightarrow> set tab \<subseteq> set tab'"
  by (cases b) (auto dest!: ins_added ins_kept)

text \<open>A select on the key after the insert finds exactly one row.\<close>

lemma ins_select:
  assumes "ins r tab = Inr (b, tab')" "distinct (map key tab)" "distinct (map pk tab)"
  obtains x where "filter (\<lambda>y. key y = key r) tab' = [x]" "key x = key r" "x \<in> set tab'"
proof -
  obtain x where x: "x \<in> set tab'" "key x = key r"
    using ins_present [OF assms(1)] by auto
  have "distinct (map key tab')" using ins_distinct [OF assms(1)] assms(2,3) by simp
  then have "filter (\<lambda>y. key y = key x) tab' = [x]"
    using x(1) by (rule filter_eq_singleton)
  with x show ?thesis using that by simp
qed

end

lemma pg_insert_unique_table: "unique_table chk key pk (pg_insert chk key pk)"
  by unfold_locales (auto simp: pg_insert_def split: if_splits)

interpretation conversations_table:
  unique_table "conversation_check coll" pair_key conv_id "pg_insert (conversation_check coll) pair_key conv_id"
  for coll
  by (rule pg_insert_unique_table)

interpretation messages_table:
  unique_table "message_check convs" client_key msg_id "pg_insert (message_check convs) client_key msg_id"
  for convs
  by (rule pg_insert_unique_table)

lemma pg_insert_mem: "pg_insert chk key pk r tab = Inr (b, tab') \<Longrightarrow> x \<in> set tab' \<Longrightarrow> x \<in> set tab \<or> x = r"
  by (auto simp: pg_insert_def split: if_splits)

lemma fst_pg_update_keys:
  "(\<And>r. k (f r) = k r) \<Longrightarrow> map k (fst (pg_update p f tab)) = map k tab"
  by (auto simp: pg_update_def)

end
