(* ===== verification/Schemas.thy ===== *)
theory Schemas
  imports Models
begin

text \<open>
  \<^verbatim>\<open>app/schemas.py\<close>: the request models with the constraints they declare, the response models,
  and their JSON form (\<open>model_dump(mode="json")\<close>).
\<close>

section \<open>Request validation\<close>

text \<open>
  \<open>UserId\<close>: the pattern \<open>^[A-Za-z0-9_.@:-]{1,64}$\<close>. In a schema it is matched by pydantic,
  where \<open>$\<close> is the end of the text.
\<close>

definition user_id_char :: "codepoint \<Rightarrow> bool" where
  "user_id_char c \<longleftrightarrow> (65 \<le> c \<and> c \<le> 90) \<or> (97 \<le> c \<and> c \<le> 122) \<or> (48 \<le> c \<and> c \<le> 57) \<or>
     c \<in> {95, 46, 64, 58, 45}"

definition user_id_ok :: "pystr \<Rightarrow> bool" where
  "user_id_ok s \<longleftrightarrow> 1 \<le> length s \<and> length s \<le> 64 \<and> (\<forall>c \<in> set s. user_id_char c)"

record send_request =
  req_recipient_id :: pystr
  req_client_msg_id :: pystr
  req_body :: "pystr option"
  req_attachment_key :: "pystr option"

text \<open>\<open>_has_content\<close>, the model validator: the error's text, or the request it returns.\<close>

definition has_content :: "send_request \<Rightarrow> pystr + send_request" where
  "has_content r =
     (case req_body r of
        Some b \<Rightarrow>
          if 0 \<in> set b then Inl (lit ''body must not contain NUL characters'')
          else
            (let r' = (if py_strip b = [] then r\<lparr>req_body := None\<rparr> else r)
             in if req_body r' = None \<and> req_attachment_key r' = None
                then Inl (lit ''either body or attachment_key is required'') else Inr r')
      | None \<Rightarrow>
          if req_attachment_key r = None
          then Inl (lit ''either body or attachment_key is required'') else Inr r)"

text \<open>The field constraints, then the model validator: \<open>None\<close> is a validation error.\<close>

definition validate_send :: "send_request \<Rightarrow> send_request option" where
  "validate_send r =
     (if user_id_ok (req_recipient_id r) \<and>
         1 \<le> length (req_client_msg_id r) \<and> length (req_client_msg_id r) \<le> 64 \<and>
         opt_all (\<lambda>k. 1 \<le> length k \<and> length k \<le> 512) (req_attachment_key r)
      then (case has_content r of Inl _ \<Rightarrow> None | Inr r' \<Rightarrow> Some r') else None)"

record presign_request =
  pre_filename :: pystr
  pre_content_type :: pystr
  pre_size :: int

definition validate_presign :: "presign_request \<Rightarrow> presign_request option" where
  "validate_presign r =
     (if 1 \<le> length (pre_filename r) \<and> length (pre_filename r) \<le> 255 \<and>
         3 \<le> length (pre_content_type r) \<and> length (pre_content_type r) \<le> 100 \<and> 0 < pre_size r
      then Some r else None)"

text \<open>A request that passed validation.\<close>

definition valid_send :: "send_request \<Rightarrow> bool" where
  "valid_send r \<longleftrightarrow> validate_send r = Some r"

lemma py_strip_nil: "py_strip [] = []"
  by (simp add: py_strip_def strip_where_def)

lemma validate_send_content:
  "validate_send r = Some r' \<Longrightarrow>
     (req_body r' \<noteq> None \<or> req_attachment_key r' \<noteq> None) \<and>
     (\<forall>b. req_body r' = Some b \<longrightarrow> pg_text b \<and> py_strip b \<noteq> [])"
  by (auto simp: validate_send_def has_content_def Let_def pg_text_def
      split: if_splits option.splits sum.splits)

lemma validate_send_fields:
  "validate_send r = Some r' \<Longrightarrow>
     user_id_ok (req_recipient_id r') \<and> 1 \<le> length (req_client_msg_id r') \<and>
     length (req_client_msg_id r') \<le> 64 \<and> opt_all (\<lambda>k. 1 \<le> length k \<and> length k \<le> 512) (req_attachment_key r')"
  by (auto simp: validate_send_def has_content_def Let_def split: if_splits option.splits sum.splits)

lemma user_id_ok_varchar: "user_id_ok s \<Longrightarrow> varchar USER_ID_LENGTH s"
  by (auto simp: user_id_ok_def varchar_def pg_text_def USER_ID_LENGTH_def user_id_char_def)

text \<open>Validating a validated request changes nothing: \<open>validate_send\<close> normalises.\<close>

lemma has_content_idem: "has_content r = Inr r' \<Longrightarrow> has_content r' = Inr r'"
  by (cases "req_body r") (auto simp: has_content_def Let_def split: if_splits)

lemma has_content_fields:
  "has_content r = Inr r' \<Longrightarrow> req_recipient_id r' = req_recipient_id r \<and>
     req_client_msg_id r' = req_client_msg_id r \<and> req_attachment_key r' = req_attachment_key r"
  by (cases "req_body r") (auto simp: has_content_def Let_def split: if_splits)

lemma validate_send_idem: "validate_send r = Some r' \<Longrightarrow> validate_send r' = Some r'"
  using has_content_fields [of r r'] has_content_idem [of r r']
  by (auto simp: validate_send_def split: if_splits sum.splits)

section \<open>Responses\<close>

record message_out =
  out_id :: uuid
  out_conversation_id :: uuid
  out_sender_id :: pystr
  out_recipient_id :: pystr
  out_client_msg_id :: pystr
  out_body :: "pystr option"
  out_attachment_key :: "pystr option"
  out_attachment_mime :: "pystr option"
  out_attachment_url :: "pystr option"
  out_status :: message_status
  out_created_at :: datetime
  out_delivered_at :: "datetime option"
  out_read_at :: "datetime option"
  out_cursor :: pystr

record conversation_out =
  co_id :: uuid
  co_peer_id :: pystr
  co_created_at :: datetime
  co_last_message :: "message_out option"
  co_unread_count :: int

record message_page =
  page_items :: "message_out list"
  next_cursor :: "pystr option"
  has_more :: bool

record read_result =
  rr_conversation_id :: uuid
  rr_message_ids :: "uuid list"
  rr_read_at :: "datetime option"

record presign_response =
  ps_url :: pystr
  ps_fields :: "(pystr \<times> pystr) list"
  ps_key :: pystr
  ps_expires_in :: int
  ps_max_bytes :: int

record token_out =
  tok_access_token :: pystr
  tok_token_type :: pystr
  tok_user_id :: pystr
  tok_expires_in :: int

text \<open>
  \<open>MessageOut.model_dump(mode="json")\<close>. How pydantic writes a datetime is a parameter
  (\<open>dump_dt\<close>); ids and the status are written as their text.
\<close>

definition message_out_json :: "(datetime \<Rightarrow> pystr) \<Rightarrow> message_out \<Rightarrow> json" where
  "message_out_json dump_dt o' =
     JObj [(lit ''id'', JStr (uuid_str (out_id o'))),
       (lit ''conversation_id'', JStr (uuid_str (out_conversation_id o'))),
       (lit ''sender_id'', JStr (out_sender_id o')),
       (lit ''recipient_id'', JStr (out_recipient_id o')),
       (lit ''client_msg_id'', JStr (out_client_msg_id o')),
       (lit ''body'', jopt JStr (out_body o')),
       (lit ''attachment_key'', jopt JStr (out_attachment_key o')),
       (lit ''attachment_mime'', jopt JStr (out_attachment_mime o')),
       (lit ''attachment_url'', jopt JStr (out_attachment_url o')),
       (lit ''status'', JStr (status_text (out_status o'))),
       (lit ''created_at'', JStr (dump_dt (out_created_at o'))),
       (lit ''delivered_at'', jopt (\<lambda>d. JStr (dump_dt d)) (out_delivered_at o')),
       (lit ''read_at'', jopt (\<lambda>d. JStr (dump_dt d)) (out_read_at o')),
       (lit ''cursor'', JStr (out_cursor o'))]"

end
