(* ===== verification/Json_Limits.thy ===== *)
theory Json_Limits
  imports Errors
begin

text \<open>
  \<open>json.loads\<close> as a call that may raise: beside the \<open>ValueError\<close> of malformed text, the limits CPython
  sets on the scanner. A text nested deeper than the C stack allows raises \<open>RecursionError\<close>, a
  \<open>RuntimeError\<close> and no \<open>ValueError\<close>; an integer of more than 4300 digits raises \<open>ValueError\<close>.
\<close>

section \<open>The limits\<close>

text \<open>\<open>sys.int_info.default_max_str_digits\<close>; an integer token is a number without fraction and exponent.\<close>

definition MAX_STR_DIGITS :: nat where
  "MAX_STR_DIGITS = 4300"

definition long_int :: "pystr \<Rightarrow> bool" where
  "long_int s \<longleftrightarrow>
     (case parse_num s of
        Some (JInt i, r) \<Rightarrow> MAX_STR_DIGITS < length (fst (int_part (if hd s = 45 then tl s else s)))
      | _ \<Rightarrow> False)"

text \<open>
  How many arrays and objects inside one another the scanner enters: CPython's own bound less the C
  calls in progress. It differs between builds (10000 in most of 3.12, at least 500 in every one) and
  is at least 100 for a coroutine of this program; \<open>spare\<close> is what there is beyond that.
\<close>

definition json_nesting :: "nat \<Rightarrow> nat" where
  "json_nesting spare = 100 + spare"

text \<open>
  The first limit the scan of a text runs into before it ends or finds the text malformed: \<open>d\<close> is the
  number of arrays and objects that can still be entered, \<open>n\<close> the fuel of the parser.
\<close>

fun fault_value :: "nat \<Rightarrow> nat \<Rightarrow> pystr \<Rightarrow> exn option"
  and fault_elems :: "nat \<Rightarrow> nat \<Rightarrow> pystr \<Rightarrow> exn option"
  and fault_members :: "nat \<Rightarrow> nat \<Rightarrow> pystr \<Rightarrow> exn option"
where
  "fault_value d 0 s = None"
| "fault_value d (Suc n) [] = None"
| "fault_value d (Suc n) (c # cs) =
     (if c = 123 then
        (if d = 0 then Some RuntimeError
         else let r = ws cs in if r \<noteq> [] \<and> hd r = 125 then None else fault_members (d - 1) n r)
      else if c = 91 then
        (if d = 0 then Some RuntimeError
         else let r = ws cs in if r \<noteq> [] \<and> hd r = 93 then None else fault_elems (d - 1) n r)
      else if long_int (c # cs) then Some ValueError else None)"
| "fault_elems d 0 s = None"
| "fault_elems d (Suc n) s =
     (case fault_value d n s of Some e \<Rightarrow> Some e
      | None \<Rightarrow>
          (case parse_value n s of None \<Rightarrow> None
           | Some (v, r) \<Rightarrow>
               (case ws r of [] \<Rightarrow> None
                | c # r' \<Rightarrow> if c = 44 then fault_elems d n (ws r') else None)))"
| "fault_members d 0 s = None"
| "fault_members d (Suc n) s =
     (if s = [] \<or> hd s \<noteq> 34 then None
      else case parse_str (tl s) of None \<Rightarrow> None
      | Some (k, r) \<Rightarrow>
          (case ws r of [] \<Rightarrow> None
           | c # r1 \<Rightarrow>
               if c \<noteq> 58 then None
               else case fault_value d n (ws r1) of Some e \<Rightarrow> Some e
               | None \<Rightarrow>
                   (case parse_value n (ws r1) of None \<Rightarrow> None
                    | Some (v, r2) \<Rightarrow>
                        (case ws r2 of [] \<Rightarrow> None
                         | c' # r3 \<Rightarrow> if c' = 44 then fault_members d n (ws r3) else None))))"

text \<open>\<open>json.loads(text)\<close>: an exception or the value.\<close>

definition json_loads :: "nat \<Rightarrow> pystr \<Rightarrow> exn + json" where
  "json_loads spare s =
     (case fault_value (json_nesting spare) (Suc (2 * length s)) (ws s) of
        Some e \<Rightarrow> Inl e
      | None \<Rightarrow> (case loads s of None \<Rightarrow> Inl ValueError | Some j \<Rightarrow> Inr j))"

section \<open>Which texts are within the limits\<close>

lemma fault_value_simps:
  "fault_value d (Suc n) (123 # cs) =
     (if d = 0 then Some RuntimeError else if ws cs \<noteq> [] \<and> hd (ws cs) = 125 then None else fault_members (d - 1) n (ws cs))"
  "fault_value d (Suc n) (91 # cs) =
     (if d = 0 then Some RuntimeError else if ws cs \<noteq> [] \<and> hd (ws cs) = 93 then None else fault_elems (d - 1) n (ws cs))"
  "c \<noteq> 123 \<Longrightarrow> c \<noteq> 91 \<Longrightarrow> fault_value d (Suc n) (c # cs) = (if long_int (c # cs) then Some ValueError else None)"
  by (simp_all add: Let_def)

declare fault_value.simps(3) [simp del]

lemma fault_values:
  "fault_value d n s = Some e \<Longrightarrow> e = RuntimeError \<or> e = ValueError"
  "fault_elems d n s = Some e \<Longrightarrow> e = RuntimeError \<or> e = ValueError"
  "fault_members d n s = Some e \<Longrightarrow> e = RuntimeError \<or> e = ValueError"
proof (induction d n s and d n s and d n s rule: fault_value_fault_elems_fault_members.induct)
  case (3 d n c cs)
  consider "c = 123" | "c = 91" | "c \<noteq> 123" "c \<noteq> 91" by blast
  then show ?case using 3 by cases (auto simp: fault_value_simps split: if_splits)
next
  case (5 d n s)
  then show ?case by (auto split: option.splits list.splits if_splits)
next
  case (7 d n s)
  then show ?case by (auto split: option.splits list.splits if_splits)
qed simp_all

lemma json_loads_error: "json_loads spare s = Inl e \<Longrightarrow> e = RuntimeError \<or> e = ValueError"
  by (auto simp: json_loads_def dest: fault_values(1) split: option.splits)

lemma json_loads_value: "json_loads spare s = Inr j \<Longrightarrow> loads s = Some j"
  by (auto simp: json_loads_def split: option.splits)

text \<open>When an array or an object is within the limits: each element or member is.\<close>

lemma fault_elems_None:
  "fault_elems d (Suc n) s = None \<longleftrightarrow> fault_value d n s = None \<and>
     (\<forall>v r r'. parse_value n s = Some (v, r) \<longrightarrow> ws r = 44 # r' \<longrightarrow> fault_elems d n (ws r') = None)"
  by (auto split: option.splits list.splits)

lemma fault_members_None:
  "fault_members d (Suc n) s = None \<longleftrightarrow>
     (\<forall>cs k r r1. s = 34 # cs \<longrightarrow> parse_str cs = Some (k, r) \<longrightarrow> ws r = 58 # r1 \<longrightarrow> fault_value d n (ws r1) = None \<and>
        (\<forall>v r2 r3. parse_value n (ws r1) = Some (v, r2) \<longrightarrow> ws r2 = 44 # r3 \<longrightarrow> fault_members d n (ws r3) = None))"
  by (cases s) (auto split: option.splits list.splits)

declare fault_elems.simps(2) [simp del] fault_members.simps(2) [simp del]

text \<open>A deeper stack reads no less.\<close>

lemma fault_mono:
  assumes "d \<le> d'"
  shows "(fault_value d n s = None \<longrightarrow> fault_value d' n s = None) \<and> (fault_elems d n s = None \<longrightarrow> fault_elems d' n s = None) \<and>
    (fault_members d n s = None \<longrightarrow> fault_members d' n s = None)"
  using assms
proof (induction n arbitrary: d d' s)
  case (Suc n)
  have "d - 1 \<le> d' - 1" using Suc.prems by simp
  note IH = Suc.IH [OF Suc.prems] Suc.IH [OF this]
  have "fault_value d' (Suc n) s = None" if "fault_value d (Suc n) s = None"
  proof (cases s)
    case (Cons c cs)
    consider "c = 123" | "c = 91" | "c \<noteq> 123" "c \<noteq> 91" by blast
    then show ?thesis using that Suc.prems IH(2) [of "ws cs"] unfolding Cons
      by cases (auto simp: fault_value_simps split: if_splits)
  qed simp
  moreover have "fault_elems d' (Suc n) s = None" if "fault_elems d (Suc n) s = None"
    using that IH(1) unfolding fault_elems_None by blast
  moreover have "fault_members d' (Suc n) s = None" if "fault_members d (Suc n) s = None"
    using that IH(1) unfolding fault_members_None by blast
  ultimately show ?case by blast
qed simp

lemma json_loads_mono: "json_loads k s = Inr j \<Longrightarrow> k \<le> k' \<Longrightarrow> json_loads k' s = Inr j"
  using fault_mono [of "json_nesting k" "json_nesting k'" "Suc (2 * length s)" "ws s"]
  by (auto simp: json_loads_def json_nesting_def split: option.splits)

section \<open>What was printed is within the limits\<close>

text \<open>Values nested at most \<open>d\<close> deep whose integers have at most 4300 digits.\<close>

fun fits :: "nat \<Rightarrow> json \<Rightarrow> bool" where
  "fits d (JInt i) = (length (nat_str (nat \<bar>i\<bar>)) \<le> MAX_STR_DIGITS)"
| "fits d (JArr xs) = (0 < d \<and> (\<forall>x \<in> set xs. fits (d - 1) x))"
| "fits d (JObj ps) = (0 < d \<and> (\<forall>p \<in> set ps. fits (d - 1) (snd p)))"
| "fits d _ = True"

lemma fits_jopt [simp]: "(\<And>v. fits d (f v)) \<Longrightarrow> fits d (jopt f x)"
  by (cases x) (simp_all add: jopt_def)

lemma not_long_int: "\<not> is_digit c \<Longrightarrow> c \<noteq> 45 \<Longrightarrow> \<not> long_int (c # cs)"
  using parse_num_head [of "c # cs"] by (auto simp: long_int_def split: option.splits)

lemma int_str_not_long:
  assumes "length (nat_str (nat \<bar>i\<bar>)) \<le> MAX_STR_DIGITS" "stops r"
  shows "\<not> long_int (int_str i @ r)"
proof -
  have ip: "int_part (nat_str n @ r) = (nat_str n, r)" for n
  proof -
    have "takeWhile is_digit (nat_str n) = nat_str n" "dropWhile is_digit (nat_str n) = []"
      using nat_str_digit by (auto simp: is_digit_def)
    then have "int_part (nat_str n) = (nat_str n, [])"
      using nat_str_head [of n] by (cases "n = 0") (auto simp: int_part_def)
    with int_part_append [OF assms(2), of "nat_str n"] show ?thesis by simp
  qed
  have h: "hd (nat_str n) \<noteq> 45" for n using nat_str_digit [of "hd (nat_str n)" n] by auto
  have "parse_num (int_str i @ r) = Some (JInt i, r)" using parse_num_append [OF assms(2) parse_num_int] by simp
  moreover have "fst (int_part (if hd (int_str i @ r) = 45 then tl (int_str i @ r) else int_str i @ r)) = nat_str (nat \<bar>i\<bar>)"
    using h ip by (auto simp: int_str_def)
  ultimately show ?thesis using assms(1) by (simp add: long_int_def)
qed

lemma fault_atom: "c \<noteq> 123 \<Longrightarrow> c \<noteq> 91 \<Longrightarrow> \<not> long_int (c # cs) \<Longrightarrow> fault_value d n (c # cs) = None"
  by (cases n) (simp_all add: fault_value_simps)

lemma fault_elems_dumps:
  assumes "xs \<noteq> []" "\<And>x. x \<in> set xs \<Longrightarrow> wf_json x"
    and "\<And>x n r. x \<in> set xs \<Longrightarrow> length (dumps a x) < n \<Longrightarrow> stops r \<Longrightarrow> fault_value d n (dumps a x @ r) = None"
    and "length (py_join [44, 32] (map (dumps a) xs)) + 1 < n"
  shows "fault_elems d n (py_join [44, 32] (map (dumps a) xs) @ 93 # r) = None"
  using assms
proof (induction xs arbitrary: n rule: induct_list012)
  case (2 x)
  then obtain m where n: "n = Suc m" by (cases n) auto
  have st: "stops (93 # r)" by (simp add: stops_def is_digit_def)
  then show ?case using 2 n parse_value_dumps [of x a m "93 # r"]
    by (auto simp: fault_elems_None ws_punct ws_char_def)
next
  case (3 x y zs)
  from 3(6) obtain m where n: "n = Suc m" by (cases n) auto
  let ?rest = "py_join [44, 32] (map (dumps a) (y # zs))"
  have st: "stops (44 # 32 # ?rest @ 93 # r)" by (simp add: stops_def is_digit_def)
  have m: "length (dumps a x) < m" using 3(6) n by simp
  note p = parse_value_dumps [OF 3(4) [of x] m st]
  have f: "fault_value d m (dumps a x @ 44 # 32 # ?rest @ 93 # r) = None" by (rule 3(5) [OF _ m st]) simp
  have rest: "?rest \<noteq> [] \<and> hd ?rest = hd (dumps a y)"
    using dumps_head [OF 3(4) [of y], of a] by (cases zs) auto
  have w: "ws (?rest @ 93 # r) = ?rest @ 93 # r"
    using rest dumps_head [OF 3(4) [of y], of a] by (intro ws_id) auto
  have "fault_elems d m (?rest @ 93 # r) = None"
    using 3 n by (intro 3(2)) auto
  with p f w show ?case by (simp add: n fault_elems_None ws_punct ws_char_def)
qed simp

lemma fault_members_dumps:
  defines "part a p \<equiv> (case p of (k, v) \<Rightarrow> dumps_str a k @ [58, 32] @ dumps a v)"
  assumes "ps \<noteq> []" "\<And>k v. (k, v) \<in> set ps \<Longrightarrow> wf_json v \<and> scalars k"
    and "\<And>k v n r. (k, v) \<in> set ps \<Longrightarrow> length (dumps a v) < n \<Longrightarrow> stops r \<Longrightarrow> fault_value d n (dumps a v @ r) = None"
    and "length (py_join [44, 32] (map (part a) ps)) + 1 < n"
  shows "fault_members d n (py_join [44, 32] (map (part a) ps) @ 125 # r) = None"
  using assms(2-)
proof (induction ps arbitrary: n rule: induct_list012)
  case (2 p)
  obtain k v where p: "p = (k, v)" by (cases p)
  from 2(4) obtain m where n: "n = Suc m" by (cases n) auto
  have st: "stops (125 # r)" by (simp add: stops_def is_digit_def)
  have m: "length (dumps a v) < m" and w: "wf_json v" "scalars k" using 2(4) 2(2) [of k v] n p by (auto simp: part_def)
  have k: "parse_str (tl (dumps_str a k @ 58 # 32 # dumps a v @ 125 # r)) = Some (k, 58 # 32 # dumps a v @ 125 # r)"
    using w by (intro parse_dumps_str) (auto simp: scalars_def)
  have x: "ws (dumps a v @ 125 # r) = dumps a v @ 125 # r"
    using dumps_head [of v a] w by (intro ws_id) auto
  have f: "fault_value d m (dumps a v @ 125 # r) = None" using 2(3) [of k v, OF _ m st] p by simp
  show ?case using k x f parse_value_dumps [OF w(1) m st]
    by (auto simp: n p part_def fault_members_None dumps_str_def ws_punct ws_char_def)
next
  case (3 p q qs)
  obtain k v where p: "p = (k, v)" by (cases p)
  from 3(6) obtain m where n: "n = Suc m" by (cases n) auto
  let ?rest = "py_join [44, 32] (map (part a) (q # qs))"
  have st: "stops (44 # 32 # ?rest @ 125 # r)" by (simp add: stops_def is_digit_def)
  have m: "length (dumps a v) < m" and w: "wf_json v" "scalars k" using 3(6) 3(4) [of k v] n p by (auto simp: part_def)
  have k: "parse_str (tl (dumps_str a k @ 58 # 32 # dumps a v @ 44 # 32 # ?rest @ 125 # r)) =
      Some (k, 58 # 32 # dumps a v @ 44 # 32 # ?rest @ 125 # r)"
    using w by (intro parse_dumps_str) (auto simp: scalars_def)
  have x: "ws (dumps a v @ 44 # 32 # ?rest @ 125 # r) = dumps a v @ 44 # 32 # ?rest @ 125 # r"
    using dumps_head [of v a] w by (intro ws_id) auto
  have f: "fault_value d m (dumps a v @ 44 # 32 # ?rest @ 125 # r) = None" using 3(5) [of k v, OF _ m st] p by simp
  have "?rest \<noteq> [] \<and> hd ?rest = 34"
    by (cases q; cases qs) (auto simp: part_def dumps_str_def)
  then have y: "ws (?rest @ 125 # r) = ?rest @ 125 # r" by (intro ws_id) (auto simp: ws_char_def)
  have "fault_members d m (?rest @ 125 # r) = None"
  proof (rule 3(2))
    have "length (part a p) \<noteq> 0" by (simp add: p part_def)
    then show "length ?rest + 1 < m" using 3(6) n by simp
  next
    fix k' v'
    assume "(k', v') \<in> set (q # qs)"
    then show "wf_json v' \<and> scalars k'" by (intro 3(4)) simp
  next
    fix k' v' n' r'
    assume "(k', v') \<in> set (q # qs)" "length (dumps a v') < n'" "stops r'"
    then show "fault_value d n' (dumps a v' @ r') = None" by (intro 3(5) [of k']) simp_all
  qed simp
  moreover have "py_join [44, 32] (map (part a) (p # q # qs)) @ 125 # r = dumps_str a k @ 58 # 32 # dumps a v @ 44 # 32 # ?rest @ 125 # r"
    by (simp add: p part_def)
  ultimately show ?case using k x f y parse_value_dumps [OF w(1) m st]
    by (auto simp: n fault_members_None dumps_str_def ws_punct ws_char_def)
qed simp

lemma fault_dumps:
  "wf_json j \<Longrightarrow> fits d j \<Longrightarrow> length (dumps a j) < n \<Longrightarrow> stops r \<Longrightarrow> fault_value d n (dumps a j @ r) = None"
proof (induction j arbitrary: d n r)
  case (JInt i)
  obtain c cs where c: "int_str i = c # cs" by (cases "int_str i") simp_all
  have "\<not> long_int (c # cs @ r)" using int_str_not_long [of i r] JInt c by simp
  moreover have "c \<noteq> 123" "c \<noteq> 91" using int_str_head [of i] c by (auto simp: is_digit_def)
  ultimately show ?case using c by (simp add: fault_atom)
next
  case (JFloat t)
  obtain c cs where c: "t = c # cs" "is_digit c \<or> c = 45" using parse_num_head [of t] JFloat(1) by (cases t) auto
  have "\<not> long_int (c # cs @ r)" using parse_num_append [OF JFloat(4), of t] JFloat(1) c(1) by (simp add: long_int_def)
  moreover have "c \<noteq> 123" "c \<noteq> 91" using c(2) by (auto simp: is_digit_def)
  ultimately show ?case using c by (simp add: fault_atom)
next
  case (JArr xs)
  then obtain m where n: "n = Suc m" by (cases n) auto
  show ?case
  proof (cases "xs = []")
    case True
    then show ?thesis using JArr.prems(2) by (simp add: n fault_value_simps ws_punct ws_char_def)
  next
    case False
    let ?b = "py_join [44, 32] (map (dumps a) xs)"
    have e: "fault_elems (d - 1) m (?b @ 93 # r) = None"
      using JArr n False by (intro fault_elems_dumps) auto
    obtain y ys where xs: "xs = y # ys" using False by (cases xs) auto
    then have "?b \<noteq> [] \<and> \<not> ws_char (hd ?b) \<and> hd ?b \<noteq> 93"
      using dumps_head [of y a] JArr.prems(1) by (cases ys) auto
    moreover from this have "ws (?b @ 93 # r) = ?b @ 93 # r" by (intro ws_id) auto
    ultimately show ?thesis using e JArr.prems(2) by (auto simp: n fault_value_simps)
  qed
next
  case (JObj ps)
  then obtain m where n: "n = Suc m" by (cases n) auto
  show ?case
  proof (cases "ps = []")
    case True
    then show ?thesis using JObj.prems(2) by (simp add: n fault_value_simps ws_punct ws_char_def)
  next
    case False
    let ?b = "py_join [44, 32] (map (\<lambda>(k, v). dumps_str a k @ [58, 32] @ dumps a v) ps)"
    have e: "fault_members (d - 1) m (?b @ 125 # r) = None"
    proof (rule fault_members_dumps [OF False])
      fix k v
      assume i: "(k, v) \<in> set ps"
      then show "wf_json v \<and> scalars k" using JObj.prems(1) by auto
      fix n' r'
      assume "length (dumps a v) < n'" "stops r'"
      with i JObj show "fault_value (d - 1) n' (dumps a v @ r') = None" by force
    qed (use JObj.prems(3) n in simp)
    obtain y ys where ps: "ps = y # ys" using False by (cases ps) auto
    then have "?b \<noteq> [] \<and> hd ?b = 34" by (cases y; cases ys) (auto simp: dumps_str_def)
    moreover from this have "ws (?b @ 125 # r) = ?b @ 125 # r" by (intro ws_id) (auto simp: ws_char_def)
    ultimately show ?thesis using e JObj.prems(2) by (auto simp: n fault_value_simps)
  qed
qed (simp_all add: fault_atom not_long_int is_digit_def lit_Cons dumps_str_def)

text \<open>So a value nested no deeper than the limit makes the trip through its text.\<close>

lemma json_loads_dumps:
  assumes "wf_json j" "fits (json_nesting spare) j"
  shows "json_loads spare (dumps a j) = Inr j"
proof -
  have "ws (dumps a j) = dumps a j" using dumps_head [OF assms(1), of a] ws_id [of "dumps a j" "[]"] by simp
  moreover have "fault_value (json_nesting spare) (Suc (2 * length (dumps a j))) (dumps a j @ []) = None"
    by (rule fault_dumps [OF assms]) (simp_all add: stops_def)
  ultimately show ?thesis by (simp add: json_loads_def loads_dumps [OF assms(1)])
qed

section \<open>Nesting\<close>

text \<open>Opening brackets alone, more than can be entered, end the scan with the \<open>RecursionError\<close>.\<close>

lemma fault_brackets: "d < k \<Longrightarrow> 2 * k \<le> n \<Longrightarrow> fault_value d n (replicate k 91 @ r) = Some RuntimeError"
proof (induction d arbitrary: k n)
  case 0
  then obtain m j where "n = Suc m" "k = Suc j" by (cases n; cases k) auto
  then show ?case by (simp add: fault_value_simps)
next
  case (Suc d)
  then obtain m j where n: "n = Suc (Suc m)" and k: "k = Suc (Suc j)"
    by (cases n; cases "n - 1"; cases k; cases "k - 1") auto
  have "fault_value d m (replicate (Suc j) 91 @ r) = Some RuntimeError" using Suc n k by (intro Suc.IH) auto
  then show ?case by (simp add: n k fault_value_simps fault_elems.simps(2) ws_punct ws_char_def)
qed

lemma json_loads_deep: "json_nesting spare < k \<Longrightarrow> json_loads spare (replicate k 91 @ r) = Inl RuntimeError"
proof -
  assume k: "json_nesting spare < k"
  have "ws (replicate k 91 @ r) = replicate k 91 @ r" using k by (cases k) (simp_all add: ws_punct ws_char_def)
  with fault_brackets [OF k, of "Suc (2 * length (replicate k 91 @ r))" r] show ?thesis by (simp add: json_loads_def)
qed

text \<open>Conversely the scan enters no more arrays and objects than the text has opening brackets.\<close>

definition brackets :: "pystr \<Rightarrow> nat" where
  "brackets s = length (filter (\<lambda>c. c = 91 \<or> c = 123) s)"

lemma brackets_simps [simp]: "brackets [] = 0" "brackets (c # s) = (if c = 91 \<or> c = 123 then Suc (brackets s) else brackets s)"
  by (simp_all add: brackets_def)

lemma brackets_drop: "brackets (drop k s) \<le> brackets s"
  by (induction s arbitrary: k) (auto simp: drop_Cons split: nat.splits intro: le_SucI)

lemma brackets_dropWhile: "brackets (dropWhile P s) \<le> brackets s"
  by (induction s) auto

lemma brackets_ws: "brackets (ws s) \<le> brackets s"
  by (simp add: ws_def brackets_dropWhile)

lemma brackets_after: "ws s = c # r \<Longrightarrow> brackets r \<le> brackets s"
  using brackets_ws [of s] by (simp split: if_splits)

lemma parse_str_brackets: "parse_str s = Some (t, r) \<Longrightarrow> brackets r \<le> brackets s"
proof (induction s arbitrary: t rule: length_induct)
  case (1 s)
  have IH: "brackets r \<le> brackets s'" if "cons_fst x (parse_str s') = Some (t, r)" "length s' < length s" for x s'
    using that 1(1) by (auto simp: cons_fst_Some)
  show ?case
  proof (cases s)
    case (Cons c cs)
    consider "c = 34" | e r' where "c = 92" "cs = e # r'" | "c \<noteq> 34" "c \<noteq> 92"
      using 1(2) Cons by (cases cs) (auto simp: parse_str.simps(2) split: if_splits)
    then show ?thesis
    proof cases
      case 2
      then have "brackets r \<le> brackets (drop 10 r') \<or> brackets r \<le> brackets (drop 4 r') \<or> brackets r \<le> brackets r'"
        using 1(2) Cons IH [of _ "drop 10 r'"] IH [of _ "drop 4 r'"] IH [of _ r']
        by (auto simp: parse_str.simps(2) split: if_splits option.splits)
      then have "brackets r \<le> brackets r'" using brackets_drop [of 10 r'] brackets_drop [of 4 r'] by linarith
      then show ?thesis using Cons 2 by auto
    next
      case 3
      then have "brackets r \<le> brackets cs" using 1(2) Cons IH [of c cs] by (auto simp: parse_str.simps(2) split: if_splits)
      then show ?thesis using Cons by simp
    qed (use 1(2) Cons in \<open>auto simp: parse_str.simps(2)\<close>)
  qed (use 1(2) in simp)
qed

lemma parse_num_brackets: "parse_num s = Some (v, r) \<Longrightarrow> brackets r \<le> brackets s"
proof -
  have d: "brackets (dropWhile is_digit (drop k t)) \<le> brackets t" for k t
    using brackets_dropWhile [of is_digit "drop k t"] brackets_drop [of k t] by linarith
  have t: "brackets (tl t) \<le> brackets t" for t by (cases t) auto
  have i: "brackets (snd (int_part t)) \<le> brackets t" for t using d [of 0 t] t by (simp add: int_part_def)
  have f: "brackets (snd (frac_part t)) \<le> brackets t" for t using d [of 0 "tl t"] t [of t] by (simp add: frac_part_def)
  have e: "brackets (snd (exp_part t)) \<le> brackets t" for t
  proof -
    have x: "brackets (dropWhile is_digit (drop k (tl t))) \<le> brackets t" for k using d [of k "tl t"] t [of t] by linarith
    show ?thesis using x [of 0] by (simp add: exp_part_def Let_def x)
  qed
  define s1 where "s1 = (if s \<noteq> [] \<and> hd s = 45 then tl s else s)"
  assume "parse_num s = Some (v, r)"
  then have r: "r = snd (exp_part (snd (frac_part (snd (int_part s1)))))"
    by (auto simp: parse_num_def Let_def split_def s1_def split: if_splits)
  have "brackets s1 \<le> brackets s" using t by (simp add: s1_def)
  then show ?thesis
    using i [of s1] f [of "snd (int_part s1)"] e [of "snd (frac_part (snd (int_part s1)))"] unfolding r by linarith
qed

lemma parse_atom_brackets:
  assumes "c \<noteq> 123" "c \<noteq> 91" "parse_value (Suc n) (c # cs) = Some (v, r)"
  shows "brackets r \<le> brackets cs"
proof -
  have k: "brackets r \<le> brackets cs" if "keyword w j (c # cs) = Some (v, r)" for w j
    using that brackets_drop [of "length w" "c # cs"] assms(1,2) by (auto simp: keyword_def split: if_splits)
  show ?thesis
    using assms k brackets_drop [of 8 cs] parse_num_brackets [of "c # cs" v r]
    by (auto dest: parse_str_brackets split: if_splits)
qed

lemma parse_brackets:
  "(parse_value n s = Some (v, r) \<longrightarrow> brackets r \<le> brackets s) \<and> (parse_elems n s = Some (xs, r) \<longrightarrow> brackets r \<le> brackets s) \<and>
   (parse_members n s = Some (ps, r) \<longrightarrow> brackets r \<le> brackets s)"
proof (induction n arbitrary: s v xs ps r)
  case (Suc n)
  have "brackets r \<le> brackets s" if p: "parse_value (Suc n) s = Some (v, r)"
  proof (cases s)
    case (Cons c cs)
    have w: "brackets (tl (ws cs)) \<le> brackets cs" "brackets (ws cs) \<le> brackets cs"
      using brackets_ws [of cs] by (cases "ws cs"; simp split: if_splits)+
    consider "c = 123" | "c = 91" | "c \<noteq> 123" "c \<noteq> 91" by blast
    then show ?thesis
    proof cases
      case 1
      with p Cons have "r = tl (ws cs) \<or> (\<exists>ps. parse_members n (ws cs) = Some (ps, r))"
        by (auto simp: parse_value_object simp del: parse_value.simps split: if_splits)
      with Suc.IH [of "ws cs"] w Cons show ?thesis by fastforce
    next
      case 2
      with p Cons have "r = tl (ws cs) \<or> (\<exists>xs. parse_elems n (ws cs) = Some (xs, r))"
        by (auto simp: parse_value_array simp del: parse_value.simps split: if_splits)
      with Suc.IH [of "ws cs"] w Cons show ?thesis by fastforce
    next
      case 3
      with parse_atom_brackets [OF 3 p [unfolded Cons]] Cons show ?thesis by simp
    qed
  qed (use p in simp)
  moreover have "brackets r \<le> brackets s" if p: "parse_elems (Suc n) s = Some (xs, r)"
  proof -
    from p obtain v r1 c r' where v: "parse_value n s = Some (v, r1)" "ws r1 = c # r'"
      and c: "r = r' \<or> (\<exists>xs'. parse_elems n (ws r') = Some (xs', r))"
      by (auto simp: cons_fst_Some split: option.splits list.splits if_splits)
    from c have "brackets r \<le> brackets r'" using Suc.IH [of "ws r'"] brackets_ws [of r'] by fastforce
    then show ?thesis using Suc.IH v(1) brackets_after [OF v(2)] by fastforce
  qed
  moreover have "brackets r \<le> brackets s" if p: "parse_members (Suc n) s = Some (ps, r)"
  proof -
    from p obtain cs k r0 c1 r1 where s: "s = 34 # cs" and k: "parse_str cs = Some (k, r0)" "ws r0 = c1 # r1"
      by (cases s) (auto split: option.splits list.splits if_splits)
    from p obtain v r2 c r' where v: "parse_value n (ws r1) = Some (v, r2)" "ws r2 = c # r'"
      and c: "r = r' \<or> (\<exists>ps'. parse_members n (ws r') = Some (ps', r))"
      unfolding s by (auto simp: k cons_fst_Some split: option.splits list.splits if_splits)
    from c have "brackets r \<le> brackets r'" using Suc.IH [of "ws r'"] brackets_ws [of r'] by fastforce
    moreover have "brackets r2 \<le> brackets (ws r1)" using Suc.IH v(1) by blast
    ultimately show ?thesis
      using parse_str_brackets [OF k(1)] brackets_after [OF k(2)] brackets_after [OF v(2)] brackets_ws [of r1] s by simp
  qed
  ultimately show ?case by blast
qed simp

lemma parse_value_brackets: "parse_value n s = Some (v, r) \<Longrightarrow> brackets r \<le> brackets s"
  using parse_brackets by blast

lemma fault_few:
  assumes "brackets s \<le> d"
  shows "fault_value d n s \<noteq> Some RuntimeError \<and> fault_elems d n s \<noteq> Some RuntimeError \<and> fault_members d n s \<noteq> Some RuntimeError"
  using assms
proof (induction n arbitrary: d s)
  case (Suc n)
  have "fault_value d (Suc n) s \<noteq> Some RuntimeError"
  proof (cases s)
    case (Cons c cs)
    consider "c = 123 \<or> c = 91" | "c \<noteq> 123" "c \<noteq> 91" by blast
    then show ?thesis
    proof cases
      case 1
      then have "0 < d" "brackets (ws cs) \<le> d - 1" using Suc.prems Cons brackets_ws [of cs] by auto
      with 1 Suc.IH [of "ws cs" "d - 1"] show ?thesis by (auto simp: Cons fault_value_simps split: if_splits)
    qed (simp add: Cons fault_value_simps)
  qed simp
  moreover have "fault_elems d (Suc n) s \<noteq> Some RuntimeError"
  proof -
    have "fault_elems d n (ws r') \<noteq> Some RuntimeError" if "parse_value n s = Some (v, r)" "ws r = c # r'" for v r c r'
      using Suc.IH [of "ws r'" d] Suc.prems parse_value_brackets [OF that(1)] brackets_after [OF that(2)] brackets_ws [of r'] by auto
    then show ?thesis using Suc.IH [OF Suc.prems] by (auto simp: fault_elems.simps(2) split: option.splits list.splits)
  qed
  moreover have "fault_members d (Suc n) s \<noteq> Some RuntimeError"
  proof (cases s)
    case (Cons c0 cs)
    have v: "brackets (ws r1) \<le> d" if "parse_str cs = Some (k, r)" "ws r = c # r1" for k r c r1
      using Suc.prems Cons parse_str_brackets [OF that(1)] brackets_after [OF that(2)] brackets_ws [of r1] by (simp split: if_splits)
    have "fault_members d n (ws r3) \<noteq> Some RuntimeError"
      if "parse_str cs = Some (k, r)" "ws r = c # r1" "parse_value n (ws r1) = Some (v, r2)" "ws r2 = c' # r3" for k r c r1 v r2 c' r3
      using Suc.IH [of "ws r3" d] v [OF that(1,2)] parse_value_brackets [OF that(3)] brackets_after [OF that(4)]
        brackets_ws [of r3] by auto
    then show ?thesis using Suc.IH v by (auto simp: Cons fault_members.simps(2) split: option.splits list.splits)
  qed (simp add: fault_members.simps(2))
  ultimately show ?case by blast
qed simp

lemma json_loads_few: "brackets s \<le> json_nesting spare \<Longrightarrow> json_loads spare s \<noteq> Inl RuntimeError"
  using fault_few [of "ws s" "json_nesting spare" "Suc (2 * length s)"] brackets_ws [of s]
  by (auto simp: json_loads_def split: option.splits)

end
