(* ===== verification/Session.thy ===== *)
theory Session
  imports Schemas Storage Json_Limits
begin

text \<open>
  The database session a service works in, and the outside world it reads. A session sees the
  committed tables and its own uncommitted changes (\<open>work\<close>); ORM objects added to it
  (\<open>pending\<close>) are flushed by the commit. Closing a session without a commit drops both, so an
  operation that raises leaves \<open>committed\<close> as it was.
\<close>

text \<open>
  What one operation reads from outside: clocks, random bits, the exception the commit raises, if any,
  the collation of the database, the grapheme counter of \<^verbatim>\<open>app/text.py\<close> (the regex library's \<open>\\X\<close>),
  the object store, the URL and POST signers, pydantic's datetime text, and how much deeper than the
  least \<open>json.loads\<close> can go (\<open>json_nesting\<close>).
\<close>

record world =
  w_now :: datetime
  w_db_now :: datetime
  w_conv_ms :: int
  w_conv_rand :: int
  w_msg_ms :: int
  w_msg_rand :: int
  w_commit_error :: "exn option"
  w_collate :: "pystr \<Rightarrow> pystr \<Rightarrow> bool"
  w_graphemes :: "pystr \<Rightarrow> nat"
  w_head :: "pystr \<Rightarrow> head_outcome"
  w_sign :: "pystr \<Rightarrow> pystr \<Rightarrow> pystr \<Rightarrow> int \<Rightarrow> pystr"
  w_sign_post :: "post_policy \<Rightarrow> pystr \<times> (pystr \<times> pystr) list"
  w_dump_dt :: "datetime \<Rightarrow> pystr"
  w_spare :: nat

text \<open>
  The session, with what a service does outside the database: calls of \<open>on_commit\<close> (the relay's
  \<open>notify\<close>) and the two message counters.
\<close>

record sess =
  committed :: db
  work :: db
  pending :: "(pystr \<times> json) list"
  notified :: nat
  m_sent :: nat
  m_replayed :: nat

definition begin_session :: "db \<Rightarrow> sess" where
  "begin_session d = \<lparr>committed = d, work = d, pending = [], notified = 0, m_sent = 0, m_replayed = 0\<rparr>"

text \<open>The outbox rows a flush inserts: one per staged event, with consecutive ids.\<close>

fun outbox_rows :: "datetime \<Rightarrow> nat \<Rightarrow> (pystr \<times> json) list \<Rightarrow> outbox_row list" where
  "outbox_rows now n [] = []"
| "outbox_rows now n ((t, p) # ps) =
     \<lparr>ob_id = n, topic = t, payload = p, ob_created_at = now, published_at = None\<rparr>
       # outbox_rows now (Suc n) ps"

definition flush :: "datetime \<Rightarrow> (pystr \<times> json) list \<Rightarrow> db \<Rightarrow> db" where
  "flush now ps d =
     d\<lparr>outbox := outbox d @ outbox_rows now (outbox_seq d) ps, outbox_seq := outbox_seq d + length ps\<rparr>"

text \<open>
  \<open>session.commit()\<close> followed by \<open>on_commit\<close>: \<open>ChatService._commit\<close>. The commit may raise any exception:
  \<open>OperationalError\<close> where the connection is lost, others where the driver or the pool fails. Nothing is
  committed then.
\<close>

definition commit :: "world \<Rightarrow> sess \<Rightarrow> (exn + unit) \<times> sess" where
  "commit w s =
     (if \<not> (\<forall>(t, p) \<in> set (pending s). varchar 128 t) then (Inl DBAPIError, s)
      else case w_commit_error w of
        Some e \<Rightarrow> (Inl e, s)
      | None \<Rightarrow>
          (let d = flush (w_now w) (pending s) (work s)
           in (Inr (), s\<lparr>committed := d, work := d, pending := [], notified := notified s + 1\<rparr>)))"

definition rollback :: "sess \<Rightarrow> sess" where
  "rollback s = s\<lparr>work := committed s, pending := []\<rparr>"

lemma outbox_rows_map [simp]:
  "map topic (outbox_rows now n ps) = map fst ps"
  "map payload (outbox_rows now n ps) = map snd ps"
  "map ob_id (outbox_rows now n ps) = [n..<n + length ps]"
  by (induction ps arbitrary: n) (auto simp: upt_conv_Cons simp del: upt_Suc)

lemma outbox_rows_unpublished: "r \<in> set (outbox_rows now n ps) \<Longrightarrow> published_at r = None"
  by (induction ps arbitrary: n) auto

lemma flush_frame [simp]:
  "conversations (flush now ps d) = conversations d" "messages (flush now ps d) = messages d"
  by (simp_all add: flush_def)

lemma commit_cases:
  obtains (failed) e where "commit w s = (Inl e, s)" "e = DBAPIError \<or> w_commit_error w = Some e"
  | (success) d where "w_commit_error w = None" "d = flush (w_now w) (pending s) (work s)"
      "commit w s = (Inr (), s\<lparr>committed := d, work := d, pending := [], notified := notified s + 1\<rparr>)"
proof (cases "\<forall>(t, p) \<in> set (pending s). varchar 128 t")
  case True
  show ?thesis
  proof (cases "w_commit_error w")
    case None
    with True show ?thesis by (intro success) (simp_all add: commit_def Let_def)
  next
    case (Some e)
    with True show ?thesis by (intro failed [of e]) (auto simp: commit_def)
  qed
next
  case False
  then show ?thesis by (intro failed [of DBAPIError]) (auto simp: commit_def)
qed

lemma commit_raises: "commit w s = (Inl e, s') \<Longrightarrow> e = DBAPIError \<or> w_commit_error w = Some e"
  by (cases rule: commit_cases [of w s]) auto

end
