(* ===== verification/Migration.thy ===== *)
theory Migration
  imports Session
begin

text \<open>
  \<^verbatim>\<open>alembic/versions/0001_initial.py\<close> and the table metadata of \<^verbatim>\<open>app/models.py\<close>: the catalogue of the
  database, the operations of a migration on it, the schema the ORM expects, and what the migrated
  schema enforces on a row.
\<close>

section \<open>Catalogue\<close>

datatype sql_type = Uuid | Varchar nat | Unbounded_text | Enum_type string | Timestamptz | Bigint | Jsonb

text \<open>A column; a reference names a table and a column (with \<open>ON DELETE CASCADE\<close>).\<close>

record column =
  col_name :: string
  col_type :: sql_type
  col_nullable :: bool
  col_primary :: bool
  col_identity :: bool
  col_default_now :: bool
  col_references :: "(string \<times> string) option"

text \<open>A check is the comparison of two columns, or that one of two columns is not null.\<close>

datatype check_expr = Less_than string string | Either_not_null string string

datatype table_constraint = Unique string "string list" | Check string check_expr

record index_def =
  idx_name :: string
  idx_columns :: "string list"
  idx_where :: "string option"

record table_def =
  tab_columns :: "column list"
  tab_constraints :: "table_constraint list"
  tab_indexes :: "index_def list"

record catalog =
  enums :: "(string \<times> string list) list"
  tables :: "(string \<times> table_def) list"

definition column :: "string \<Rightarrow> sql_type \<Rightarrow> bool \<Rightarrow> column" where
  "column name ty nullable = \<lparr>col_name = name, col_type = ty, col_nullable = nullable, col_primary = False,
     col_identity = False, col_default_now = False, col_references = None\<rparr>"

definition primary_column :: "string \<Rightarrow> sql_type \<Rightarrow> column" where
  "primary_column name ty = (column name ty False)\<lparr>col_primary := True\<rparr>"

section \<open>Migration operations\<close>

datatype migration_op =
  Create_enum string "string list"
| Create_table string "column list" "table_constraint list"
| Create_index string string "string list" "string option"
| Drop_table string
| Drop_enum string

text \<open>
  What PostgreSQL makes of an operation. The enum operations have \<open>checkfirst\<close>: they do nothing where
  the type exists already, or no longer. A table needs the types and tables it names; a table another
  one references and a type a column has cannot be dropped. Dropping a table drops its indexes.
\<close>

definition names_known :: "catalog \<Rightarrow> column \<Rightarrow> bool" where
  "names_known cat c \<longleftrightarrow>
     (case col_type c of Enum_type e \<Rightarrow> e \<in> fst ` set (enums cat) | _ \<Rightarrow> True) \<and>
     (case col_references c of Some (t, _) \<Rightarrow> t \<in> fst ` set (tables cat) | None \<Rightarrow> True)"

definition references_table :: "string \<Rightarrow> table_def \<Rightarrow> bool" where
  "references_table t d \<longleftrightarrow> (\<exists>c \<in> set (tab_columns d). case col_references c of Some (t', _) \<Rightarrow> t' = t | None \<Rightarrow> False)"

definition uses_enum :: "string \<Rightarrow> table_def \<Rightarrow> bool" where
  "uses_enum e d \<longleftrightarrow> (\<exists>c \<in> set (tab_columns d). col_type c = Enum_type e)"

fun apply_op :: "migration_op \<Rightarrow> catalog \<Rightarrow> exn + catalog" where
  "apply_op (Create_enum name labels) cat =
     Inr (if name \<in> fst ` set (enums cat) then cat else cat\<lparr>enums := enums cat @ [(name, labels)]\<rparr>)"
| "apply_op (Create_table name cols constraints) cat =
     (if name \<in> fst ` set (tables cat) \<or> \<not> list_all (names_known cat) cols then Inl DBAPIError
      else Inr (cat\<lparr>tables := tables cat @ [(name, \<lparr>tab_columns = cols, tab_constraints = constraints, tab_indexes = []\<rparr>)]\<rparr>))"
| "apply_op (Create_index i name cols wh) cat =
     (if name \<notin> fst ` set (tables cat) \<or> (\<exists>(t, d) \<in> set (tables cat). i \<in> idx_name ` set (tab_indexes d)) then Inl DBAPIError
      else Inr (cat\<lparr>tables := map (\<lambda>(t, d). (t, if t = name then d\<lparr>tab_indexes := tab_indexes d @
             [\<lparr>idx_name = i, idx_columns = cols, idx_where = wh\<rparr>]\<rparr> else d)) (tables cat)\<rparr>))"
| "apply_op (Drop_table name) cat =
     (if name \<notin> fst ` set (tables cat) \<or> (\<exists>(t, d) \<in> set (tables cat). t \<noteq> name \<and> references_table name d) then Inl DBAPIError
      else Inr (cat\<lparr>tables := filter (\<lambda>(t, d). t \<noteq> name) (tables cat)\<rparr>))"
| "apply_op (Drop_enum name) cat =
     (if \<exists>(t, d) \<in> set (tables cat). uses_enum name d then Inl DBAPIError
      else Inr (cat\<lparr>enums := filter (\<lambda>(e, l). e \<noteq> name) (enums cat)\<rparr>))"

fun migrate :: "migration_op list \<Rightarrow> catalog \<Rightarrow> exn + catalog" where
  "migrate [] cat = Inr cat"
| "migrate (op # ops) cat = (case apply_op op cat of Inl e \<Rightarrow> Inl e | Inr cat' \<Rightarrow> migrate ops cat')"

section \<open>Revision 0001\<close>

text \<open>The text \<open>status <> 'read'\<close>.\<close>

definition unread_predicate :: string where
  "unread_predicate = ''status <> 'read'' @ [CHR 0x27]"

definition upgrade :: "migration_op list" where
  "upgrade =
     [Create_enum ''message_status'' [''sent'', ''delivered'', ''read''],
      Create_table ''conversations''
        [primary_column ''id'' Uuid, column ''user_a'' (Varchar 64) False, column ''user_b'' (Varchar 64) False,
         (column ''created_at'' Timestamptz False)\<lparr>col_default_now := True\<rparr>]
        [Unique ''uq_conversations_pair'' [''user_a'', ''user_b''],
         Check ''ck_conversations_sorted_pair'' (Less_than ''user_a'' ''user_b'')],
      Create_index ''ix_conversations_user_b'' ''conversations'' [''user_b''] None,
      Create_table ''messages''
        [primary_column ''id'' Uuid,
         (column ''conversation_id'' Uuid False)\<lparr>col_references := Some (''conversations'', ''id'')\<rparr>,
         column ''sender_id'' (Varchar 64) False, column ''recipient_id'' (Varchar 64) False,
         column ''client_msg_id'' (Varchar 64) False, column ''body'' Unbounded_text True,
         column ''attachment_key'' (Varchar 512) True, column ''attachment_mime'' (Varchar 100) True,
         column ''status'' (Enum_type ''message_status'') False, column ''created_at'' Timestamptz False,
         column ''delivered_at'' Timestamptz True, column ''read_at'' Timestamptz True]
        [Unique ''uq_messages_sender_client_msg'' [''sender_id'', ''client_msg_id''],
         Check ''ck_messages_has_content'' (Either_not_null ''body'' ''attachment_key'')],
      Create_index ''ix_messages_conversation_created'' ''messages'' [''conversation_id'', ''created_at DESC'', ''id DESC''] None,
      Create_index ''ix_messages_unread'' ''messages'' [''recipient_id'', ''conversation_id''] (Some unread_predicate),
      Create_table ''outbox''
        [(primary_column ''id'' Bigint)\<lparr>col_identity := True\<rparr>, column ''topic'' (Varchar 128) False,
         column ''payload'' Jsonb False, column ''created_at'' Timestamptz False, column ''published_at'' Timestamptz True]
        [],
      Create_index ''ix_outbox_pending'' ''outbox'' [''id''] (Some ''published_at IS NULL'')]"

definition downgrade :: "migration_op list" where
  "downgrade = [Drop_table ''outbox'', Drop_table ''messages'', Drop_table ''conversations'', Drop_enum ''message_status'']"

section \<open>The schema of the models\<close>

text \<open>
  The tables \<^verbatim>\<open>app/models.py\<close> declares. A mapped column is nullable exactly where its annotation is
  optional; \<open>default=\<close> values are made by the application and are not part of the schema.
\<close>

definition mapped :: "string \<Rightarrow> bool \<Rightarrow> sql_type \<Rightarrow> column" where
  "mapped name is_optional ty = \<lparr>col_name = name, col_type = ty, col_nullable = is_optional, col_primary = False,
     col_identity = False, col_default_now = False, col_references = None\<rparr>"

definition conversation_table :: table_def where
  "conversation_table =
     \<lparr>tab_columns =
        [(mapped ''id'' False Uuid)\<lparr>col_primary := True\<rparr>,
         mapped ''user_a'' False (Varchar USER_ID_LENGTH), mapped ''user_b'' False (Varchar USER_ID_LENGTH),
         (mapped ''created_at'' False Timestamptz)\<lparr>col_default_now := True\<rparr>],
      tab_constraints =
        [Unique ''uq_conversations_pair'' [''user_a'', ''user_b''],
         Check ''ck_conversations_sorted_pair'' (Less_than ''user_a'' ''user_b'')],
      tab_indexes = [\<lparr>idx_name = ''ix_conversations_user_b'', idx_columns = [''user_b''], idx_where = None\<rparr>]\<rparr>"

definition message_table :: table_def where
  "message_table =
     \<lparr>tab_columns =
        [(mapped ''id'' False Uuid)\<lparr>col_primary := True\<rparr>,
         (mapped ''conversation_id'' False Uuid)\<lparr>col_references := Some (''conversations'', ''id'')\<rparr>,
         mapped ''sender_id'' False (Varchar USER_ID_LENGTH), mapped ''recipient_id'' False (Varchar USER_ID_LENGTH),
         mapped ''client_msg_id'' False (Varchar 64), mapped ''body'' True Unbounded_text,
         mapped ''attachment_key'' True (Varchar 512), mapped ''attachment_mime'' True (Varchar 100),
         mapped ''status'' False (Enum_type ''message_status''), mapped ''created_at'' False Timestamptz,
         mapped ''delivered_at'' True Timestamptz, mapped ''read_at'' True Timestamptz],
      tab_constraints =
        [Unique ''uq_messages_sender_client_msg'' [''sender_id'', ''client_msg_id''],
         Check ''ck_messages_has_content'' (Either_not_null ''body'' ''attachment_key'')],
      tab_indexes =
        [\<lparr>idx_name = ''ix_messages_conversation_created'',
          idx_columns = [''conversation_id'', ''created_at DESC'', ''id DESC''], idx_where = None\<rparr>,
         \<lparr>idx_name = ''ix_messages_unread'', idx_columns = [''recipient_id'', ''conversation_id''],
          idx_where = Some unread_predicate\<rparr>]\<rparr>"

definition outbox_table :: table_def where
  "outbox_table =
     \<lparr>tab_columns =
        [(mapped ''id'' False Bigint)\<lparr>col_primary := True, col_identity := True\<rparr>,
         mapped ''topic'' False (Varchar 128), mapped ''payload'' False Jsonb,
         mapped ''created_at'' False Timestamptz, mapped ''published_at'' True Timestamptz],
      tab_constraints = [],
      tab_indexes = [\<lparr>idx_name = ''ix_outbox_pending'', idx_columns = [''id''], idx_where = Some ''published_at IS NULL''\<rparr>]\<rparr>"

definition metadata :: "(string \<times> table_def) list" where
  "metadata = [(''conversations'', conversation_table), (''messages'', message_table), (''outbox'', outbox_table)]"

text \<open>The labels of the enum type: the names of the members of \<open>MessageStatus\<close>.\<close>

fun status_label :: "message_status \<Rightarrow> string" where
  "status_label sent = ''sent''"
| "status_label delivered = ''delivered''"
| "status_label read = ''read''"

section \<open>What a table accepts\<close>

datatype sql_value = Null | Vuuid uuid | Vtext pystr | Venum string | Vtime datetime | Vint int | Vjson json

text \<open>What \<open>jsonb\<close> stores: PostgreSQL has no NUL in text, nor in the strings of a JSON value.\<close>

fun pg_json :: "json \<Rightarrow> bool" where
  "pg_json (JStr s) = pg_text s"
| "pg_json (JArr xs) = (\<forall>x \<in> set xs. pg_json x)"
| "pg_json (JObj kvs) = (\<forall>p \<in> set kvs. pg_text (fst p) \<and> pg_json (snd p))"
| "pg_json j = True"

text \<open>A row as its values by column; \<open>present t c\<close> are the values of column \<open>c\<close> stored in table \<open>t\<close>.\<close>

type_synonym row = "string \<Rightarrow> sql_value"

fun value_fits :: "catalog \<Rightarrow> sql_type \<Rightarrow> sql_value \<Rightarrow> bool" where
  "value_fits cat Uuid (Vuuid u) = True"
| "value_fits cat (Varchar n) (Vtext s) = varchar n s"
| "value_fits cat Unbounded_text (Vtext s) = pg_text s"
| "value_fits cat (Enum_type e) (Venum l) = (case map_of (enums cat) e of Some ls \<Rightarrow> l \<in> set ls | None \<Rightarrow> False)"
| "value_fits cat Timestamptz (Vtime t) = True"
| "value_fits cat Bigint (Vint i) = (- (2 ^ 63) \<le> i \<and> i < 2 ^ 63)"
| "value_fits cat Jsonb (Vjson j) = pg_json j"
| "value_fits cat ty v = False"

definition column_accepts :: "catalog \<Rightarrow> (string \<Rightarrow> string \<Rightarrow> sql_value set) \<Rightarrow> row \<Rightarrow> column \<Rightarrow> bool" where
  "column_accepts cat present r c \<longleftrightarrow>
     (let v = r (col_name c)
      in if v = Null then col_nullable c
         else value_fits cat (col_type c) v \<and>
           (case col_references c of Some (t, k) \<Rightarrow> v \<in> present t k | None \<Rightarrow> True))"

text \<open>A comparison with a null is unknown, and a check that is not false passes.\<close>

fun check_passes :: "(pystr \<Rightarrow> pystr \<Rightarrow> bool) \<Rightarrow> row \<Rightarrow> table_constraint \<Rightarrow> bool" where
  "check_passes collate r (Check n (Less_than a b)) =
     (case (r a, r b) of (Vtext x, Vtext y) \<Rightarrow> collate x y | (x, y) \<Rightarrow> x = Null \<or> y = Null)"
| "check_passes collate r (Check n (Either_not_null a b)) = (r a \<noteq> Null \<or> r b \<noteq> Null)"
| "check_passes collate r (Unique n cols) = True"

definition table_accepts ::
  "catalog \<Rightarrow> (pystr \<Rightarrow> pystr \<Rightarrow> bool) \<Rightarrow> (string \<Rightarrow> string \<Rightarrow> sql_value set) \<Rightarrow> string \<Rightarrow> row \<Rightarrow> bool"
where
  "table_accepts cat collate present t r \<longleftrightarrow>
     (case map_of (tables cat) t of
        None \<Rightarrow> False
      | Some d \<Rightarrow> list_all (column_accepts cat present r) (tab_columns d) \<and> list_all (check_passes collate r) (tab_constraints d))"

text \<open>Two rows clash when they agree, without nulls, on the columns of a unique constraint.\<close>

definition rows_clash :: "catalog \<Rightarrow> string \<Rightarrow> row \<Rightarrow> row \<Rightarrow> bool" where
  "rows_clash cat t r r' \<longleftrightarrow>
     (case map_of (tables cat) t of
        None \<Rightarrow> False
      | Some d \<Rightarrow> (\<exists>k \<in> set (tab_constraints d). case k of
            Unique n cols \<Rightarrow> list_all (\<lambda>c. r c = r' c \<and> r c \<noteq> Null) cols
          | Check n e \<Rightarrow> False))"

text \<open>The rows of the model as SQL values.\<close>

definition conversation_row :: "conversation \<Rightarrow> row" where
  "conversation_row c = (\<lambda>_. Null)(''id'' := Vuuid (conv_id c), ''user_a'' := Vtext (user_a c),
     ''user_b'' := Vtext (user_b c), ''created_at'' := Vtime (conv_created_at c))"

definition or_null :: "('a \<Rightarrow> sql_value) \<Rightarrow> 'a option \<Rightarrow> sql_value" where
  "or_null f x = (case x of None \<Rightarrow> Null | Some v \<Rightarrow> f v)"

definition message_row :: "message \<Rightarrow> row" where
  "message_row m = (\<lambda>_. Null)(''id'' := Vuuid (msg_id m), ''conversation_id'' := Vuuid (conversation_id m),
     ''sender_id'' := Vtext (sender_id m), ''recipient_id'' := Vtext (recipient_id m),
     ''client_msg_id'' := Vtext (client_msg_id m), ''body'' := or_null Vtext (body m),
     ''attachment_key'' := or_null Vtext (attachment_key m), ''attachment_mime'' := or_null Vtext (attachment_mime m),
     ''status'' := Venum (status_label (status m)), ''created_at'' := Vtime (created_at m),
     ''delivered_at'' := or_null Vtime (delivered_at m), ''read_at'' := or_null Vtime (read_at m))"

definition event_row :: "outbox_row \<Rightarrow> row" where
  "event_row r = (\<lambda>_. Null)(''id'' := Vint (int (ob_id r)), ''topic'' := Vtext (topic r), ''payload'' := Vjson (payload r),
     ''created_at'' := Vtime (ob_created_at r), ''published_at'' := or_null Vtime (published_at r))"

definition conversation_ids :: "conversation list \<Rightarrow> string \<Rightarrow> string \<Rightarrow> sql_value set" where
  "conversation_ids convs t k = (if t = ''conversations'' \<and> k = ''id'' then (\<lambda>c. Vuuid (conv_id c)) ` set convs else {})"

section \<open>Properties\<close>

text \<open>A catalogue whose columns name existing types and tables, and one that has no object of the application.\<close>

definition catalog_ok :: "catalog \<Rightarrow> bool" where
  "catalog_ok cat \<longleftrightarrow> (\<forall>(t, d) \<in> set (tables cat). list_all (names_known cat) (tab_columns d))"

definition schema_free :: "catalog \<Rightarrow> bool" where
  "schema_free cat \<longleftrightarrow> ''message_status'' \<notin> fst ` set (enums cat) \<and>
     (\<forall>(t, d) \<in> set (tables cat). t \<notin> fst ` set metadata \<and>
        (\<forall>i \<in> set (tab_indexes d). \<forall>(t', d') \<in> set metadata. idx_name i \<notin> idx_name ` set (tab_indexes d')))"

definition schema_tables :: "string set" where
  "schema_tables = {''conversations'', ''messages'', ''outbox''}"

lemma schema_tables_simps [simp]:
  "''conversations'' \<in> schema_tables" "''messages'' \<in> schema_tables" "''outbox'' \<in> schema_tables"
  by (simp_all add: schema_tables_def)

lemma metadata_names: "fst ` set metadata = schema_tables"
  by (simp add: metadata_def schema_tables_def)

lemma schema_free_table: "schema_free cat \<Longrightarrow> n \<in> schema_tables \<Longrightarrow> (n, d) \<notin> set (tables cat)"
  by (auto simp: schema_free_def metadata_names)

lemma schema_free_names [simp]:
  assumes "schema_free cat"
  shows "n \<in> schema_tables \<Longrightarrow> n \<notin> fst ` set (tables cat)" "''message_status'' \<notin> fst ` set (enums cat)"
  using schema_free_table [OF assms] assms by (auto simp: schema_free_def)

lemma other_tables_kept [simp]:
  assumes "schema_free cat" "n \<in> schema_tables"
  shows "map (\<lambda>(t, d). (t, if t = n then f d else d)) (tables cat) = tables cat"
    "filter (\<lambda>(t, d). t \<noteq> n) (tables cat) = tables cat"
  using schema_free_table [OF assms] by (auto intro!: map_idI simp: filter_id_conv)

text \<open>Operations on the application's own objects work on top of any other catalogue as they do alone.\<close>

definition on_top :: "catalog \<Rightarrow> catalog \<Rightarrow> catalog" where
  "on_top cat e = cat\<lparr>enums := enums cat @ enums e, tables := tables cat @ tables e\<rparr>"

definition schema_indexes :: "string set" where
  "schema_indexes = set (concat (map (\<lambda>(t, d). map idx_name (tab_indexes d)) metadata))"

lemma schema_indexes_simps [simp]:
  "''ix_conversations_user_b'' \<in> schema_indexes" "''ix_messages_conversation_created'' \<in> schema_indexes"
  "''ix_messages_unread'' \<in> schema_indexes" "''ix_outbox_pending'' \<in> schema_indexes"
  by (simp_all add: schema_indexes_def metadata_def conversation_table_def message_table_def outbox_table_def)

fun op_local :: "migration_op \<Rightarrow> bool" where
  "op_local (Create_enum n ls) = (n = ''message_status'')"
| "op_local (Create_table n cols ks) = (n \<in> schema_tables)"
| "op_local (Create_index i n cols wh) = (n \<in> schema_tables \<and> i \<in> schema_indexes)"
| "op_local (Drop_table n) = (n \<in> schema_tables)"
| "op_local (Drop_enum n) = (n = ''message_status'')"

lemma names_known_on_top: "names_known e c \<Longrightarrow> names_known (on_top cat e) c"
  by (auto simp: names_known_def on_top_def split: sql_type.splits option.splits)

lemma schema_free_index:
  "schema_free cat \<Longrightarrow> i \<in> schema_indexes \<Longrightarrow> (t, d) \<in> set (tables cat) \<Longrightarrow> i \<notin> idx_name ` set (tab_indexes d)"
  unfolding schema_free_def schema_indexes_def by fastforce

lemma others_do_not_refer:
  assumes "schema_free cat" "catalog_ok cat" "(t, d) \<in> set (tables cat)"
  shows "n \<in> schema_tables \<Longrightarrow> \<not> references_table n d" "\<not> uses_enum ''message_status'' d"
proof -
  have k: "names_known cat c" if "c \<in> set (tab_columns d)" for c
    using assms(2,3) that by (fastforce simp: catalog_ok_def list_all_iff)
  show "\<not> references_table n d" if "n \<in> schema_tables"
    using k schema_free_names(1) [OF assms(1) that]
    by (force simp: references_table_def names_known_def split: option.splits)
  show "\<not> uses_enum ''message_status'' d"
    using k schema_free_names(2) [OF assms(1)] by (force simp: uses_enum_def names_known_def)
qed

lemma apply_op_on_top:
  assumes "schema_free cat" "catalog_ok cat" "op_local op" "apply_op op e = Inr e'"
  shows "apply_op op (on_top cat e) = Inr (on_top cat e')"
proof (cases op)
  case (Create_enum n ls)
  then have n: "n = ''message_status''" using assms(3) by simp
  from schema_free_names(2) [OF assms(1)] have "n \<in> fst ` set (enums (on_top cat e)) \<longleftrightarrow> n \<in> fst ` set (enums e)"
    unfolding n by (simp add: on_top_def image_Un)
  then show ?thesis using Create_enum assms(4) by (auto simp: on_top_def simp del: set_append split: if_splits)
next
  case (Create_table n cols ks)
  then have "list_all (names_known (on_top cat e)) cols"
    using assms(4) names_known_on_top by (auto simp: list_all_iff split: if_splits)
  moreover have "n \<notin> fst ` set (tables (on_top cat e))"
    using Create_table assms(3,4) schema_free_names(1) [OF assms(1)] by (auto simp: on_top_def split: if_splits)
  ultimately show ?thesis using Create_table assms(4) by (auto simp: on_top_def split: if_splits)
next
  case (Create_index i n cols wh)
  then have l: "n \<in> schema_tables" "i \<in> schema_indexes" using assms(3) by simp_all
  have m: "map (\<lambda>(t, d). (t, if t = n then f d else d)) (tables cat) = tables cat" for f
    by (rule other_tables_kept [OF assms(1) l(1)])
  have "\<not> (\<exists>(t, d) \<in> set (tables (on_top cat e)). i \<in> idx_name ` set (tab_indexes d))"
    using Create_index assms(4) schema_free_index [OF assms(1) l(2)] by (fastforce simp: on_top_def split: if_splits)
  moreover have "n \<in> fst ` set (tables (on_top cat e))"
    using Create_index assms(4) by (auto simp: on_top_def split: if_splits)
  ultimately show ?thesis using Create_index assms(4) m by (auto simp: on_top_def simp del: set_append split: if_splits)
next
  case (Drop_table n)
  then have l: "n \<in> schema_tables" using assms(3) by simp
  have "\<not> (\<exists>(t, d) \<in> set (tables (on_top cat e)). t \<noteq> n \<and> references_table n d)"
    using Drop_table assms(4) others_do_not_refer(1) [OF assms(1,2) _ l] by (fastforce simp: on_top_def split: if_splits)
  moreover have "n \<in> fst ` set (tables (on_top cat e))"
    using Drop_table assms(4) by (auto simp: on_top_def split: if_splits)
  ultimately show ?thesis
    using Drop_table assms(4) other_tables_kept(2) [OF assms(1) l] by (auto simp: on_top_def split: if_splits)
next
  case (Drop_enum n)
  then have "\<not> (\<exists>(t, d) \<in> set (tables (on_top cat e)). uses_enum n d)"
    using assms(3,4) others_do_not_refer(2) [OF assms(1,2)] by (fastforce simp: on_top_def split: if_splits)
  moreover have "filter (\<lambda>(e, l). e \<noteq> n) (enums cat) = enums cat"
    using Drop_enum assms(3) schema_free_names(2) [OF assms(1)] by (force simp: filter_id_conv)
  ultimately show ?thesis using Drop_enum assms(4) by (auto simp: on_top_def simp del: set_append split: if_splits)
qed

lemma migrate_on_top:
  assumes "schema_free cat" "catalog_ok cat"
  shows "list_all op_local ops \<Longrightarrow> migrate ops e = Inr e' \<Longrightarrow> migrate ops (on_top cat e) = Inr (on_top cat e')"
proof (induction ops arbitrary: e)
  case (Cons op ops)
  then obtain e1 where "apply_op op e = Inr e1" "migrate ops e1 = Inr e'" by (auto split: sum.splits)
  with Cons show ?case using apply_op_on_top [OF assms, of op e e1] by simp
qed simp

definition app_schema :: catalog where
  "app_schema = \<lparr>enums = [(''message_status'', map status_label [sent, delivered, read])], tables = metadata\<rparr>"

lemma upgrade_alone: "migrate upgrade \<lparr>enums = [], tables = []\<rparr> = Inr app_schema"
  by (simp add: upgrade_def names_known_def column_def primary_column_def app_schema_def metadata_def conversation_table_def
      message_table_def outbox_table_def mapped_def USER_ID_LENGTH_def)

lemma downgrade_alone: "migrate downgrade app_schema = Inr \<lparr>enums = [], tables = []\<rparr>"
  by (simp add: downgrade_def app_schema_def metadata_def conversation_table_def message_table_def outbox_table_def
      mapped_def references_table_def uses_enum_def)

lemma local_ops: "list_all op_local upgrade" "list_all op_local downgrade"
  by (simp_all add: upgrade_def downgrade_def)

lemma on_top_empty [simp]: "on_top cat \<lparr>enums = [], tables = []\<rparr> = cat"
  by (simp add: on_top_def)

lemma upgrade_result:
  "schema_free cat \<Longrightarrow> catalog_ok cat \<Longrightarrow> migrate upgrade cat = Inr (on_top cat app_schema)"
  using migrate_on_top [OF _ _ local_ops(1) upgrade_alone, of cat] by simp

text \<open>
  C32. The migration creates the schema the models declare: on any catalogue that has none of the
  application's objects, the upgrade succeeds and adds exactly the enum type with the statuses' names
  and the three tables of the models, column by column with types, nullability, defaults, keys, checks
  and indexes; and the downgrade takes exactly these away again.
\<close>

theorem migration_creates_models_schema:
  assumes "schema_free cat" "catalog_ok cat"
  shows "\<exists>cat'. migrate upgrade cat = Inr cat' \<and> tables cat' = tables cat @ metadata \<and>
    enums cat' = enums cat @ [(''message_status'', map status_label [sent, delivered, read])] \<and>
    migrate downgrade cat' = Inr cat"
  using upgrade_result [OF assms] migrate_on_top [OF assms local_ops(2) downgrade_alone]
  by (intro exI [of _ "on_top cat app_schema"]) (simp add: on_top_def app_schema_def)

lemma map_of_on_top:
  assumes "schema_free cat"
  shows "map_of (tables (on_top cat app_schema)) ''conversations'' = Some conversation_table"
    "map_of (tables (on_top cat app_schema)) ''messages'' = Some message_table"
    "map_of (tables (on_top cat app_schema)) ''outbox'' = Some outbox_table"
    "map_of (enums (on_top cat app_schema)) ''message_status'' = Some (map status_label [sent, delivered, read])"
proof -
  have n: "map_of (tables cat) n = None" if "n \<in> schema_tables" for n
    using schema_free_names(1) [OF assms that] by (simp add: map_of_eq_None_iff)
  have e: "map_of (enums cat) ''message_status'' = None"
    using schema_free_names(2) [OF assms] by (simp add: map_of_eq_None_iff)
  show "map_of (tables (on_top cat app_schema)) ''conversations'' = Some conversation_table"
    "map_of (tables (on_top cat app_schema)) ''messages'' = Some message_table"
    "map_of (tables (on_top cat app_schema)) ''outbox'' = Some outbox_table"
    by (simp_all add: on_top_def app_schema_def metadata_def map_add_def n)
  show "map_of (enums (on_top cat app_schema)) ''message_status'' = Some (map status_label [sent, delivered, read])"
    by (simp add: on_top_def app_schema_def map_add_def e)
qed

lemma or_null_simps [simp]: "or_null f None = Null" "or_null f (Some v) = f v"
  by (simp_all add: or_null_def)

lemma status_label_known: "status_label s \<in> set (map status_label [sent, delivered, read])"
  by (cases s) simp_all

lemma conversation_row_accepted:
  assumes "schema_free cat"
  shows "table_accepts (on_top cat app_schema) coll present ''conversations'' (conversation_row c) \<longleftrightarrow> conversation_check coll c"
  by (simp add: table_accepts_def map_of_on_top [OF assms] conversation_table_def column_accepts_def mapped_def
      conversation_row_def conversation_check_def Let_def)

lemma message_row_accepted:
  assumes "schema_free cat"
  shows "table_accepts (on_top cat app_schema) coll (conversation_ids convs) ''messages'' (message_row m) \<longleftrightarrow> message_check convs m"
proof -
  have "list_all (check_passes coll (message_row m)) (tab_constraints message_table) \<longleftrightarrow> body m \<noteq> None \<or> attachment_key m \<noteq> None"
    by (cases "body m"; cases "attachment_key m") (simp_all add: message_table_def message_row_def)
  moreover have "list_all (column_accepts (on_top cat app_schema) (conversation_ids convs) (message_row m)) (tab_columns message_table) \<longleftrightarrow>
    varchar USER_ID_LENGTH (sender_id m) \<and> varchar USER_ID_LENGTH (recipient_id m) \<and>
     varchar 64 (client_msg_id m) \<and> opt_all pg_text (body m) \<and> opt_all (varchar 512) (attachment_key m) \<and>
     opt_all (varchar 100) (attachment_mime m) \<and> conversation_id m \<in> conv_id ` set convs"
    using status_label_known [of "status m"]
    by (cases "body m"; cases "attachment_key m"; cases "attachment_mime m"; cases "delivered_at m"; cases "read_at m")
      (auto simp: message_table_def column_accepts_def mapped_def message_row_def map_of_on_top [OF assms] opt_all_def
        conversation_ids_def Let_def)
  ultimately show ?thesis by (auto simp: table_accepts_def map_of_on_top [OF assms] message_check_def)
qed

lemma event_row_accepted:
  assumes "schema_free cat" "ob_id r < 2 ^ 63"
  shows "table_accepts (on_top cat app_schema) coll present ''outbox'' (event_row r) \<longleftrightarrow> varchar 128 (topic r) \<and> pg_json (payload r)"
  using assms(2) by (cases "published_at r")
    (simp_all add: table_accepts_def map_of_on_top [OF assms(1)] outbox_table_def column_accepts_def mapped_def event_row_def Let_def)

lemma rows_clash_keys:
  assumes "schema_free cat"
  shows "rows_clash (on_top cat app_schema) ''conversations'' (conversation_row c) (conversation_row c') \<longleftrightarrow> pair_key c = pair_key c'"
    "rows_clash (on_top cat app_schema) ''messages'' (message_row m) (message_row m') \<longleftrightarrow> client_key m = client_key m'"
  by (simp_all add: rows_clash_def map_of_on_top [OF assms] conversation_table_def message_table_def conversation_row_def
      message_row_def pair_key_def client_key_def)

text \<open>
  C16. The migrated schema enforces what the model of the tables says: a row passes the columns, foreign
  key and checks of its migrated table if and only if the model's check of the row holds, and two rows
  clash on a unique constraint if and only if they have the same key in the model.
\<close>

theorem schema_enforces_row_checks:
  assumes "schema_free cat" "catalog_ok cat" "migrate upgrade cat = Inr cat'" "ob_id r < 2 ^ 63"
  shows "table_accepts cat' coll (conversation_ids convs) ''conversations'' (conversation_row c) = conversation_check coll c \<and>
    table_accepts cat' coll (conversation_ids convs) ''messages'' (message_row m) = message_check convs m \<and>
    table_accepts cat' coll (conversation_ids convs) ''outbox'' (event_row r) = (varchar 128 (topic r) \<and> pg_json (payload r)) \<and>
    rows_clash cat' ''conversations'' (conversation_row c) (conversation_row c') = (pair_key c = pair_key c') \<and>
    rows_clash cat' ''messages'' (message_row m) (message_row m') = (client_key m = client_key m')"
proof -
  have "cat' = on_top cat app_schema" using upgrade_result [OF assms(1,2)] assms(3) by simp
  then show ?thesis
    using conversation_row_accepted message_row_accepted event_row_accepted [OF assms(1,4)] rows_clash_keys assms(1) by simp
qed

section \<open>Witnesses\<close>

text \<open>A database that holds Alembic's own version table.\<close>

definition stamped :: catalog where
  "stamped = \<lparr>enums = [], tables = [(''alembic_version'', \<lparr>tab_columns = [primary_column ''version_num'' (Varchar 32)],
     tab_constraints = [], tab_indexes = []\<rparr>)]\<rparr>"

lemma stamped_ok: "schema_free stamped" "catalog_ok stamped"
  by (simp_all add: stamped_def schema_free_def catalog_ok_def metadata_def names_known_def primary_column_def column_def)

theorem migration_creates_models_schema_witness:
  "\<exists>cat'. migrate upgrade stamped = Inr cat' \<and> map fst (tables cat') = [''alembic_version'', ''conversations'', ''messages'', ''outbox''] \<and>
     migrate downgrade cat' = Inr stamped"
proof -
  obtain cat' where m: "migrate upgrade stamped = Inr cat'" "tables cat' = tables stamped @ metadata" "migrate downgrade cat' = Inr stamped"
    using migration_creates_models_schema [OF stamped_ok] by blast
  then show ?thesis by (intro exI [of _ cat']) (simp add: stamped_def metadata_def)
qed

definition sample_time :: datetime where
  "sample_time = \<lparr>dt_year = 2026, dt_month = 9, dt_day = 10, dt_hour = 12, dt_minute = 0, dt_second = 0, dt_micro = 0, dt_offset = Some 0\<rparr>"

text \<open>A message with neither body nor attachment is refused, a conversation of two short ids accepted.\<close>

theorem schema_enforces_row_checks_witness:
  "\<exists>cat'. migrate upgrade stamped = Inr cat' \<and>
     table_accepts cat' (<) (\<lambda>t k. {}) ''conversations''
       (conversation_row \<lparr>conv_id = 1, user_a = [97], user_b = [98], conv_created_at = sample_time\<rparr>) \<and>
     \<not> table_accepts cat' (<) (conversation_ids [\<lparr>conv_id = 1, user_a = [97], user_b = [98], conv_created_at = sample_time\<rparr>]) ''messages''
       (message_row \<lparr>msg_id = 2, conversation_id = 1, sender_id = [97], recipient_id = [98], client_msg_id = [49], body = None,
          attachment_key = None, attachment_mime = None, status = sent, created_at = sample_time, delivered_at = None, read_at = None\<rparr>)"
proof -
  let ?c = "\<lparr>conv_id = 1, user_a = [97], user_b = [98], conv_created_at = sample_time\<rparr>"
  let ?m = "\<lparr>msg_id = 2, conversation_id = 1, sender_id = [97], recipient_id = [98], client_msg_id = [49], body = None,
    attachment_key = None, attachment_mime = None, status = sent, created_at = sample_time, delivered_at = None, read_at = None\<rparr>"
  let ?r = "\<lparr>ob_id = 1, topic = [], payload = JNull, ob_created_at = sample_time, published_at = None\<rparr>"
  have "\<exists>cat'. migrate upgrade stamped = Inr cat'" by (metis upgrade_result [OF stamped_ok])
  then obtain cat' where u: "migrate upgrade stamped = Inr cat'" by blast
  have o: "ob_id ?r < 2 ^ 63" by simp
  note e = schema_enforces_row_checks [OF stamped_ok u o, where coll = "(<)" and m = ?m and m' = ?m and c = ?c and c' = ?c]
  have n: "conversation_ids [] = (\<lambda>t k. {})" by (auto simp: conversation_ids_def fun_eq_iff)
  have "conversation_check (<) ?c" by (simp add: conversation_check_def varchar_def pg_text_def USER_ID_LENGTH_def)
  then have "table_accepts cat' (<) (\<lambda>t k. {}) ''conversations'' (conversation_row ?c)" using e [of "[]"] by (simp add: n)
  moreover have "\<not> message_check [?c] ?m" by (simp add: message_check_def)
  then have "\<not> table_accepts cat' (<) (conversation_ids [?c]) ''messages'' (message_row ?m)" using e [of "[?c]"] by simp
  ultimately show ?thesis using u by blast
qed

end
