(* ===== verification/Cursors.thy ===== *)
theory Cursors
  imports Ids Codecs
begin

text \<open>
  \<open>encode_cursor\<close> and \<open>decode_cursor\<close> of \<^verbatim>\<open>app/ids.py\<close>, the round trip, and the contract of a
  cursor codec as a locale: what the message listing relies on.
\<close>

section \<open>The cursor functions\<close>

definition encode_cursor :: "datetime \<Rightarrow> uuid \<Rightarrow> pystr" where
  "encode_cursor created_at message_id =
     (let raw = utf8_encode (isoformat created_at @ lit ''|'' @ uuid_str message_id)
      in rstrip_where (\<lambda>c. c = 61) (b64_encode raw))"

text \<open>\<open>None\<close> is the \<open>ValueError("invalid cursor")\<close> every failure ends in.\<close>

definition decode_cursor :: "pystr \<Rightarrow> (datetime \<times> uuid) option" where
  "decode_cursor cursor =
     (let padded = cursor @ replicate (nat (- int (length cursor) mod 4)) 61
      in case Option.bind (b64_decode padded) utf8_decode of
           None \<Rightarrow> None
         | Some text \<Rightarrow>
             (case py_split1 124 text of
                [created_raw, id_raw] \<Rightarrow>
                  (case (fromisoformat created_raw, uuid_parse id_raw) of
                     (Some created_at, Some i) \<Rightarrow> Some (created_at, i)
                   | _ \<Rightarrow> None)
              | _ \<Rightarrow> None))"

section \<open>Round trip\<close>

lemma pad_restore:
  assumes "(length body + k) mod 4 = 0" "k < 3" "61 \<notin> set body"
  shows "rstrip_where (\<lambda>c. c = 61) (body @ replicate k 61) = body"
    and "nat (- int (length body) mod 4) = k"
proof -
  have "dropWhile (\<lambda>c. c = 61) (rev body) = rev body"
    using assms(3) by (cases body rule: rev_cases) auto
  moreover have "dropWhile (\<lambda>c. c = 61) (replicate n 61 @ xs) = dropWhile (\<lambda>c. c = 61) xs"
    for n and xs :: pystr by (induction n) auto
  ultimately show "rstrip_where (\<lambda>c. c = 61) (body @ replicate k 61) = body"
    by (simp add: rstrip_where_def)
next
  show "nat (- int (length body) mod 4) = k"
  proof -
    have "(int (length body) + int k) mod 4 = 0"
      using arg_cong [OF assms(1), of int] by (simp add: zmod_int)
    then have "- int (length body) mod 4 = int k mod 4" by presburger
    then show ?thesis using assms(2) by simp
  qed
qed

lemma cursor_text_ascii:
  "c \<in> set (isoformat d @ lit ''|'' @ uuid_str u) \<Longrightarrow> c < 128"
  by (auto simp: lit_Cons dest!: isoformat_chars uuid_str_range)

lemma cursor_text_coded:
  fixes d u
  defines "t \<equiv> isoformat d @ lit ''|'' @ uuid_str u"
  obtains body k where "b64_encode t = body @ replicate k 61" "61 \<notin> set body" "k < 3"
    "(length body + k) mod 4 = 0" "b64_decode (body @ replicate k 61) = Some t"
    "utf8_decode t = Some t" "encode_cursor d u = body"
proof -
  have asc: "c < 128" if "c \<in> set t" for c
    using that cursor_text_ascii unfolding t_def by blast
  then have raw: "utf8_encode t = t" "utf8_decode t = Some t"
    by (simp_all add: utf8_encode_ascii utf8_decode_ascii)
  have byte: "\<forall>c \<in> set t. c < 256"
    by (auto dest!: asc)
  obtain body k where e: "b64_encode t = body @ replicate k 61" and
    s: "61 \<notin> set body" "k < 3" "(length body + k) mod 4 = 0"
    using b64_encode_shape [OF byte] by (elim exE conjE)
  have enc: "encode_cursor d u = body"
    by (simp only: encode_cursor_def Let_def t_def [symmetric] raw e pad_restore [OF s(3,2,1)])
  show ?thesis
    by (rule that [OF e s b64_decode_encode [OF byte, unfolded e] raw(2) enc])
qed

lemma decode_encode_cursor:
  assumes "valid_dt d"
  shows "decode_cursor (encode_cursor d u) = Some (d, u)"
proof -
  obtain body k where b: "61 \<notin> set body" "k < 3" "(length body + k) mod 4 = 0"
    "b64_decode (body @ replicate k 61) = Some (isoformat d @ lit ''|'' @ uuid_str u)"
    "utf8_decode (isoformat d @ lit ''|'' @ uuid_str u) = Some (isoformat d @ lit ''|'' @ uuid_str u)"
    "encode_cursor d u = body"
    using cursor_text_coded by metis
  have "124 \<notin> set (isoformat d)" using isoformat_chars by blast
  then have "py_split1 124 (isoformat d @ lit ''|'' @ uuid_str u) = [isoformat d, uuid_str u]"
    by (simp add: lit_Cons py_split1_first)
  then show ?thesis
    by (simp add: decode_cursor_def Let_def b pad_restore [OF b(3,2,1)]
        fromisoformat_isoformat [OF assms])
qed

lemma b64_encode_empty: "b64_encode bs = [] \<longleftrightarrow> bs = []"
  by (cases bs rule: b64_encode.cases) auto

lemma encode_cursor_nonempty [simp]: "encode_cursor d u \<noteq> []"
proof
  assume "encode_cursor d u = []"
  obtain body k where b: "b64_encode (isoformat d @ lit ''|'' @ uuid_str u) = body @ replicate k 61"
    "k < 3" "(length body + k) mod 4 = 0" "encode_cursor d u = body"
    using cursor_text_coded by metis
  with \<open>encode_cursor d u = []\<close> have "b64_encode (isoformat d @ lit ''|'' @ uuid_str u) = []" by simp
  then show False by (simp add: b64_encode_empty)
qed

section \<open>The codec contract\<close>

text \<open>
  What a client of cursors needs: a valid position is encoded as a non-empty text that
  decodes to the same position. Injectivity follows.
\<close>

locale cursor_codec =
  fixes enc :: "'t \<Rightarrow> 'i \<Rightarrow> pystr"
    and dec :: "pystr \<Rightarrow> ('t \<times> 'i) option"
    and valid :: "'t \<Rightarrow> bool"
  assumes dec_enc: "valid t \<Longrightarrow> dec (enc t i) = Some (t, i)"
    and enc_nonempty: "enc t i \<noteq> []"
begin

lemma enc_inject: "valid t \<Longrightarrow> valid t' \<Longrightarrow> enc t i = enc t' i' \<longleftrightarrow> t = t' \<and> i = i'"
  using dec_enc by (metis option.inject prod.inject)

end

interpretation cursors: cursor_codec encode_cursor decode_cursor valid_dt
  by unfold_locales (simp_all add: decode_encode_cursor)

section \<open>Properties\<close>

text \<open>
  C25. A cursor decodes to the position it was made from: for every valid datetime and every
  message id, \<open>decode_cursor (encode_cursor created_at id)\<close> returns that datetime and id,
  through isoformat, UTF-8, base64 with its padding stripped and restored, and UUID text.
\<close>

theorem cursor_round_trip:
  "valid_dt created_at \<Longrightarrow>
     decode_cursor (encode_cursor created_at message_id) = Some (created_at, message_id)"
  by (rule cursors.dec_enc)

theorem cursor_round_trip_witness:
  "decode_cursor (encode_cursor \<lparr>dt_year = 2026, dt_month = 9, dt_day = 10, dt_hour = 12, dt_minute = 0,
      dt_second = 5, dt_micro = 250, dt_offset = Some 0\<rparr> 7) =
    Some (\<lparr>dt_year = 2026, dt_month = 9, dt_day = 10, dt_hour = 12, dt_minute = 0,
      dt_second = 5, dt_micro = 250, dt_offset = Some 0\<rparr>, 7)"
  by (rule cursor_round_trip) (simp add: valid_dt_def days_in_month_def)

end
