(* ===== verification/Chat.thy ===== *)
theory Chat
  imports Session Cursors
begin

text \<open>
  \<^verbatim>\<open>app/services/chat.py\<close>: the message flow. Every method of \<open>ChatService\<close> is a definition over
  the session state; a raised exception is \<open>Inl\<close>. \<open>send_message\<close> is the composition of its two
  atomic phases: the checks and the first lookup (\<open>send_prepare\<close>), and the transaction that inserts
  and commits (\<open>send_insert\<close>), between which other sessions may commit.
\<close>

section \<open>Helpers\<close>

definition user_topic :: "pystr \<Rightarrow> pystr" where
  "user_topic user_id = lit ''user:'' @ user_id"

definition make_event :: "pystr \<Rightarrow> json \<Rightarrow> json" where
  "make_event event_type data = JObj [(lit ''type'', JStr event_type), (lit ''data'', data)]"

text \<open>The sort key of a message, \<open>(created_at, id)\<close>, and of a cursor.\<close>

definition key_of :: "datetime \<Rightarrow> uuid \<Rightarrow> int \<times> uuid" where
  "key_of t i = (instant t, i)"

definition message_key :: "message \<Rightarrow> int \<times> uuid" where
  "message_key m = key_of (created_at m) (msg_id m)"

definition to_out :: "world \<Rightarrow> settings \<Rightarrow> message \<Rightarrow> message_out" where
  "to_out w S m =
     \<lparr>out_id = msg_id m, out_conversation_id = conversation_id m, out_sender_id = sender_id m,
      out_recipient_id = recipient_id m, out_client_msg_id = client_msg_id m, out_body = body m,
      out_attachment_key = attachment_key m, out_attachment_mime = attachment_mime m,
      out_attachment_url =
        (case attachment_key m of
           Some k \<Rightarrow> if k \<noteq> [] then Some (presign_download S (w_sign w) k) else None
         | None \<Rightarrow> None),
      out_status = status m, out_created_at = created_at m, out_delivered_at = delivered_at m,
      out_read_at = read_at m, out_cursor = encode_cursor (created_at m) (msg_id m)\<rparr>"

definition enqueue :: "pystr list \<Rightarrow> pystr \<Rightarrow> json \<Rightarrow> sess \<Rightarrow> sess" where
  "enqueue recipients event_type data s =
     s\<lparr>pending := pending s @ map (\<lambda>u. (user_topic u, make_event event_type data)) (fromkeys recipients)\<rparr>"

definition parse_cursor :: "pystr \<Rightarrow> exn + (datetime \<times> uuid)" where
  "parse_cursor raw =
     (case decode_cursor raw of
        None \<Rightarrow> Inl (AppError 400 (lit ''invalid_cursor'') (lit ''Malformed pagination cursor''))
      | Some c \<Rightarrow> Inr c)"

definition get_conversation :: "pystr \<Rightarrow> uuid \<Rightarrow> sess \<Rightarrow> exn + conversation" where
  "get_conversation user_id cid s =
     (case find (\<lambda>c. conv_id c = cid) (conversations (work s)) of
        None \<Rightarrow> Inl (NotFoundError (lit ''Conversation not found''))
      | Some c \<Rightarrow>
          if user_id = user_a c \<or> user_id = user_b c then Inr c
          else Inl (NotFoundError (lit ''Conversation not found'')))"

definition get_or_create_conversation ::
  "world \<Rightarrow> pystr \<Rightarrow> pystr \<Rightarrow> sess \<Rightarrow> (exn + conversation) \<times> sess"
where
  "get_or_create_conversation w user_1 user_2 s =
     (let a = min user_1 user_2; b = max user_1 user_2;
          row = \<lparr>conv_id = uuid7 (w_conv_ms w) (w_conv_rand w), user_a = a, user_b = b,
                 conv_created_at = w_db_now w\<rparr>
      in case pg_insert (conversation_check (w_collate w)) pair_key conv_id row (conversations (work s)) of
           Inl e \<Rightarrow> (Inl e, s)
         | Inr (_, tab) \<Rightarrow>
             let s' = s\<lparr>work := (work s)\<lparr>conversations := tab\<rparr>\<rparr>
             in (exactly_one (filter (\<lambda>c. user_a c = a \<and> user_b c = b) tab), s'))"

text \<open>PostgreSQL takes no NUL in a text parameter; the driver's error is a \<open>DBAPIError\<close>.\<close>

definition by_client_msg_id :: "pystr \<Rightarrow> pystr \<Rightarrow> db \<Rightarrow> exn + message option" where
  "by_client_msg_id sender cmid d =
     (if \<not> (pg_text sender \<and> pg_text cmid) then Inl DBAPIError
      else one_or_none (filter (\<lambda>m. sender_id m = sender \<and> client_msg_id m = cmid) (messages d)))"

definition same_content :: "message \<Rightarrow> send_request \<Rightarrow> bool" where
  "same_content m r \<longleftrightarrow> recipient_id m = req_recipient_id r \<and> body m = req_body r \<and>
     attachment_key m = req_attachment_key r"

definition replay ::
  "world \<Rightarrow> settings \<Rightarrow> message \<Rightarrow> send_request \<Rightarrow> sess \<Rightarrow> (exn + message_out) \<times> sess"
where
  "replay w S m r s =
     (if \<not> same_content m r then
        (Inl (AppError 409 (lit ''idempotency_conflict'')
           (lit ''client_msg_id was already used for another message'')), s)
      else (Inr (to_out w S m), s\<lparr>m_replayed := m_replayed s + 1\<rparr>))"

definition check_attachment :: "world \<Rightarrow> settings \<Rightarrow> pystr \<Rightarrow> pystr \<Rightarrow> exn + pystr" where
  "check_attachment w S sender key =
     (if \<not> prefix (lit ''u/'' @ sender @ lit ''/'') key
      then Inl (AppError 422 (lit ''invalid_attachment'') (lit ''attachment_key was not issued to you''))
      else case head (w_head w key) of
        Inl e \<Rightarrow> Inl e
      | Inr None \<Rightarrow>
          Inl (AppError 422 (lit ''attachment_not_found'') (lit ''Upload the file before sending it''))
      | Inr (Some stored) \<Rightarrow>
          if attachment_max_bytes S < so_size stored
          then Inl (AppError 413 (lit ''payload_too_large'') (lit ''Attachment exceeds the size limit''))
          else if so_content_type stored \<notin> set (attachment_allowed_mime S)
          then Inl (AppError 415 (lit ''unsupported_media_type'') (lit ''Attachment type is not allowed''))
          else Inr (so_content_type stored))"

section \<open>Sending\<close>

text \<open>
  Up to the insert: \<open>Replayed\<close> ends the call, \<open>Proceed mime\<close> goes on to the transaction with the
  attachment's content type.
\<close>

datatype prepared = Replayed message_out | Proceed "pystr option"

definition send_prepare ::
  "world \<Rightarrow> settings \<Rightarrow> pystr \<Rightarrow> send_request \<Rightarrow> sess \<Rightarrow> (exn + prepared) \<times> sess"
where
  "send_prepare w S sender r s =
     (if req_recipient_id r = sender
        then (Inl (AppError 422 (lit ''invalid_recipient'') (lit ''You cannot message yourself'')), s)
      else if (case req_body r of Some b \<Rightarrow> message_max_graphemes S < w_graphemes w b | None \<Rightarrow> False)
        then (Inl (AppError 422 (lit ''body_too_long'')
               (lit ''Message body exceeds '' @ nat_str (message_max_graphemes S) @ lit '' characters'')), s)
      else case by_client_msg_id sender (req_client_msg_id r) (work s) of
        Inl e \<Rightarrow> (Inl e, s)
      | Inr (Some existing) \<Rightarrow>
          (case replay w S existing r s of (Inl e, s') \<Rightarrow> (Inl e, s') | (Inr o', s') \<Rightarrow> (Inr (Replayed o'), s'))
      | Inr None \<Rightarrow>
          (case req_attachment_key r of
             None \<Rightarrow> (Inr (Proceed None), s)
           | Some k \<Rightarrow>
               (case check_attachment w S sender k of
                  Inl e \<Rightarrow> (Inl e, s) | Inr mime \<Rightarrow> (Inr (Proceed (Some mime)), s))))"

definition new_message :: "world \<Rightarrow> pystr \<Rightarrow> send_request \<Rightarrow> pystr option \<Rightarrow> uuid \<Rightarrow> message" where
  "new_message w sender r mime cid =
     \<lparr>msg_id = uuid7 (w_msg_ms w) (w_msg_rand w), conversation_id = cid, sender_id = sender,
      recipient_id = req_recipient_id r, client_msg_id = req_client_msg_id r, body = req_body r,
      attachment_key = req_attachment_key r, attachment_mime = mime, status = sent,
      created_at = w_now w, delivered_at = None, read_at = None\<rparr>"

text \<open>After a conflicting insert: roll back, look the committed message up, replay it.\<close>

definition send_conflict ::
  "world \<Rightarrow> settings \<Rightarrow> pystr \<Rightarrow> send_request \<Rightarrow> sess \<Rightarrow> (exn + (message_out \<times> bool)) \<times> sess"
where
  "send_conflict w S sender r s =
     (let s = rollback s
      in case by_client_msg_id sender (req_client_msg_id r) (work s) of
           Inl e \<Rightarrow> (Inl e, s)
         | Inr None \<Rightarrow> (Inl (AppError 409 (lit ''conflict'') (lit ''Concurrent send, retry'')), s)
         | Inr (Some existing) \<Rightarrow>
             (case replay w S existing r s of
                (Inl e, s') \<Rightarrow> (Inl e, s') | (Inr o', s') \<Rightarrow> (Inr (o', False), s')))"

definition send_insert ::
  "world \<Rightarrow> settings \<Rightarrow> pystr \<Rightarrow> send_request \<Rightarrow> pystr option \<Rightarrow> sess \<Rightarrow>
     (exn + (message_out \<times> bool)) \<times> sess"
where
  "send_insert w S sender r mime s =
     (case get_or_create_conversation w sender (req_recipient_id r) s of
        (Inl e, s1) \<Rightarrow> (Inl e, s1)
      | (Inr conv, s1) \<Rightarrow>
          let m = new_message w sender r mime (conv_id conv)
          in case pg_insert (message_check (conversations (work s1))) client_key msg_id m (messages (work s1)) of
               Inl e \<Rightarrow> (Inl e, s1)
             | Inr (False, _) \<Rightarrow> send_conflict w S sender r s1
             | Inr (True, tab) \<Rightarrow>
                 let o' = to_out w S m;
                     s2 = enqueue [req_recipient_id r, sender] (lit ''message.new'')
                            (message_out_json (w_dump_dt w) o') (s1\<lparr>work := (work s1)\<lparr>messages := tab\<rparr>\<rparr>)
                 in case commit w s2 of
                      (Inl e, s3) \<Rightarrow> (Inl e, s3)
                    | (Inr _, s3) \<Rightarrow> (Inr (o', True), s3\<lparr>m_sent := m_sent s3 + 1\<rparr>))"

definition send_message ::
  "world \<Rightarrow> settings \<Rightarrow> pystr \<Rightarrow> send_request \<Rightarrow> sess \<Rightarrow> (exn + (message_out \<times> bool)) \<times> sess"
where
  "send_message w S sender r s =
     (case send_prepare w S sender r s of
        (Inl e, s') \<Rightarrow> (Inl e, s')
      | (Inr (Replayed o'), s') \<Rightarrow> (Inr (o', False), s')
      | (Inr (Proceed mime), s') \<Rightarrow> send_insert w S sender r mime s')"

section \<open>Receipts\<close>

definition mark_delivered ::
  "world \<Rightarrow> settings \<Rightarrow> pystr \<Rightarrow> uuid \<Rightarrow> sess \<Rightarrow> (exn + message_out) \<times> sess"
where
  "mark_delivered w S user_id mid s =
     (let now = w_now w;
          (tab, rows) = pg_update
            (\<lambda>m. msg_id m = mid \<and> recipient_id m = user_id \<and> status m = sent)
            (\<lambda>m. m\<lparr>status := delivered, delivered_at := Some now\<rparr>) (messages (work s))
      in case one_or_none rows of
           Inl e \<Rightarrow> (Inl e, s)
         | Inr None \<Rightarrow>
             (case find (\<lambda>m. msg_id m = mid) (messages (work s)) of
                None \<Rightarrow> (Inl (NotFoundError (lit ''Message not found'')), s)
              | Some m \<Rightarrow>
                  if user_id \<noteq> sender_id m \<and> user_id \<noteq> recipient_id m
                  then (Inl (NotFoundError (lit ''Message not found'')), s)
                  else if recipient_id m \<noteq> user_id
                  then (Inl (AppError 403 (lit ''access_denied'')
                          (lit ''Only the recipient can confirm delivery'')), s)
                  else (Inr (to_out w S m), s))
         | Inr (Some m) \<Rightarrow>
             let s1 = enqueue [sender_id m] (lit ''message.delivered'')
                   (JObj [(lit ''message_id'', JStr (uuid_str (msg_id m))),
                          (lit ''conversation_id'', JStr (uuid_str (conversation_id m))),
                          (lit ''client_msg_id'', JStr (client_msg_id m)),
                          (lit ''delivered_at'', JStr (isoformat now))])
                   (s\<lparr>work := (work s)\<lparr>messages := tab\<rparr>\<rparr>)
             in case commit w s1 of
                  (Inl e, s2) \<Rightarrow> (Inl e, s2)
                | (Inr _, s2) \<Rightarrow> (Inr (to_out w S m), s2))"

definition to_read :: "pystr \<Rightarrow> uuid \<Rightarrow> (int \<times> uuid) \<Rightarrow> message \<Rightarrow> bool" where
  "to_read user_id cid anchor m \<longleftrightarrow>
     conversation_id m = cid \<and> recipient_id m = user_id \<and> status m \<noteq> read \<and> message_key m \<le> anchor"

definition set_read :: "datetime \<Rightarrow> message \<Rightarrow> message" where
  "set_read now m = m\<lparr>status := read, read_at := Some now,
     delivered_at := (case delivered_at m of None \<Rightarrow> Some now | Some t \<Rightarrow> Some t)\<rparr>"

definition mark_read ::
  "world \<Rightarrow> pystr \<Rightarrow> uuid \<Rightarrow> uuid \<Rightarrow> sess \<Rightarrow> (exn + read_result) \<times> sess"
where
  "mark_read w user_id cid up_to s =
     (case get_conversation user_id cid s of
        Inl e \<Rightarrow> (Inl e, s)
      | Inr conv \<Rightarrow>
          (case find (\<lambda>m. msg_id m = up_to) (messages (work s)) of
             None \<Rightarrow> (Inl (NotFoundError (lit ''Message not found in this conversation'')), s)
           | Some anchor \<Rightarrow>
               if conversation_id anchor \<noteq> conv_id conv
               then (Inl (NotFoundError (lit ''Message not found in this conversation'')), s)
               else
                 let now = w_now w;
                     (tab, rows) = pg_update (to_read user_id (conv_id conv) (message_key anchor))
                       (set_read now) (messages (work s));
                     ids = map msg_id rows;
                     s1 = s\<lparr>work := (work s)\<lparr>messages := tab\<rparr>\<rparr>
                 in if ids = []
                    then (Inr \<lparr>rr_conversation_id = conv_id conv, rr_message_ids = [], rr_read_at = None\<rparr>, s1)
                    else
                      let s2 = enqueue [peer_of conv user_id] (lit ''message.read'')
                            (JObj [(lit ''conversation_id'', JStr (uuid_str (conv_id conv))),
                                   (lit ''reader_id'', JStr user_id),
                                   (lit ''message_ids'', JArr (map (\<lambda>i. JStr (uuid_str i)) ids)),
                                   (lit ''read_at'', JStr (isoformat now))]) s1
                      in case commit w s2 of
                           (Inl e, s3) \<Rightarrow> (Inl e, s3)
                         | (Inr _, s3) \<Rightarrow>
                             (Inr \<lparr>rr_conversation_id = conv_id conv, rr_message_ids = ids,
                                   rr_read_at = Some now\<rparr>, s3)))"

section \<open>Queries\<close>

text \<open>The newest message of a conversation, and its unread messages for a user.\<close>

definition last_message :: "message list \<Rightarrow> uuid \<Rightarrow> message option" where
  "last_message ms cid =
     (case rev (sort_key message_key (filter (\<lambda>m. conversation_id m = cid) ms)) of
        [] \<Rightarrow> None | m # _ \<Rightarrow> Some m)"

definition unread_count :: "message list \<Rightarrow> uuid \<Rightarrow> pystr \<Rightarrow> nat" where
  "unread_count ms cid user_id =
     length (filter (\<lambda>m. conversation_id m = cid \<and> recipient_id m = user_id \<and> status m \<noteq> read) ms)"

definition activity :: "message list \<Rightarrow> conversation \<Rightarrow> int" where
  "activity ms c =
     instant (case last_message ms (conv_id c) of None \<Rightarrow> conv_created_at c | Some m \<Rightarrow> created_at m)"

text \<open>Rows with equal activity come in table order (SQL leaves their order open).\<close>

definition list_conversations ::
  "world \<Rightarrow> settings \<Rightarrow> pystr \<Rightarrow> nat \<Rightarrow> db \<Rightarrow> conversation_out list"
where
  "list_conversations w S user_id limit d =
     map (\<lambda>c. \<lparr>co_id = conv_id c, co_peer_id = peer_of c user_id, co_created_at = conv_created_at c,
               co_last_message = map_option (to_out w S) (last_message (messages d) (conv_id c)),
               co_unread_count = int (unread_count (messages d) (conv_id c) user_id)\<rparr>)
       (take limit (sort_key (\<lambda>c. - activity (messages d) c)
         (filter (\<lambda>c. user_a c = user_id \<or> user_b c = user_id) (conversations d))))"

text \<open>The truth value of an optional query parameter: absent and empty are false.\<close>

definition given :: "pystr option \<Rightarrow> bool" where
  "given x \<longleftrightarrow> x \<noteq> None \<and> x \<noteq> Some []"

text \<open>The rows of one page before the cut: at most \<open>limit + 1\<close> of them.\<close>

definition page_rows ::
  "message list \<Rightarrow> uuid \<Rightarrow> nat \<Rightarrow> pystr option \<Rightarrow> pystr option \<Rightarrow> exn + message list"
where
  "page_rows ms cid limit before after =
     (let base = filter (\<lambda>m. conversation_id m = cid) ms
      in if given after then
           (case parse_cursor (the after) of Inl e \<Rightarrow> Inl e
            | Inr (t, i) \<Rightarrow>
                Inr (take (limit + 1) (sort_key message_key (filter (\<lambda>m. key_of t i < message_key m) base))))
         else if given before then
           (case parse_cursor (the before) of Inl e \<Rightarrow> Inl e
            | Inr (t, i) \<Rightarrow>
                Inr (take (limit + 1) (rev (sort_key message_key (filter (\<lambda>m. message_key m < key_of t i) base)))))
         else Inr (take (limit + 1) (rev (sort_key message_key base))))"

definition list_messages ::
  "world \<Rightarrow> settings \<Rightarrow> pystr \<Rightarrow> uuid \<Rightarrow> nat \<Rightarrow> pystr option \<Rightarrow> pystr option \<Rightarrow> sess \<Rightarrow> exn + message_page"
where
  "list_messages w S user_id cid limit before after s =
     (if given before \<and> given after
      then Inl (AppError 400 (lit ''bad_request'') (lit ''Use either before or after, not both''))
      else case get_conversation user_id cid s of
        Inl e \<Rightarrow> Inl e
      | Inr conv \<Rightarrow>
          (case page_rows (messages (work s)) (conv_id conv) limit before after of
             Inl e \<Rightarrow> Inl e
           | Inr rows \<Rightarrow>
               let more = limit < length rows;
                   items = map (to_out w S) (take limit rows)
               in if given after then
                    Inr \<lparr>page_items = items,
                         next_cursor = (if items \<noteq> [] then Some (out_cursor (last items)) else after),
                         has_more = more\<rparr>
                  else if more \<and> items = [] then Inl IndexError
                  else
                    Inr \<lparr>page_items = items,
                         next_cursor = (if more then Some (out_cursor (last items)) else None),
                         has_more = more\<rparr>))"

end
