(* ===== verification/Chat_Inv.thy ===== *)
theory Chat_Inv
  imports Chat
begin

text \<open>
  The invariant of the database, one preservation lemma per operation of the chat service, and
  the contract of a transactional operation as a locale, interpreted on the three commands.
\<close>

section \<open>The invariant\<close>

text \<open>A message's timestamps agree with its status.\<close>

definition status_ok :: "message \<Rightarrow> bool" where
  "status_ok m \<longleftrightarrow> (case status m of
     sent \<Rightarrow> delivered_at m = None \<and> read_at m = None
   | delivered \<Rightarrow> delivered_at m \<noteq> None \<and> read_at m = None
   | read \<Rightarrow> delivered_at m \<noteq> None \<and> read_at m \<noteq> None)"

definition convs_inv :: "(pystr \<Rightarrow> pystr \<Rightarrow> bool) \<Rightarrow> conversation list \<Rightarrow> bool" where
  "convs_inv coll cs \<longleftrightarrow> distinct (map pair_key cs) \<and> distinct (map conv_id cs) \<and>
     (\<forall>c \<in> set cs. conversation_check coll c) \<and> (\<forall>c \<in> set cs. user_a c < user_b c)"

text \<open>The two parties of a message are the two members of its conversation.\<close>

definition parties_ok :: "conversation list \<Rightarrow> message \<Rightarrow> bool" where
  "parties_ok cs m \<longleftrightarrow> sender_id m \<noteq> recipient_id m \<and>
     (\<exists>c \<in> set cs. conv_id c = conversation_id m \<and> {sender_id m, recipient_id m} = {user_a c, user_b c})"

definition msgs_inv :: "conversation list \<Rightarrow> message list \<Rightarrow> bool" where
  "msgs_inv cs ms \<longleftrightarrow> distinct (map client_key ms) \<and> distinct (map msg_id ms) \<and>
     (\<forall>m \<in> set ms. message_check cs m) \<and> (\<forall>m \<in> set ms. parties_ok cs m) \<and> (\<forall>m \<in> set ms. status_ok m)"

definition outbox_inv :: "outbox_row list \<Rightarrow> nat \<Rightarrow> bool" where
  "outbox_inv obs n \<longleftrightarrow> distinct (map ob_id obs) \<and> (\<forall>r \<in> set obs. ob_id r < n)"

definition db_inv :: "(pystr \<Rightarrow> pystr \<Rightarrow> bool) \<Rightarrow> db \<Rightarrow> bool" where
  "db_inv coll d \<longleftrightarrow> convs_inv coll (conversations d) \<and> msgs_inv (conversations d) (messages d) \<and>
     outbox_inv (outbox d) (outbox_seq d)"

text \<open>A session at the start of an operation: nothing uncommitted.\<close>

definition clean :: "sess \<Rightarrow> bool" where
  "clean s \<longleftrightarrow> work s = committed s \<and> pending s = []"

lemma clean_begin [simp]: "clean (begin_session d)"
  by (simp add: clean_def begin_session_def)

lemma committed_begin [simp]: "committed (begin_session d) = d"
  by (simp add: begin_session_def)

lemma empty_db_inv: "db_inv coll empty_db"
  by (simp add: db_inv_def empty_db_def convs_inv_def msgs_inv_def outbox_inv_def)

section \<open>Growing the conversation table\<close>

lemma message_check_mono: "set cs \<subseteq> set cs' \<Longrightarrow> message_check cs m \<Longrightarrow> message_check cs' m"
  by (auto simp: message_check_def)

lemma parties_ok_mono: "set cs \<subseteq> set cs' \<Longrightarrow> parties_ok cs m \<Longrightarrow> parties_ok cs' m"
  by (auto simp: parties_ok_def)

lemma msgs_inv_mono: "set cs \<subseteq> set cs' \<Longrightarrow> msgs_inv cs ms \<Longrightarrow> msgs_inv cs' ms"
  by (auto simp: msgs_inv_def intro: message_check_mono parties_ok_mono)

text \<open>The row an insert offers.\<close>

definition conversation_row :: "world \<Rightarrow> pystr \<Rightarrow> pystr \<Rightarrow> conversation" where
  "conversation_row w u1 u2 = \<lparr>conv_id = uuid7 (w_conv_ms w) (w_conv_rand w), user_a = min u1 u2,
     user_b = max u1 u2, conv_created_at = w_db_now w\<rparr>"

lemma get_or_create_error:
  assumes "convs_inv (w_collate w) (conversations (work s))"
    and "get_or_create_conversation w u1 u2 s = (Inl e, s1)"
  shows "s1 = s \<and> e = DBAPIError \<and>
    pg_insert (conversation_check (w_collate w)) pair_key conv_id (conversation_row w u1 u2) (conversations (work s)) = Inl e"
proof -
  define row where "row = conversation_row w u1 u2"
  note row0 = row_def and row_def = row_def [unfolded conversation_row_def]
  let ?ins = "pg_insert (conversation_check (w_collate w)) pair_key conv_id row (conversations (work s))"
  show ?thesis
  proof (cases ?ins)
    case (Inl e')
    with assms(2) show ?thesis
      using conversations_table.ins_error [OF Inl]
      by (simp add: get_or_create_conversation_def Let_def row_def [symmetric] row0 [symmetric])
  next
    case (Inr p)
    obtain b tab where p: "p = (b, tab)" by (cases p)
    then obtain x where "filter (\<lambda>y. pair_key y = pair_key row) tab = [x]"
      using conversations_table.ins_select [OF Inr [unfolded p]] assms(1)
      unfolding convs_inv_def by metis
    then have "exactly_one (filter (\<lambda>c. user_a c = min u1 u2 \<and> user_b c = max u1 u2) tab) = Inr x"
      by (simp add: pair_key_def row_def exactly_one_def)
    with assms(2) Inr p show ?thesis
      by (simp add: get_or_create_conversation_def Let_def row_def [symmetric])
  qed
qed

lemma get_or_create_ok:
  assumes inv: "convs_inv (w_collate w) (conversations (work s))" and ne: "u1 \<noteq> u2"
    and eq: "get_or_create_conversation w u1 u2 s = (Inr c, s1)"
  obtains tab where "s1 = s\<lparr>work := (work s)\<lparr>conversations := tab\<rparr>\<rparr>" "set (conversations (work s)) \<subseteq> set tab"
    "convs_inv (w_collate w) tab" "c \<in> set tab" "user_a c = min u1 u2" "user_b c = max u1 u2"
    "tab = conversations (work s) \<or> tab = conversations (work s) @ [c]"
proof -
  define row where "row = \<lparr>conv_id = uuid7 (w_conv_ms w) (w_conv_rand w), user_a = min u1 u2,
    user_b = max u1 u2, conv_created_at = w_db_now w\<rparr>"
  let ?cs = "conversations (work s)"
  let ?ins = "pg_insert (conversation_check (w_collate w)) pair_key conv_id row ?cs"
  obtain b tab where ins: "?ins = Inr (b, tab)"
    and c: "exactly_one (filter (\<lambda>c. user_a c = min u1 u2 \<and> user_b c = max u1 u2) tab) = Inr c"
    and s1: "s1 = s\<lparr>work := (work s)\<lparr>conversations := tab\<rparr>\<rparr>"
    using eq by (auto simp: get_or_create_conversation_def Let_def row_def split: sum.splits)
  have d: "distinct (map pair_key ?cs)" "distinct (map conv_id ?cs)" using inv by (simp_all add: convs_inv_def)
  have "filter (\<lambda>c. user_a c = min u1 u2 \<and> user_b c = max u1 u2) tab = [c]"
    using c by (auto simp: exactly_one_def split: list.splits)
  then have mem: "c \<in> set tab" and ab: "user_a c = min u1 u2" "user_b c = max u1 u2"
    by (auto simp: filter_eq_Cons_iff)
  have "min u1 u2 < max u1 u2" using ne by (auto simp: min_def max_def)
  then have lt: "user_a row < user_b row" by (simp add: row_def)
  have "convs_inv (w_collate w) tab"
    using inv lt pg_insert_mem [OF ins] conversations_table.ins_checked [OF ins]
      conversations_table.ins_distinct [OF ins] unfolding convs_inv_def by blast
  moreover have "tab = ?cs \<or> tab = ?cs @ [c]"
  proof (cases b)
    case False
    with ins have "?ins = Inr (False, tab)" by simp
    then show ?thesis by (auto dest: conversations_table.ins_kept)
  next
    case True
    with ins have "?ins = Inr (True, tab)" by simp
    then have t: "tab = ?cs @ [row]" and n: "pair_key row \<notin> pair_key ` set ?cs"
      by (auto dest: conversations_table.ins_added)
    have "pair_key c = pair_key row" by (simp add: pair_key_def ab row_def)
    with t n mem have "c = row" by (auto simp: image_iff)
    with t show ?thesis by simp
  qed
  ultimately show ?thesis
    using that [OF s1 conversations_table.ins_mono [OF ins] _ mem ab] by blast
qed

section \<open>Commits\<close>

lemma flush_inv [inv_intros]: "db_inv coll d \<Longrightarrow> db_inv coll (flush now ps d)"
proof -
  assume d: "db_inv coll d"
  let ?rows = "outbox_rows now (outbox_seq d) ps"
  have ids: "ob_id r \<in> {outbox_seq d..<outbox_seq d + length ps}" if "r \<in> set ?rows" for r
    using imageI [OF that, of ob_id] by (simp flip: set_map)
  have "outbox_inv (outbox d @ ?rows) (outbox_seq d + length ps)"
    using d ids unfolding db_inv_def outbox_inv_def by fastforce
  with d show ?thesis by (simp add: db_inv_def flush_def)
qed

lemma commit_error: "commit w s = (Inl e, s') \<Longrightarrow> s' = s"
  by (cases rule: commit_cases [of w s]) auto

lemma commit_ok:
  "commit w s = (Inr u, s') \<Longrightarrow>
     s' = s\<lparr>committed := flush (w_now w) (pending s) (work s), work := flush (w_now w) (pending s) (work s),
            pending := [], notified := notified s + 1\<rparr>"
  by (cases rule: commit_cases [of w s]) auto

section \<open>Lookups\<close>

lemma find_Some_mem: "find p xs = Some x \<Longrightarrow> x \<in> set xs \<and> p x"
  by (auto simp: find_Some_iff)

lemma by_client_msg_id_Some:
  "by_client_msg_id sender c d = Inr (Some m) \<Longrightarrow> m \<in> set (messages d) \<and> client_key m = (sender, c)"
  by (auto simp: by_client_msg_id_def one_or_none_def client_key_def filter_eq_Cons_iff
      split: if_splits list.splits)

lemma by_client_msg_id_None:
  "by_client_msg_id sender c d = Inr None \<Longrightarrow> (sender, c) \<notin> client_key ` set (messages d)"
  by (auto simp: by_client_msg_id_def one_or_none_def client_key_def filter_empty_conv
      split: if_splits list.splits)

lemma by_client_msg_id_found:
  assumes "distinct (map client_key (messages d))" "m \<in> set (messages d)" "client_key m = (sender, c)"
    "pg_text sender" "pg_text c"
  shows "by_client_msg_id sender c d = Inr (Some m)"
proof -
  have "filter (\<lambda>x. client_key x = client_key m) (messages d) = [m]"
    using assms(1,2) by (rule filter_eq_singleton)
  then have "filter (\<lambda>x. sender_id x = sender \<and> client_msg_id x = c) (messages d) = [m]"
    using assms(3) by (simp add: client_key_def)
  then show ?thesis using assms(4,5) by (simp add: by_client_msg_id_def one_or_none_def)
qed

lemma by_client_msg_id_error:
  assumes "distinct (map client_key (messages d))" "by_client_msg_id sender c d = Inl e"
  shows "e = DBAPIError \<and> \<not> (pg_text sender \<and> pg_text c)"
proof (rule ccontr)
  assume a: "\<not> ?thesis"
  with assms(2) have t: "pg_text sender" "pg_text c" by (auto simp: by_client_msg_id_def split: if_splits)
  then have "one_or_none (filter (\<lambda>m. sender_id m = sender \<and> client_msg_id m = c) (messages d)) = Inl e"
    using assms(2) by (simp add: by_client_msg_id_def)
  then obtain x y zs where f: "filter (\<lambda>m. sender_id m = sender \<and> client_msg_id m = c) (messages d) = x # y # zs"
    by (auto simp: one_or_none_def split: list.splits)
  have "x \<in> set (messages d)" "client_key x = (sender, c)"
    using f filter_eq_ConsD [OF f] by (auto simp: client_key_def)
  from by_client_msg_id_found [OF assms(1) this t] assms(2) show False by simp
qed

lemma replay_cases:
  obtains (conflict) "\<not> same_content m r" "replay w S m r s = (Inl (AppError 409 (lit ''idempotency_conflict'')
      (lit ''client_msg_id was already used for another message'')), s)"
  | (same) "same_content m r" "replay w S m r s = (Inr (to_out w S m), s\<lparr>m_replayed := m_replayed s + 1\<rparr>)"
  by (cases "same_content m r") (auto simp: replay_def)

section \<open>Sending\<close>

lemma insert_message_inv:
  assumes ins: "pg_insert (message_check cs) client_key msg_id m ms = Inr (True, tab)"
    and inv: "msgs_inv cs ms" and m: "parties_ok cs m" "status_ok m"
  shows "tab = ms @ [m]" "client_key m \<notin> client_key ` set ms" "msgs_inv cs tab"
proof -
  from messages_table.ins_added [OF ins]
  have a: "message_check cs m" "tab = ms @ [m]" "client_key m \<notin> client_key ` set ms" "msg_id m \<notin> msg_id ` set ms"
    by auto
  then show "tab = ms @ [m]" "client_key m \<notin> client_key ` set ms" by auto
  have "distinct (map client_key (ms @ [m]))" "distinct (map msg_id (ms @ [m]))"
    using inv a by (auto simp: msgs_inv_def)
  with inv a m show "msgs_inv cs tab" by (auto simp: msgs_inv_def)
qed

lemma new_message_fields [simp]:
  "sender_id (new_message w u r mime cid) = u" "recipient_id (new_message w u r mime cid) = req_recipient_id r"
  "client_msg_id (new_message w u r mime cid) = req_client_msg_id r" "body (new_message w u r mime cid) = req_body r"
  "attachment_key (new_message w u r mime cid) = req_attachment_key r"
  "attachment_mime (new_message w u r mime cid) = mime"
  "conversation_id (new_message w u r mime cid) = cid" "status (new_message w u r mime cid) = sent"
  "client_key (new_message w u r mime cid) = (u, req_client_msg_id r)"
  "created_at (new_message w u r mime cid) = w_now w"
  "delivered_at (new_message w u r mime cid) = None" "read_at (new_message w u r mime cid) = None"
  by (simp_all add: new_message_def client_key_def)

lemma new_message_status_ok [simp]: "status_ok (new_message w u r mime cid)"
  by (simp add: status_ok_def)

text \<open>The rows a successful send adds to the outbox: recipient first, then the sender's devices.\<close>

definition new_events :: "world \<Rightarrow> settings \<Rightarrow> message \<Rightarrow> (pystr \<times> json) list" where
  "new_events w S m =
     (let ev = make_event (lit ''message.new'') (message_out_json (w_dump_dt w) (to_out w S m))
      in [(user_topic (recipient_id m), ev), (user_topic (sender_id m), ev)])"

text \<open>The three ways a send ends, as seen in the committed tables.\<close>

definition ends_failed :: "sess \<Rightarrow> sess \<Rightarrow> bool" where
  "ends_failed s s' \<longleftrightarrow> committed s' = committed s \<and> notified s' = notified s"

definition ends_replayed :: "sess \<Rightarrow> message \<Rightarrow> sess \<Rightarrow> bool" where
  "ends_replayed s m s' \<longleftrightarrow> ends_failed s s' \<and> m \<in> set (messages (committed s))"

definition ends_created ::
  "world \<Rightarrow> settings \<Rightarrow> sess \<Rightarrow> message \<Rightarrow> conversation list \<Rightarrow> sess \<Rightarrow> bool"
where
  "ends_created w S s m tab s' \<longleftrightarrow>
     committed s' = flush (w_now w) (new_events w S m)
       ((committed s)\<lparr>conversations := tab, messages := messages (committed s) @ [m]\<rparr>) \<and>
     client_key m \<notin> client_key ` set (messages (committed s)) \<and>
     set (conversations (committed s)) \<subseteq> set tab \<and> db_inv (w_collate w) (committed s') \<and>
     notified s' = notified s + 1"

lemma send_conflict_cases:
  assumes "distinct (map client_key (messages (committed s)))"
    and eq: "send_conflict w S sender r s = (res, s')"
  obtains (error) e where "res = Inl e" "ends_failed s s'"
  | (replayed) m where "res = Inr (to_out w S m, False)" "ends_replayed s m s'"
      "client_key m = (sender, req_client_msg_id r)" "same_content m r"
proof (cases "by_client_msg_id sender (req_client_msg_id r) (committed s)")
  case (Inl e)
  with eq have "res = Inl e" "ends_failed s s'"
    by (auto simp: send_conflict_def rollback_def Let_def ends_failed_def)
  then show ?thesis by (rule error)
next
  case (Inr x)
  show ?thesis
  proof (cases x)
    case None
    with eq Inr show ?thesis
      by (intro error) (auto simp: send_conflict_def rollback_def Let_def ends_failed_def)
  next
    case (Some m)
    then have m: "m \<in> set (messages (committed s))" "client_key m = (sender, req_client_msg_id r)"
      using by_client_msg_id_Some [of sender "req_client_msg_id r" "committed s" m] Inr by auto
    from eq Inr Some show ?thesis
    proof (cases rule: replay_cases [where m = m and r = r and w = w and S = S and s = "rollback s"])
      case conflict
      with eq Inr Some show ?thesis
        by (intro error) (auto simp: send_conflict_def rollback_def Let_def ends_failed_def)
    next
      case same
      with eq Inr Some m show ?thesis
        by (intro replayed [of m])
          (auto simp: send_conflict_def rollback_def Let_def ends_failed_def ends_replayed_def)
    qed
  qed
qed

lemma parties_ok_new:
  assumes "c \<in> set tab" "user_a c = min u (req_recipient_id r)" "user_b c = max u (req_recipient_id r)"
    "req_recipient_id r \<noteq> u"
  shows "parties_ok tab (new_message w u r mime (conv_id c))"
  unfolding parties_ok_def using assms
  by (cases "u \<le> req_recipient_id r") (auto simp: min_def max_def intro!: bexI [of _ c])

lemma send_insert_cases:
  assumes c: "clean s" and inv: "db_inv (w_collate w) (committed s)" and ne: "req_recipient_id r \<noteq> sender"
    and eq: "send_insert w S sender r mime s = (res, s')"
  obtains (error) e where "res = Inl e" "ends_failed s s'"
  | (replayed) m where "res = Inr (to_out w S m, False)" "ends_replayed s m s'"
      "client_key m = (sender, req_client_msg_id r)" "same_content m r"
  | (created) cid tab where "res = Inr (to_out w S (new_message w sender r mime cid), True)"
      "ends_created w S s (new_message w sender r mime cid) tab s'"
proof -
  let ?d = "committed s" and ?goc = "get_or_create_conversation w sender (req_recipient_id r) s"
  have w: "work s = ?d" "pending s = []" using c by (simp_all add: clean_def)
  have ci: "convs_inv (w_collate w) (conversations (work s))" using inv w by (simp add: db_inv_def)
  obtain g s1 where g: "?goc = (g, s1)" by (cases ?goc)
  show ?thesis
  proof (cases g)
    case (Inl e)
    with get_or_create_error [OF ci] g have "s1 = s" by blast
    with Inl g eq show ?thesis by (intro error) (auto simp: send_insert_def ends_failed_def)
  next
    case (Inr conv)
    with g have "?goc = (Inr conv, s1)" by simp
    then obtain tab where s1: "s1 = s\<lparr>work := (work s)\<lparr>conversations := tab\<rparr>\<rparr>" and
      tab: "set (conversations ?d) \<subseteq> set tab" "convs_inv (w_collate w) tab" and
      cv: "conv \<in> set tab" "user_a conv = min sender (req_recipient_id r)"
        "user_b conv = max sender (req_recipient_id r)"
      using get_or_create_ok [OF ci not_sym [OF ne]] w by metis
    define m where "m = new_message w sender r mime (conv_id conv)"
    let ?ins = "pg_insert (message_check tab) client_key msg_id m (messages ?d)"
    have mi: "msgs_inv tab (messages ?d)" using inv tab(1) by (auto simp: db_inv_def intro: msgs_inv_mono)
    have wk: "conversations (work s1) = tab" "messages (work s1) = messages ?d" using w by (simp_all add: s1)
    have ev: "enqueue [req_recipient_id r, sender] (lit ''message.new'') (message_out_json (w_dump_dt w) (to_out w S m))
        (s1\<lparr>work := x\<rparr>) = s1\<lparr>work := x, pending := new_events w S m\<rparr>" for x
      using ne w by (simp add: enqueue_def new_events_def Let_def s1 m_def)
    have unf: "send_insert w S sender r mime s = (case ?ins of Inl e \<Rightarrow> (Inl e, s1)
        | Inr (False, _) \<Rightarrow> send_conflict w S sender r s1
        | Inr (True, tab') \<Rightarrow>
            let s2 = s1\<lparr>work := (work s1)\<lparr>messages := tab'\<rparr>, pending := new_events w S m\<rparr>
            in case commit w s2 of (Inl e, s3) \<Rightarrow> (Inl e, s3)
               | (Inr _, s3) \<Rightarrow> (Inr (to_out w S m, True), s3\<lparr>m_sent := m_sent s3 + 1\<rparr>))"
      by (simp add: send_insert_def g Inr m_def [symmetric] wk ev Let_def cong: sum.case_cong bool.case_cong)
    show ?thesis
    proof (cases ?ins)
      case (Inl e)
      with unf eq s1 show ?thesis by (intro error) (auto simp: ends_failed_def)
    next
      case ins: (Inr p)
      obtain b tab' where p: "p = (b, tab')" by (cases p)
      show ?thesis
      proof (cases b)
        case False
        with unf ins p eq have sc: "send_conflict w S sender r s1 = (res, s')" by simp
        have "distinct (map client_key (messages (committed s1)))"
          using inv s1 by (simp add: db_inv_def msgs_inv_def)
        from this sc show ?thesis
          by (cases rule: send_conflict_cases)
            (auto simp: s1 ends_failed_def ends_replayed_def intro: error replayed)
      next
        case True
        with ins p have i: "?ins = Inr (True, tab')" by simp
        have m: "parties_ok tab m" "status_ok m"
          using parties_ok_new [OF cv ne] by (simp_all add: m_def)
        note t = insert_message_inv [OF i mi m]
        let ?s2 = "s1\<lparr>work := (work s1)\<lparr>messages := tab'\<rparr>, pending := new_events w S m\<rparr>"
        obtain x s3 where x: "commit w ?s2 = (x, s3)" by (cases "commit w ?s2")
        show ?thesis
        proof (cases x)
          case (Inl e)
          with x commit_error have "s3 = ?s2" by blast
          with Inl x unf i eq s1 show ?thesis by (intro error) (auto simp: ends_failed_def Let_def)
        next
          case (Inr u)
          let ?d1 = "?d\<lparr>conversations := tab, messages := messages ?d @ [m]\<rparr>"
          have "db_inv (w_collate w) ?d1" using inv tab t by (simp add: db_inv_def)
          then have fi: "db_inv (w_collate w) (flush (w_now w) (new_events w S m) ?d1)" by (rule flush_inv)
          have "s3 = ?s2\<lparr>committed := flush (w_now w) (new_events w S m) ?d1,
              work := flush (w_now w) (new_events w S m) ?d1, pending := [], notified := notified s + 1\<rparr>"
            using commit_ok [OF x [unfolded Inr]] t(1) w by (simp add: s1)
          with Inr x unf i eq have "res = Inr (to_out w S m, True)" "ends_created w S s m tab s'"
            using fi t tab by (auto simp: ends_created_def Let_def)
          then show ?thesis unfolding m_def by (rule created)
        qed
      qed
    qed
  qed
qed

lemma send_prepare_cases:
  assumes c: "clean s" and eq: "send_prepare w S sender r s = (p, s')"
  obtains (error) e where "p = Inl e" "ends_failed s s'"
  | (replayed) m where "p = Inr (Replayed (to_out w S m))" "ends_replayed s m s'"
      "client_key m = (sender, req_client_msg_id r)" "same_content m r"
  | (go) mime where "p = Inr (Proceed mime)" "s' = s" "req_recipient_id r \<noteq> sender"
      "(sender, req_client_msg_id r) \<notin> client_key ` set (messages (committed s))"
proof (cases "by_client_msg_id sender (req_client_msg_id r) (work s)")
  case (Inl e)
  with eq show ?thesis
    using error by (auto simp: send_prepare_def ends_failed_def split: if_splits)
next
  case (Inr x)
  show ?thesis
  proof (cases x)
    case None
    with eq Inr c show ?thesis
      using by_client_msg_id_None [of sender "req_client_msg_id r" "work s"] go error
      by (auto simp: send_prepare_def ends_failed_def clean_def split: if_splits option.splits sum.splits)
  next
    case (Some m)
    then have m: "m \<in> set (messages (committed s))" "client_key m = (sender, req_client_msg_id r)"
      using by_client_msg_id_Some [of sender "req_client_msg_id r" "work s" m] Inr c
      by (auto simp: clean_def)
    show ?thesis
    proof (cases rule: replay_cases [where m = m and r = r and w = w and S = S and s = s])
      case conflict
      with eq Inr Some show ?thesis
        using error by (auto simp: send_prepare_def ends_failed_def split: if_splits)
    next
      case same
      with eq Inr Some m show ?thesis using error replayed
        by (auto simp: send_prepare_def ends_failed_def ends_replayed_def split: if_splits)
    qed
  qed
qed

lemma send_message_cases:
  assumes c: "clean s" and inv: "db_inv (w_collate w) (committed s)"
    and eq: "send_message w S sender r s = (res, s')"
  obtains (error) e where "res = Inl e" "ends_failed s s'"
  | (replayed) m where "res = Inr (to_out w S m, False)" "ends_replayed s m s'"
      "client_key m = (sender, req_client_msg_id r)" "same_content m r"
  | (created) mime cid tab where "res = Inr (to_out w S (new_message w sender r mime cid), True)"
      "ends_created w S s (new_message w sender r mime cid) tab s'"
proof -
  obtain p s1 where p: "send_prepare w S sender r s = (p, s1)" by (cases "send_prepare w S sender r s")
  show ?thesis
  proof (cases rule: send_prepare_cases [OF c p])
    case 1
    with p eq show ?thesis by (intro error) (auto simp: send_message_def)
  next
    case (2 m)
    with p eq show ?thesis by (intro replayed [of m]) (auto simp: send_message_def)
  next
    case (3 mime)
    with p eq have i: "send_insert w S sender r mime s = (res, s')" by (simp add: send_message_def)
    show ?thesis
      by (cases rule: send_insert_cases [OF c inv 3(3) i]) (auto intro: error replayed created)
  qed
qed

section \<open>Receipts\<close>

text \<open>The columns no receipt changes.\<close>

definition same_identity :: "message \<Rightarrow> message \<Rightarrow> bool" where
  "same_identity m m' \<longleftrightarrow> msg_id m' = msg_id m \<and> conversation_id m' = conversation_id m \<and>
     sender_id m' = sender_id m \<and> recipient_id m' = recipient_id m \<and> client_msg_id m' = client_msg_id m \<and>
     body m' = body m \<and> attachment_key m' = attachment_key m \<and> attachment_mime m' = attachment_mime m \<and>
     created_at m' = created_at m"

definition set_delivered :: "datetime \<Rightarrow> message \<Rightarrow> message" where
  "set_delivered now m = m\<lparr>status := delivered, delivered_at := Some now\<rparr>"

lemma set_delivered_fields [simp]:
  "sender_id (set_delivered now m) = sender_id m" "msg_id (set_delivered now m) = msg_id m"
  "conversation_id (set_delivered now m) = conversation_id m" "client_msg_id (set_delivered now m) = client_msg_id m"
  "recipient_id (set_delivered now m) = recipient_id m" "status (set_delivered now m) = delivered"
  by (simp_all add: set_delivered_def)

lemma set_read_fields [simp]:
  "sender_id (set_read now m) = sender_id m" "msg_id (set_read now m) = msg_id m"
  "conversation_id (set_read now m) = conversation_id m" "client_msg_id (set_read now m) = client_msg_id m"
  "recipient_id (set_read now m) = recipient_id m" "status (set_read now m) = read"
  "message_key (set_read now m) = message_key m"
  by (simp_all add: set_read_def message_key_def)

lemma set_delivered_identity [simp]: "same_identity m (set_delivered now m)"
  by (simp add: same_identity_def set_delivered_def)

lemma set_read_identity [simp]: "same_identity m (set_read now m)"
  by (simp add: same_identity_def set_read_def)

lemma set_read_status_ok: "status_ok m \<Longrightarrow> status_ok (set_read now m)"
  by (auto simp: status_ok_def set_read_def split: message_status.splits option.splits)

lemma set_delivered_status_ok: "status_ok m \<Longrightarrow> status m = sent \<Longrightarrow> status_ok (set_delivered now m)"
  by (simp add: status_ok_def set_delivered_def)

lemma same_identity_checks:
  "same_identity m m' \<Longrightarrow> client_key m' = client_key m \<and> message_check cs m' = message_check cs m \<and>
     parties_ok cs m' = parties_ok cs m \<and> message_key m' = message_key m"
  by (simp add: same_identity_def client_key_def message_check_def parties_ok_def message_key_def)

lemma pg_update_msgs_inv:
  assumes id: "\<And>m. same_identity m (f m)" and st: "\<And>m. p m \<Longrightarrow> status_ok m \<Longrightarrow> status_ok (f m)"
    and inv: "msgs_inv cs ms"
  shows "msgs_inv cs (fst (pg_update p f ms))"
proof -
  have k: "client_key (f m) = client_key m" "msg_id (f m) = msg_id m" "message_check cs (f m) = message_check cs m"
    "parties_ok cs (f m) = parties_ok cs m" for m
    using id [of m] same_identity_checks [OF id, of m] by (auto simp: same_identity_def)
  have "map client_key (fst (pg_update p f ms)) = map client_key ms"
    "map msg_id (fst (pg_update p f ms)) = map msg_id ms"
    by (simp_all add: fst_pg_update_keys k)
  moreover have "\<forall>m \<in> set (fst (pg_update p f ms)). message_check cs m \<and> parties_ok cs m \<and> status_ok m"
    using inv st by (auto simp: msgs_inv_def pg_update_def k)
  ultimately show ?thesis using inv by (auto simp: msgs_inv_def)
qed

text \<open>The push of a delivery receipt, to the message's sender.\<close>

definition delivered_events :: "world \<Rightarrow> message \<Rightarrow> (pystr \<times> json) list" where
  "delivered_events w m =
     [(user_topic (sender_id m), make_event (lit ''message.delivered'')
        (JObj [(lit ''message_id'', JStr (uuid_str (msg_id m))),
               (lit ''conversation_id'', JStr (uuid_str (conversation_id m))),
               (lit ''client_msg_id'', JStr (client_msg_id m)),
               (lit ''delivered_at'', JStr (isoformat (w_now w)))]))]"

definition ends_delivered :: "world \<Rightarrow> sess \<Rightarrow> message \<Rightarrow> sess \<Rightarrow> bool" where
  "ends_delivered w s m s' \<longleftrightarrow>
     committed s' = flush (w_now w) (delivered_events w m)
       ((committed s)\<lparr>messages := map (\<lambda>x. if x = m then set_delivered (w_now w) x else x) (messages (committed s))\<rparr>) \<and>
     db_inv (w_collate w) (committed s') \<and> notified s' = notified s + 1"

lemma msg_id_inject:
  "db_inv coll d \<Longrightarrow> m \<in> set (messages d) \<Longrightarrow> x \<in> set (messages d) \<Longrightarrow> msg_id x = msg_id m \<Longrightarrow> x = m"
  using distinct_map_eq [of msg_id "messages d" x m] by (simp add: db_inv_def msgs_inv_def)

lemma find_msg:
  "db_inv coll d \<Longrightarrow> m \<in> set (messages d) \<Longrightarrow> find (\<lambda>x. msg_id x = msg_id m) (messages d) = Some m"
proof -
  assume d: "db_inv coll d" and m: "m \<in> set (messages d)"
  then obtain x where x: "find (\<lambda>x. msg_id x = msg_id m) (messages d) = Some x"
    by (cases "find (\<lambda>x. msg_id x = msg_id m) (messages d)") (auto simp: find_None_iff)
  with find_Some_mem [OF x] msg_id_inject [OF d m] show ?thesis by auto
qed

lemma mark_delivered_cases:
  assumes c: "clean s" and inv: "db_inv (w_collate w) (committed s)"
    and eq: "mark_delivered w S user mid s = (res, s')"
  obtains (error) e where "res = Inl e" "ends_failed s s'"
  | (noop) m where "res = Inr (to_out w S m)" "s' = s" "m \<in> set (messages (committed s))" "msg_id m = mid"
      "recipient_id m = user" "status m \<noteq> sent"
  | (updated) m where "res = Inr (to_out w S (set_delivered (w_now w) m))" "m \<in> set (messages (committed s))"
      "msg_id m = mid" "recipient_id m = user" "status m = sent" "ends_delivered w s m s'"
proof -
  let ?d = "committed s" and ?p = "\<lambda>m. msg_id m = mid \<and> recipient_id m = user \<and> status m = sent"
    and ?f = "set_delivered (w_now w)"
  have w: "work s = ?d" "pending s = []" using c by (simp_all add: clean_def)
  have fdef: "(\<lambda>m. m\<lparr>status := delivered, delivered_at := Some (w_now w)\<rparr>) = ?f"
    by (auto simp: set_delivered_def)
  show ?thesis
  proof (cases "find ?p (messages ?d)")
    case None
    then have "filter ?p (messages ?d) = []" by (auto simp: find_None_iff filter_empty_conv)
    then have "one_or_none (snd (pg_update ?p ?f (messages ?d))) = Inr None"
      by (simp add: pg_update_def one_or_none_def)
    then have unf: "mark_delivered w S user mid s = (case find (\<lambda>m. msg_id m = mid) (messages ?d) of
         None \<Rightarrow> (Inl (NotFoundError (lit ''Message not found'')), s)
       | Some m \<Rightarrow>
           if user \<noteq> sender_id m \<and> user \<noteq> recipient_id m
           then (Inl (NotFoundError (lit ''Message not found'')), s)
           else if recipient_id m \<noteq> user
           then (Inl (AppError 403 (lit ''access_denied'')
                   (lit ''Only the recipient can confirm delivery'')), s)
           else (Inr (to_out w S m), s))"
      using w by (simp add: mark_delivered_def Let_def split_def fdef)
    show ?thesis
    proof (cases "find (\<lambda>m. msg_id m = mid) (messages ?d)")
      case None
      with unf eq show ?thesis by (intro error) (auto simp: ends_failed_def)
    next
      case found: (Some m)
      have m: "m \<in> set (messages ?d)" "msg_id m = mid" using find_Some_mem [OF found] by auto
      show ?thesis
      proof (cases "recipient_id m = user")
        case True
        with m None have "status m \<noteq> sent" by (auto simp: find_None_iff)
        with True m unf eq found show ?thesis by (intro noop [of m]) auto
      next
        case False
        have "\<exists>e. res = Inl e \<and> s' = s" using False unf eq found by (auto split: if_splits)
        then show ?thesis by (elim exE conjE, intro error) (auto simp: ends_failed_def)
      qed
    qed
  next
    case (Some m)
    then have m: "m \<in> set (messages ?d)" "?p m" using find_Some_mem [OF Some] by auto
    have pm: "?p x \<longleftrightarrow> x = m" if "x \<in> set (messages ?d)" for x
    proof
      assume "?p x"
      then show "x = m" using msg_id_inject [OF inv m(1) that] m(2) by simp
    qed (use m(2) in simp)
    have "filter ?p (messages ?d) = filter (\<lambda>x. msg_id x = msg_id m) (messages ?d)"
    proof (rule filter_cong [OF refl])
      fix x assume x: "x \<in> set (messages ?d)"
      show "?p x = (msg_id x = msg_id m)" using pm [OF x] msg_id_inject [OF inv m(1) x] by blast
    qed
    also have "\<dots> = [m]"
      using inv m(1) by (intro filter_eq_singleton) (auto simp: db_inv_def msgs_inv_def)
    finally have "filter ?p (messages ?d) = [m]" .
    moreover let ?tab = "map (\<lambda>x. if x = m then ?f x else x) (messages ?d)"
    have tab: "fst (pg_update ?p ?f (messages ?d)) = ?tab" using pm by (auto simp: pg_update_def)
    ultimately have upd: "pg_update ?p ?f (messages ?d) = (?tab, [?f m])" by (simp add: pg_update_def)
    let ?s1 = "s\<lparr>work := ?d\<lparr>messages := ?tab\<rparr>, pending := delivered_events w m\<rparr>"
    have unf: "mark_delivered w S user mid s =
        (case commit w ?s1 of (Inl e, s2) \<Rightarrow> (Inl e, s2) | (Inr _, s2) \<Rightarrow> (Inr (to_out w S (?f m)), s2))"
      using w by (simp add: mark_delivered_def Let_def fdef upd one_or_none_def enqueue_def delivered_events_def)
    obtain x s2 where x: "commit w ?s1 = (x, s2)" by (cases "commit w ?s1")
    show ?thesis
    proof (cases x)
      case (Inl e)
      with x commit_error have "s2 = ?s1" by blast
      with Inl x unf eq show ?thesis by (intro error) (auto simp: ends_failed_def)
    next
      case (Inr u)
      have "msgs_inv (conversations ?d) (fst (pg_update ?p ?f (messages ?d)))"
        using inv by (intro pg_update_msgs_inv) (auto simp: db_inv_def intro: set_delivered_status_ok)
      then have "db_inv (w_collate w) (?d\<lparr>messages := ?tab\<rparr>)" using inv tab by (simp add: db_inv_def)
      then have "db_inv (w_collate w) (flush (w_now w) (delivered_events w m) (?d\<lparr>messages := ?tab\<rparr>))"
        by (rule flush_inv)
      then have "ends_delivered w s m s'"
        using commit_ok [OF x [unfolded Inr]] x Inr unf eq by (simp add: ends_delivered_def)
      with m x Inr unf eq show ?thesis by (intro updated [of m]) auto
    qed
  qed
qed

text \<open>The push of a read receipt, to the reader's peer.\<close>

definition read_events :: "world \<Rightarrow> conversation \<Rightarrow> pystr \<Rightarrow> uuid list \<Rightarrow> (pystr \<times> json) list" where
  "read_events w conv user ids =
     [(user_topic (peer_of conv user), make_event (lit ''message.read'')
        (JObj [(lit ''conversation_id'', JStr (uuid_str (conv_id conv))),
               (lit ''reader_id'', JStr user),
               (lit ''message_ids'', JArr (map (\<lambda>i. JStr (uuid_str i)) ids)),
               (lit ''read_at'', JStr (isoformat (w_now w)))]))]"

definition ends_read :: "world \<Rightarrow> sess \<Rightarrow> conversation \<Rightarrow> pystr \<Rightarrow> message \<Rightarrow> uuid list \<Rightarrow> sess \<Rightarrow> bool" where
  "ends_read w s conv user anchor ids s' \<longleftrightarrow>
     committed s' = flush (w_now w) (read_events w conv user ids)
       ((committed s)\<lparr>messages := map (\<lambda>m. if to_read user (conv_id conv) (message_key anchor) m
                                      then set_read (w_now w) m else m) (messages (committed s))\<rparr>) \<and>
     db_inv (w_collate w) (committed s') \<and> notified s' = notified s + 1"

lemma get_conversation_cases:
  obtains (error) "get_conversation u cid s = Inl (NotFoundError (lit ''Conversation not found''))"
      "\<forall>c \<in> set (conversations (work s)). conv_id c = cid \<longrightarrow> distinct (map conv_id (conversations (work s))) \<longrightarrow>
         u \<noteq> user_a c \<and> u \<noteq> user_b c"
  | (found) c where "get_conversation u cid s = Inr c" "c \<in> set (conversations (work s))" "conv_id c = cid"
      "u = user_a c \<or> u = user_b c"
proof (cases "find (\<lambda>c. conv_id c = cid) (conversations (work s))")
  case None
  then have "get_conversation u cid s = Inl (NotFoundError (lit ''Conversation not found''))"
    by (simp add: get_conversation_def)
  with None show ?thesis by (intro error) (auto simp: find_None_iff)
next
  case (Some c)
  have c: "c \<in> set (conversations (work s))" "conv_id c = cid" using find_Some_mem [OF Some] by auto
  show ?thesis
  proof (cases "u = user_a c \<or> u = user_b c")
    case True
    with c Some show ?thesis by (intro found [of c]) (auto simp: get_conversation_def)
  next
    case False
    have "x = c" if "x \<in> set (conversations (work s))" "conv_id x = cid"
      "distinct (map conv_id (conversations (work s)))" for x
      using distinct_map_eq [of conv_id "conversations (work s)" x c] that c by simp
    with False Some show ?thesis by (intro error) (auto simp: get_conversation_def)
  qed
qed

lemma mark_read_cases:
  assumes c: "clean s" and inv: "db_inv (w_collate w) (committed s)"
    and eq: "mark_read w user cid up_to s = (res, s')"
  obtains (error) e where "res = Inl e" "ends_failed s s'"
  | (nothing) conv anchor where
      "res = Inr \<lparr>rr_conversation_id = cid, rr_message_ids = [], rr_read_at = None\<rparr>" "ends_failed s s'"
      "conv \<in> set (conversations (committed s))" "conv_id conv = cid" "user \<in> {user_a conv, user_b conv}"
      "anchor \<in> set (messages (committed s))" "msg_id anchor = up_to" "conversation_id anchor = cid"
      "\<forall>m \<in> set (messages (committed s)). \<not> to_read user cid (message_key anchor) m"
  | (updated) conv anchor ids where
      "res = Inr \<lparr>rr_conversation_id = cid, rr_message_ids = ids, rr_read_at = Some (w_now w)\<rparr>"
      "ids = map msg_id (filter (to_read user cid (message_key anchor)) (messages (committed s)))" "ids \<noteq> []"
      "conv \<in> set (conversations (committed s))" "conv_id conv = cid" "user \<in> {user_a conv, user_b conv}"
      "anchor \<in> set (messages (committed s))" "msg_id anchor = up_to" "conversation_id anchor = cid"
      "ends_read w s conv user anchor ids s'"
proof -
  let ?d = "committed s"
  have w: "work s = ?d" "pending s = []" using c by (simp_all add: clean_def)
  show ?thesis
  proof (cases rule: get_conversation_cases [where u = user and cid = cid and s = s])
    case err: error
    with eq show ?thesis by (intro error) (auto simp: mark_read_def ends_failed_def)
  next
    case g: (found conv)
    show ?thesis
    proof (cases "find (\<lambda>m. msg_id m = up_to) (messages ?d)")
      case None
      with g eq w show ?thesis by (intro error) (auto simp: mark_read_def ends_failed_def)
    next
      case (Some anchor)
      have an: "anchor \<in> set (messages ?d)" "msg_id anchor = up_to" using find_Some_mem [OF Some] by auto
      show ?thesis
      proof (cases "conversation_id anchor = cid")
        case False
        with g eq w Some show ?thesis by (intro error) (auto simp: mark_read_def ends_failed_def)
      next
        case True
        let ?p = "to_read user cid (message_key anchor)" and ?f = "set_read (w_now w)"
        let ?tab = "map (\<lambda>m. if ?p m then ?f m else m) (messages ?d)"
        let ?ids = "map msg_id (filter ?p (messages ?d))"
        let ?s1 = "s\<lparr>work := ?d\<lparr>messages := ?tab\<rparr>, pending := read_events w conv user ?ids\<rparr>"
        have ids: "map (msg_id \<circ> ?f) (filter ?p (messages ?d)) = ?ids" by simp
        have unf: "mark_read w user cid up_to s =
          (if ?ids = [] then (Inr \<lparr>rr_conversation_id = cid, rr_message_ids = [], rr_read_at = None\<rparr>,
              s\<lparr>work := ?d\<lparr>messages := ?tab\<rparr>\<rparr>)
           else (case commit w ?s1 of (Inl e, s3) \<Rightarrow> (Inl e, s3)
              | (Inr _, s3) \<Rightarrow> (Inr \<lparr>rr_conversation_id = cid, rr_message_ids = ?ids,
                                   rr_read_at = Some (w_now w)\<rparr>, s3)))"
          using w g Some True by (simp add: mark_read_def Let_def pg_update_def ids enqueue_def read_events_def
              cong: sum.case_cong prod.case_cong)
        show ?thesis
        proof (cases "?ids = []")
          case empty: True
          then have "\<forall>m \<in> set (messages ?d). \<not> ?p m" by (simp add: filter_empty_conv)
          with empty unf eq g an True w show ?thesis by - (rule nothing [of conv anchor], auto simp: ends_failed_def)
        next
          case ne: False
          obtain x s2 where x: "commit w ?s1 = (x, s2)" by (cases "commit w ?s1")
          show ?thesis
          proof (cases x)
            case (Inl e)
            with x commit_error have "s2 = ?s1" by blast
            with Inl x unf eq ne show ?thesis by (intro error) (auto simp: ends_failed_def)
          next
            case (Inr u)
            have "msgs_inv (conversations ?d) (fst (pg_update ?p ?f (messages ?d)))"
              using inv by (intro pg_update_msgs_inv) (auto simp: db_inv_def intro: set_read_status_ok)
            then have "db_inv (w_collate w) (?d\<lparr>messages := ?tab\<rparr>)" using inv by (simp add: db_inv_def pg_update_def)
            then have fi: "db_inv (w_collate w) (flush (w_now w) (read_events w conv user ?ids) (?d\<lparr>messages := ?tab\<rparr>))"
              by (rule flush_inv)
            have "ends_read w s conv user anchor ?ids s'"
              using commit_ok [OF x [unfolded Inr]] x Inr unf eq fi ne g by (simp add: ends_read_def)
            with x Inr unf eq ne g an True w show ?thesis by (intro updated [of ?ids anchor conv]) auto
          qed
        qed
      qed
    qed
  qed
qed

section \<open>The contract of a transactional command\<close>

text \<open>
  What every command of the service promises: the invariant is kept; an error leaves the committed
  tables alone; a change of the tables comes with new unpublished outbox rows and one notification
  of the relay, and nothing else is announced.
\<close>

definition announced :: "db \<Rightarrow> db \<Rightarrow> bool" where
  "announced d d' \<longleftrightarrow> (\<exists>rows. rows \<noteq> [] \<and> outbox d' = outbox d @ rows \<and> (\<forall>r \<in> set rows. published_at r = None))"

locale transactional =
  fixes op :: "world \<Rightarrow> sess \<Rightarrow> (exn + 'r) \<times> sess"
  assumes op_inv: "clean s \<Longrightarrow> db_inv (w_collate w) (committed s) \<Longrightarrow> op w s = (res, s') \<Longrightarrow>
      db_inv (w_collate w) (committed s')"
    and op_error: "clean s \<Longrightarrow> db_inv (w_collate w) (committed s) \<Longrightarrow> op w s = (Inl e, s') \<Longrightarrow> ends_failed s s'"
    and op_effect: "clean s \<Longrightarrow> db_inv (w_collate w) (committed s) \<Longrightarrow> op w s = (res, s') \<Longrightarrow>
      ends_failed s s' \<or> announced (committed s) (committed s') \<and> notified s' = notified s + 1"
begin

lemma tx_atomic: "clean s \<Longrightarrow> db_inv (w_collate w) (committed s) \<Longrightarrow> op w s = (res, s') \<Longrightarrow>
    committed s' \<noteq> committed s \<longleftrightarrow> notified s' = notified s + 1"
  using op_effect [of s w res s'] by (auto simp: ends_failed_def announced_def)

lemma tx_announced: "clean s \<Longrightarrow> db_inv (w_collate w) (committed s) \<Longrightarrow> op w s = (res, s') \<Longrightarrow>
    committed s' \<noteq> committed s \<Longrightarrow> announced (committed s) (committed s')"
  using op_effect [of s w res s'] by (auto simp: ends_failed_def)

text \<open>A sequence of requests, each in a session of its own, on a database of one collation.\<close>

lemma tx_sequence:
  "db_inv coll d \<Longrightarrow> \<forall>w \<in> set reqs. w_collate w = coll \<Longrightarrow>
     db_inv coll (fold (\<lambda>w d. committed (snd (op w (begin_session d)))) reqs d)"
proof (induction reqs arbitrary: d)
  case (Cons w reqs)
  then have "db_inv coll (committed (snd (op w (begin_session d))))"
    using op_inv [of "begin_session d" w "fst (op w (begin_session d))" "snd (op w (begin_session d))"] by simp
  with Cons show ?case by simp
qed simp

end

lemma flush_announced: "ps \<noteq> [] \<Longrightarrow> outbox d' = outbox d \<Longrightarrow> announced d (flush now ps d')"
proof -
  assume ps: "ps \<noteq> []" and d: "outbox d' = outbox d"
  then have "outbox_rows now (outbox_seq d') ps \<noteq> []" by (cases ps) auto
  with d show ?thesis unfolding announced_def
    by (intro exI [of _ "outbox_rows now (outbox_seq d') ps"]) (auto simp: flush_def outbox_rows_unpublished)
qed

lemma ends_announced:
  "ends_created w S s m tab s' \<Longrightarrow> announced (committed s) (committed s') \<and> notified s' = notified s + 1"
  "ends_delivered w s m s' \<Longrightarrow> announced (committed s) (committed s') \<and> notified s' = notified s + 1"
  "ends_read w s conv user anchor ids s' \<Longrightarrow> announced (committed s) (committed s') \<and> notified s' = notified s + 1"
  unfolding ends_created_def ends_delivered_def ends_read_def
  by (auto intro!: flush_announced simp: new_events_def delivered_events_def read_events_def Let_def)

lemmas ends_defs = ends_failed_def ends_replayed_def ends_created_def ends_delivered_def ends_read_def

interpretation send_tx: transactional "\<lambda>w. send_message w S sender r" for S sender r
proof unfold_locales
  fix s w res s'
  assume a: "clean s" "db_inv (w_collate w) (committed s)" "send_message w S sender r s = (res, s')"
  show "db_inv (w_collate w) (committed s')"
    by (cases rule: send_message_cases [OF a]) (use a in \<open>auto simp: ends_defs\<close>)
  show "ends_failed s s' \<or> announced (committed s) (committed s') \<and> notified s' = notified s + 1"
    by (cases rule: send_message_cases [OF a]) (auto dest: ends_announced simp: ends_replayed_def)
next
  fix s w e s'
  assume a: "clean s" "db_inv (w_collate w) (committed s)" "send_message w S sender r s = (Inl e, s')"
  show "ends_failed s s'" by (cases rule: send_message_cases [OF a]) auto
qed

interpretation deliver_tx: transactional "\<lambda>w. mark_delivered w S user mid" for S user mid
proof unfold_locales
  fix s w res s'
  assume a: "clean s" "db_inv (w_collate w) (committed s)" "mark_delivered w S user mid s = (res, s')"
  show "db_inv (w_collate w) (committed s')"
    by (cases rule: mark_delivered_cases [OF a]) (use a in \<open>auto simp: ends_defs\<close>)
  show "ends_failed s s' \<or> announced (committed s) (committed s') \<and> notified s' = notified s + 1"
    by (cases rule: mark_delivered_cases [OF a]) (auto dest: ends_announced simp: ends_failed_def)
next
  fix s w e s'
  assume a: "clean s" "db_inv (w_collate w) (committed s)" "mark_delivered w S user mid s = (Inl e, s')"
  show "ends_failed s s'" by (cases rule: mark_delivered_cases [OF a]) auto
qed

interpretation read_tx: transactional "\<lambda>w. mark_read w user cid up_to" for user cid up_to
proof unfold_locales
  fix s w res s'
  assume a: "clean s" "db_inv (w_collate w) (committed s)" "mark_read w user cid up_to s = (res, s')"
  show "db_inv (w_collate w) (committed s')"
    by (cases rule: mark_read_cases [OF a]) (use a in \<open>auto simp: ends_defs\<close>)
  show "ends_failed s s' \<or> announced (committed s) (committed s') \<and> notified s' = notified s + 1"
    by (cases rule: mark_read_cases [OF a]) (auto dest: ends_announced)
next
  fix s w e s'
  assume a: "clean s" "db_inv (w_collate w) (committed s)" "mark_read w user cid up_to s = (Inl e, s')"
  show "ends_failed s s'" by (cases rule: mark_read_cases [OF a]) auto
qed

end
