(* ===== verification/Samples.thy ===== *)
theory Samples
  imports Chat
begin

text \<open>
  Concrete inputs for the witnesses: two users, a deterministic world for each point in time, a
  settings record and a request.
\<close>

definition alice :: pystr where
  "alice = lit ''alice''"

definition bob :: pystr where
  "bob = lit ''bob''"

definition noon :: "nat \<Rightarrow> datetime" where
  "noon n = \<lparr>dt_year = 2026, dt_month = 9, dt_day = 10, dt_hour = 12, dt_minute = 0, dt_second = n,
     dt_micro = 0, dt_offset = Some 0\<rparr>"

text \<open>The world at second \<open>n\<close>: fresh ids from distinct milliseconds, commits succeed, C collation.\<close>

definition at_second :: "nat \<Rightarrow> world" where
  "at_second n = \<lparr>w_now = noon n, w_db_now = noon n, w_conv_ms = int (1000 * n), w_conv_rand = 1,
     w_msg_ms = int (1000 * n + 1), w_msg_rand = 2, w_commit_error = None, w_collate = (<),
     w_graphemes = length, w_head = (\<lambda>_. HeadClientError (Some (lit ''404''))),
     w_sign = (\<lambda>op bucket key expires. key), w_sign_post = (\<lambda>p. ([], [])), w_dump_dt = isoformat, w_spare = 0\<rparr>"

definition sample_settings :: settings where
  "sample_settings = default_settings (lit ''replica-1'')"

definition hello :: send_request where
  "hello = \<lparr>req_recipient_id = bob, req_client_msg_id = lit ''m1'', req_body = Some (lit ''hello''),
     req_attachment_key = None\<rparr>"

text \<open>The database after alice's first message to bob.\<close>

definition hello_db :: db where
  "hello_db = committed (snd (send_message (at_second 10) sample_settings alice hello (begin_session empty_db)))"

lemma at_second_fields [simp]:
  "w_now (at_second n) = noon n" "w_collate (at_second n) = (<)" "w_commit_error (at_second n) = None"
  "w_graphemes (at_second n) = length"
  by (simp_all add: at_second_def)

end
