(* ===== verification/Chat_Props.thy ===== *)
theory Chat_Props
  imports Chat_Inv Samples
begin

text \<open>
  What clients of the message flow rely on: any interleaving of requests keeps the database
  consistent, a message once stored persists and its receipts only move forward, sends are
  exactly-once per client id, and a send refines an abstract write-once log.
\<close>

section \<open>Requests\<close>

datatype request =
  Send pystr send_request
| Deliver pystr uuid
| Read_up_to pystr uuid uuid

text \<open>One request in a session of its own: the database after it, and how often it woke the relay.\<close>

definition serve :: "settings \<Rightarrow> world \<times> request \<Rightarrow> db \<Rightarrow> db \<times> nat" where
  "serve S q d =
     (let s' = (case q of
        (w, Send u r) \<Rightarrow> snd (send_message w S u r (begin_session d))
      | (w, Deliver u mid) \<Rightarrow> snd (mark_delivered w S u mid (begin_session d))
      | (w, Read_up_to u cid up_to) \<Rightarrow> snd (mark_read w u cid up_to (begin_session d)))
      in (committed s', notified s'))"

definition serve_all :: "settings \<Rightarrow> (world \<times> request) list \<Rightarrow> db \<Rightarrow> db" where
  "serve_all S qs d = fold (\<lambda>q d. fst (serve S q d)) qs d"

lemma serve_all_simps [simp]:
  "serve_all S [] d = d" "serve_all S (q # qs) d = serve_all S qs (fst (serve S q d))"
  by (simp_all add: serve_all_def)

lemma notified_begin [simp]: "notified (begin_session d) = 0"
  by (simp add: begin_session_def)

lemma serve_effect:
  assumes inv: "db_inv coll d" and w: "w_collate (fst q) = coll" and eq: "serve S q d = (d', n)"
  shows "db_inv coll d'" and "d' = d \<and> n = 0 \<or> announced d d' \<and> n = 1"
proof -
  obtain w c where q: "q = (w, c)" by (cases q)
  have i: "db_inv (w_collate w) (committed (begin_session d))" using inv w q by simp
  have "db_inv coll d' \<and> (d' = d \<and> n = 0 \<or> announced d d' \<and> n = 1)"
  proof (cases c)
    case (Send u r)
    obtain x s' where x: "send_message w S u r (begin_session d) = (x, s')" by fastforce
    with eq q Send have "d' = committed s'" "n = notified s'" by (auto simp: serve_def Let_def)
    then show ?thesis using w q send_tx.op_inv [OF clean_begin i x] send_tx.op_effect [OF clean_begin i x]
      by (auto simp: ends_failed_def)
  next
    case (Deliver u mid)
    obtain x s' where x: "mark_delivered w S u mid (begin_session d) = (x, s')" by fastforce
    with eq q Deliver have "d' = committed s'" "n = notified s'" by (auto simp: serve_def Let_def)
    then show ?thesis using w q deliver_tx.op_inv [OF clean_begin i x] deliver_tx.op_effect [OF clean_begin i x]
      by (auto simp: ends_failed_def)
  next
    case (Read_up_to u cid up_to)
    obtain x s' where x: "mark_read w u cid up_to (begin_session d) = (x, s')" by fastforce
    with eq q Read_up_to have "d' = committed s'" "n = notified s'" by (auto simp: serve_def Let_def)
    then show ?thesis using w q read_tx.op_inv [OF clean_begin i x] read_tx.op_effect [OF clean_begin i x]
      by (auto simp: ends_failed_def)
  qed
  then show "db_inv coll d'" "d' = d \<and> n = 0 \<or> announced d d' \<and> n = 1" by simp_all
qed

lemma serve_inv: "db_inv coll d \<Longrightarrow> w_collate (fst q) = coll \<Longrightarrow> db_inv coll (fst (serve S q d))"
  using serve_effect(1) [of coll d q S "fst (serve S q d)" "snd (serve S q d)"] by simp

lemma serve_all_inv:
  "db_inv coll d \<Longrightarrow> \<forall>q \<in> set qs. w_collate (fst q) = coll \<Longrightarrow> db_inv coll (serve_all S qs d)"
  by (induction qs arbitrary: d) (simp_all add: serve_inv)

section \<open>Messages persist and receipts move forward\<close>

text \<open>How a stored message may change: never its identity, its status only upwards, a receipt time once set stays.\<close>

definition advances :: "message \<Rightarrow> message \<Rightarrow> bool" where
  "advances m m' \<longleftrightarrow> same_identity m m' \<and> status m \<le> status m' \<and>
     (delivered_at m \<noteq> None \<longrightarrow> delivered_at m' = delivered_at m) \<and>
     (read_at m \<noteq> None \<longrightarrow> read_at m' = read_at m)"

lemma advances_refl [simp]: "advances m m"
  by (simp add: advances_def same_identity_def)

lemma advances_trans: "advances a b \<Longrightarrow> advances b c \<Longrightarrow> advances a c"
  by (auto simp: advances_def same_identity_def)

lemma advances_delivered: "status_ok m \<Longrightarrow> status m = sent \<Longrightarrow> advances m (set_delivered now m)"
  by (simp add: advances_def status_ok_def less_eq_message_status_def)

lemma advances_read: "status_ok m \<Longrightarrow> status m \<noteq> read \<Longrightarrow> advances m (set_read now m)"
  by (cases "status m")
    (auto simp: advances_def status_ok_def less_eq_message_status_def set_read_def same_identity_def
      split: option.splits)

definition grows :: "db \<Rightarrow> db \<Rightarrow> bool" where
  "grows d d' \<longleftrightarrow> (\<forall>m \<in> set (messages d). \<exists>m' \<in> set (messages d'). advances m m') \<and>
     (\<exists>ms. map msg_id (messages d') = map msg_id (messages d) @ ms)"

lemma grows_refl [simp]: "grows d d"
  by (auto simp: grows_def intro!: exI [of _ "[]"] intro: advances_refl)

lemma grows_trans: "grows a b \<Longrightarrow> grows b c \<Longrightarrow> grows a c"
  unfolding grows_def by (auto, meson advances_trans)

lemma grows_map:
  assumes "messages d' = map f (messages d)" "\<And>m. m \<in> set (messages d) \<Longrightarrow> advances m (f m)"
  shows "grows d d'"
proof -
  have "map msg_id (messages d') = map msg_id (messages d) @ []"
    using assms by (simp add: advances_def same_identity_def)
  then have "\<exists>ms. map msg_id (messages d') = map msg_id (messages d) @ ms" by (rule exI)
  with assms show ?thesis by (simp add: grows_def, intro ballI bexI) auto
qed

lemma grows_append: "messages d' = messages d @ ms \<Longrightarrow> grows d d'"
  unfolding grows_def by (auto intro: advances_refl)

lemma ends_grows:
  assumes inv: "db_inv coll (committed s)"
  shows "ends_failed s s' \<Longrightarrow> grows (committed s) (committed s')"
    and "ends_created w S s m tab s' \<Longrightarrow> grows (committed s) (committed s')"
    and "ends_delivered w s m s' \<Longrightarrow> status m = sent \<Longrightarrow> grows (committed s) (committed s')"
    and "ends_read w s conv user anchor ids s' \<Longrightarrow> grows (committed s) (committed s')"
proof -
  have ok: "status_ok m" if "m \<in> set (messages (committed s))" for m
    using inv that by (simp add: db_inv_def msgs_inv_def)
  show "ends_failed s s' \<Longrightarrow> grows (committed s) (committed s')" by (simp add: ends_failed_def)
  show "ends_created w S s m tab s' \<Longrightarrow> grows (committed s) (committed s')"
    by (rule grows_append [of _ _ "[m]"]) (simp add: ends_created_def)
  show "ends_delivered w s m s' \<Longrightarrow> status m = sent \<Longrightarrow> grows (committed s) (committed s')"
    by (rule grows_map [where f = "\<lambda>x. if x = m then set_delivered (w_now w) x else x"])
      (auto simp: ends_delivered_def intro: advances_delivered ok)
  show "ends_read w s conv user anchor ids s' \<Longrightarrow> grows (committed s) (committed s')"
    by (rule grows_map [where f = "\<lambda>m. if to_read user (conv_id conv) (message_key anchor) m
            then set_read (w_now w) m else m"])
      (auto simp: ends_read_def to_read_def intro: advances_read ok)
qed

lemma serve_grows:
  assumes inv: "db_inv coll d" and w: "w_collate (fst q) = coll"
  shows "grows d (fst (serve S q d))"
proof -
  obtain w c where q: "q = (w, c)" by (cases q)
  have i: "db_inv (w_collate w) (committed (begin_session d))" using inv w q by simp
  note g = ends_grows [OF i]
  show ?thesis
  proof (cases c)
    case (Send u r)
    obtain x s' where x: "send_message w S u r (begin_session d) = (x, s')" by fastforce
    have "grows d (committed s')"
      by (cases rule: send_message_cases [OF clean_begin i x]) (auto dest: g simp: ends_replayed_def)
    with x q Send show ?thesis by (simp add: serve_def)
  next
    case (Deliver u mid)
    obtain x s' where x: "mark_delivered w S u mid (begin_session d) = (x, s')" by fastforce
    have "grows d (committed s')"
      by (cases rule: mark_delivered_cases [OF clean_begin i x]) (auto dest: g)
    with x q Deliver show ?thesis by (simp add: serve_def)
  next
    case (Read_up_to u cid up_to)
    obtain x s' where x: "mark_read w u cid up_to (begin_session d) = (x, s')" by fastforce
    have "grows d (committed s')"
      by (cases rule: mark_read_cases [OF clean_begin i x]) (auto dest: g)
    with x q Read_up_to show ?thesis by (simp add: serve_def)
  qed
qed

lemma serve_all_grows:
  "db_inv coll d \<Longrightarrow> \<forall>q \<in> set qs. w_collate (fst q) = coll \<Longrightarrow> grows d (serve_all S qs d)"
proof (induction qs arbitrary: d)
  case (Cons q qs)
  then have "db_inv coll (fst (serve S q d))" "grows d (fst (serve S q d))"
    by (simp_all add: serve_inv serve_grows)
  with Cons show ?case by (auto intro: grows_trans)
qed simp

section \<open>A valid send succeeds\<close>

text \<open>
  The conditions of a first send: validated request, verified sender, an attachment that passes its
  check, a client id not used yet, fresh ids and a commit that succeeds.
\<close>

definition attachment_outcome :: "world \<Rightarrow> settings \<Rightarrow> pystr \<Rightarrow> send_request \<Rightarrow> exn + pystr option" where
  "attachment_outcome w S sender r =
     (case req_attachment_key r of None \<Rightarrow> Inr None
      | Some k \<Rightarrow> (case check_attachment w S sender k of Inl e \<Rightarrow> Inl e | Inr mime \<Rightarrow> Inr (Some mime)))"

definition send_ready :: "world \<Rightarrow> settings \<Rightarrow> pystr \<Rightarrow> send_request \<Rightarrow> pystr option \<Rightarrow> db \<Rightarrow> bool" where
  "send_ready w S sender r mime d \<longleftrightarrow>
     valid_send r \<and> user_id_ok sender \<and> sender \<noteq> req_recipient_id r \<and>
     pg_text (req_client_msg_id r) \<and> opt_all pg_text (req_attachment_key r) \<and>
     opt_all (\<lambda>b. w_graphemes w b \<le> message_max_graphemes S) (req_body r) \<and>
     attachment_outcome w S sender r = Inr mime \<and> opt_all (varchar 100) mime \<and>
     (sender, req_client_msg_id r) \<notin> client_key ` set (messages d) \<and>
     w_collate w (min sender (req_recipient_id r)) (max sender (req_recipient_id r)) \<and>
     uuid7 (w_conv_ms w) (w_conv_rand w) \<notin> conv_id ` set (conversations d) \<and>
     uuid7 (w_msg_ms w) (w_msg_rand w) \<notin> msg_id ` set (messages d) \<and> w_commit_error w = None"

lemma send_prepare_ready:
  "send_ready w S sender r mime (work s) \<Longrightarrow> send_prepare w S sender r s = (Inr (Proceed mime), s)"
proof -
  assume a: "send_ready w S sender r mime (work s)"
  then have "by_client_msg_id sender (req_client_msg_id r) (work s) = Inr None"
    using user_id_ok_varchar [of sender]
    by (auto simp: send_ready_def by_client_msg_id_def varchar_def one_or_none_def client_key_def image_iff
        filter_eq_Cons_iff split: list.splits)
  with a show ?thesis
    by (auto simp: send_ready_def send_prepare_def attachment_outcome_def opt_all_def
        split: option.splits sum.splits)
qed

lemma get_or_create_ready:
  assumes inv: "convs_inv (w_collate w) (conversations (work s))" and a: "send_ready w S sender r mime (work s)"
  obtains c s1 where "get_or_create_conversation w sender (req_recipient_id r) s = (Inr c, s1)"
proof -
  let ?row = "conversation_row w sender (req_recipient_id r)"
  have v: "varchar USER_ID_LENGTH sender" "varchar USER_ID_LENGTH (req_recipient_id r)"
    using a validate_send_fields [of r r] by (simp_all add: send_ready_def valid_send_def user_id_ok_varchar)
  then have "conversation_check (w_collate w) ?row"
    using a by (simp add: conversation_check_def conversation_row_def send_ready_def min_def max_def)
  then have ins: "pg_insert (conversation_check (w_collate w)) pair_key conv_id ?row (conversations (work s)) \<noteq> Inl e" for e
    using a by (auto simp: pg_insert_def send_ready_def conversation_row_def)
  show ?thesis
  proof (cases "get_or_create_conversation w sender (req_recipient_id r) s")
    case (Pair x s1)
    show ?thesis
    proof (cases x)
      case (Inl e)
      with get_or_create_error [OF inv] Pair ins have False by blast
      then show ?thesis ..
    next
      case (Inr c)
      with Pair that show ?thesis by simp
    qed
  qed
qed

lemma send_ready_message_check:
  assumes "send_ready w S sender r mime d" "conv_id c = cid" "c \<in> set tab"
  shows "message_check tab (new_message w sender r mime cid)"
proof -
  have f: "req_body r \<noteq> None \<or> req_attachment_key r \<noteq> None" "opt_all pg_text (req_body r)"
    "length (req_client_msg_id r) \<le> 64" "opt_all (\<lambda>k. 1 \<le> length k \<and> length k \<le> 512) (req_attachment_key r)"
    "varchar USER_ID_LENGTH (req_recipient_id r)"
    using assms(1) validate_send_fields [of r r] validate_send_content [of r r]
    by (auto simp: send_ready_def valid_send_def user_id_ok_varchar opt_all_def split: option.splits)
  with assms show ?thesis
    by (auto simp: message_check_def send_ready_def varchar_def user_id_ok_varchar [unfolded varchar_def] opt_all_def
        split: option.splits)
qed

lemma user_topic_varchar: "varchar USER_ID_LENGTH u \<Longrightarrow> varchar 128 (user_topic u)"
  by (simp add: varchar_def user_topic_def pg_text_def USER_ID_LENGTH_def lit_Cons)

text \<open>The two phases of a ready send, each with its result.\<close>

lemma send_insert_ready:
  assumes c: "clean s" and inv: "db_inv (w_collate w) (committed s)"
    and a: "send_ready w S sender r mime (committed s)"
  obtains cid tab s' where "send_insert w S sender r mime s = (Inr (to_out w S (new_message w sender r mime cid), True), s')"
    "ends_created w S s (new_message w sender r mime cid) tab s'"
proof -
  let ?d = "committed s"
  have w: "work s = ?d" "pending s = []" using c by (simp_all add: clean_def)
  have ne: "sender \<noteq> req_recipient_id r" using a by (simp add: send_ready_def)
  have ci: "convs_inv (w_collate w) (conversations (work s))" using inv w by (simp add: db_inv_def)
  obtain conv s1 where g: "get_or_create_conversation w sender (req_recipient_id r) s = (Inr conv, s1)"
    using get_or_create_ready [OF ci] a w by metis
  obtain tab where s1: "s1 = s\<lparr>work := (work s)\<lparr>conversations := tab\<rparr>\<rparr>" and cv: "conv \<in> set tab"
    using get_or_create_ok [OF ci ne g] by metis
  define m where "m = new_message w sender r mime (conv_id conv)"
  have "message_check tab m" unfolding m_def by (rule send_ready_message_check [OF a refl cv])
  moreover have "client_key m \<notin> client_key ` set (messages ?d)" "msg_id m \<notin> msg_id ` set (messages ?d)"
    using a by (auto simp: send_ready_def m_def new_message_def client_key_def)
  ultimately have ins: "pg_insert (message_check (conversations (work s1))) client_key msg_id m (messages (work s1))
      = Inr (True, messages ?d @ [m])"
    using w s1 by (simp add: pg_insert_def)
  let ?s2 = "enqueue [req_recipient_id r, sender] (lit ''message.new'') (message_out_json (w_dump_dt w) (to_out w S m))
     (s1\<lparr>work := (work s1)\<lparr>messages := messages ?d @ [m]\<rparr>\<rparr>)"
  have "\<forall>(t, p) \<in> set (pending ?s2). varchar 128 t"
    using a w s1 validate_send_fields [of r r]
    by (auto simp: enqueue_def send_ready_def valid_send_def user_id_ok_varchar user_topic_varchar)
  then have cm: "\<not> (\<exists>e s3. commit w ?s2 = (Inl e, s3))" using a by (simp add: commit_def send_ready_def Let_def)
  obtain x s3 where "commit w ?s2 = (x, s3)" by (cases "commit w ?s2")
  with cm obtain s3 where cm: "commit w ?s2 = (Inr (), s3)" by (cases x) auto
  let ?res = "send_insert w S sender r mime s"
  have r: "fst ?res = Inr (to_out w S m, True)"
    by (simp add: send_insert_def g m_def [symmetric] ins Let_def cm)
  obtain res s' where rs: "?res = (res, s')" by (cases ?res)
  show ?thesis
  proof (cases rule: send_insert_cases [OF c inv not_sym [OF ne] rs])
    case (3 cid tab)
    then show ?thesis using that [of cid s' tab] rs by simp
  qed (use r rs in auto)
qed


lemma send_message_ready:
  assumes inv: "db_inv (w_collate w) d" and a: "send_ready w S sender r mime d"
  obtains cid tab s' where
    "send_message w S sender r (begin_session d) = (Inr (to_out w S (new_message w sender r mime cid), True), s')"
    "ends_created w S (begin_session d) (new_message w sender r mime cid) tab s'"
proof -
  have b: "send_ready w S sender r mime (work (begin_session d))" using a by (simp add: begin_session_def)
  have i': "db_inv (w_collate w) (committed (begin_session d))"
    "send_ready w S sender r mime (committed (begin_session d))" using inv a by simp_all
  obtain cid tab s' where i: "send_insert w S sender r mime (begin_session d) =
      (Inr (to_out w S (new_message w sender r mime cid), True), s')"
    "ends_created w S (begin_session d) (new_message w sender r mime cid) tab s'"
    by (rule send_insert_ready [OF clean_begin i'])
  show ?thesis by (rule that [OF _ i(2)]) (simp add: send_message_def send_prepare_ready [OF b] i(1))
qed

section \<open>The abstract log\<close>

text \<open>
  What a client sees of sends: a write-once map from client keys to contents. \<open>put_once\<close> is its one
  operation; \<open>log_of\<close> abstracts the message table to it.
\<close>

type_synonym content = "pystr \<times> pystr option \<times> pystr option"

datatype put_result = Stored | Already | Conflict

definition put_once :: "'k \<Rightarrow> 'v \<Rightarrow> ('k \<rightharpoonup> 'v) \<Rightarrow> put_result \<times> ('k \<rightharpoonup> 'v)" where
  "put_once k v L =
     (case L k of None \<Rightarrow> (Stored, L(k \<mapsto> v)) | Some v' \<Rightarrow> (if v' = v then Already else Conflict, L))"

definition content_of :: "message \<Rightarrow> content" where
  "content_of m = (recipient_id m, body m, attachment_key m)"

definition request_content :: "send_request \<Rightarrow> content" where
  "request_content r = (req_recipient_id r, req_body r, req_attachment_key r)"

definition log_of :: "db \<Rightarrow> pystr \<times> pystr \<rightharpoonup> content" where
  "log_of d k = map_option content_of (find (\<lambda>m. client_key m = k) (messages d))"

lemma same_content_iff: "same_content m r \<longleftrightarrow> content_of m = request_content r"
  by (auto simp: same_content_def content_of_def request_content_def)

lemma log_of_None: "log_of d k = None \<longleftrightarrow> k \<notin> client_key ` set (messages d)"
  by (auto simp: log_of_def find_None_iff)

lemma log_of_Some:
  assumes "db_inv coll d" "m \<in> set (messages d)"
  shows "log_of d (client_key m) = Some (content_of m)"
proof -
  obtain x where x: "find (\<lambda>x. client_key x = client_key m) (messages d) = Some x"
    using assms(2) by (cases "find (\<lambda>x. client_key x = client_key m) (messages d)") (auto simp: find_None_iff)
  have "x = m" using find_Some_mem [OF x] assms distinct_map_eq [of client_key "messages d" x m]
    by (simp add: db_inv_def msgs_inv_def)
  with x show ?thesis by (simp add: log_of_def)
qed

lemma log_of_append:
  "messages d' = messages d @ [m] \<Longrightarrow> client_key m \<notin> client_key ` set (messages d) \<Longrightarrow>
     log_of d' = (log_of d)(client_key m \<mapsto> content_of m)"
proof
  fix k assume a: "messages d' = messages d @ [m]" "client_key m \<notin> client_key ` set (messages d)"
  have ap: "find p (xs @ [y]) = (case find p xs of Some x \<Rightarrow> Some x | None \<Rightarrow> if p y then Some y else None)"
    for p :: "message \<Rightarrow> bool" and xs y by (induction xs) auto
  show "log_of d' k = ((log_of d)(client_key m \<mapsto> content_of m)) k"
  proof (cases "k = client_key m")
    case True
    with a(2) have "find (\<lambda>x. client_key x = k) (messages d) = None"
      by (auto simp: find_None_iff image_iff)
    with a(1) True show ?thesis by (simp add: log_of_def ap)
  qed (use a(1) in \<open>auto simp: log_of_def ap split: option.splits\<close>)
qed

lemma log_of_cong: "messages d' = messages d \<Longrightarrow> log_of d' = log_of d"
  by (simp add: log_of_def fun_eq_iff)

section \<open>Resends\<close>

text \<open>The request passes the checks made before the first lookup.\<close>

definition sendable :: "world \<Rightarrow> settings \<Rightarrow> pystr \<Rightarrow> send_request \<Rightarrow> bool" where
  "sendable w S sender r \<longleftrightarrow> req_recipient_id r \<noteq> sender \<and>
     opt_all (\<lambda>b. w_graphemes w b \<le> message_max_graphemes S) (req_body r)"

lemma stored_pg_text:
  "db_inv coll d \<Longrightarrow> m \<in> set (messages d) \<Longrightarrow> pg_text (sender_id m) \<and> pg_text (client_msg_id m)"
  by (simp add: db_inv_def msgs_inv_def message_check_def varchar_def)

lemma stored_found:
  assumes "db_inv coll d" "m \<in> set (messages d)" "client_key m = (sender, c)"
  shows "by_client_msg_id sender c d = Inr (Some m)"
  using assms stored_pg_text [OF assms(1,2)]
  by (intro by_client_msg_id_found) (auto simp: db_inv_def msgs_inv_def client_key_def)

lemma resend_stored:
  assumes inv: "db_inv coll d" and m: "m \<in> set (messages d)" "client_key m = (sender, req_client_msg_id r)"
    and ok: "sendable w S sender r"
  shows "send_message w S sender r (begin_session d) =
    (if content_of m = request_content r
     then (Inr (to_out w S m, False), (begin_session d)\<lparr>m_replayed := 1\<rparr>)
     else (Inl (AppError 409 (lit ''idempotency_conflict'')
            (lit ''client_msg_id was already used for another message'')), begin_session d))"
proof -
  have "by_client_msg_id sender (req_client_msg_id r) (work (begin_session d)) = Inr (Some m)"
    using stored_found [OF inv m] by (simp add: begin_session_def)
  then have p: "send_prepare w S sender r (begin_session d) =
      (case replay w S m r (begin_session d) of (Inl e, s') \<Rightarrow> (Inl e, s') | (Inr o', s') \<Rightarrow> (Inr (Replayed o'), s'))"
    using ok by (auto simp: send_prepare_def sendable_def opt_all_def split: option.splits)
  have "m_replayed (begin_session d) = 0" by (simp add: begin_session_def)
  with p show ?thesis
    by (cases rule: replay_cases [where m = m and r = r and w = w and S = S and s = "begin_session d"])
      (simp_all add: send_message_def same_content_iff)
qed

lemma advances_keys:
  "advances m m' \<Longrightarrow> client_key m' = client_key m \<and> content_of m' = content_of m \<and> msg_id m' = msg_id m"
  by (simp add: advances_def same_identity_def client_key_def content_of_def)

lemma grows_stored:
  assumes "grows d d'" "m \<in> set (messages d)"
  obtains m' where "m' \<in> set (messages d')" "client_key m' = client_key m" "content_of m' = content_of m"
    "msg_id m' = msg_id m" "advances m m'"
  using assms advances_keys unfolding grows_def by metis

text \<open>A returned send has its message in the committed table.\<close>

lemma send_returned:
  assumes inv: "db_inv (w_collate w) d" and eq: "send_message w S sender r (begin_session d) = (Inr (out, created), s')"
  obtains m where "m \<in> set (messages (committed s'))" "client_key m = (sender, req_client_msg_id r)"
    "content_of m = request_content r" "out_id out = msg_id m" "db_inv (w_collate w) (committed s')"
proof -
  have i: "db_inv (w_collate w) (committed (begin_session d))" using inv by simp
  have d': "db_inv (w_collate w) (committed s')" by (rule send_tx.op_inv [OF clean_begin i eq])
  show ?thesis
  proof (cases rule: send_message_cases [OF clean_begin i eq])
    case (2 m)
    with d' show ?thesis
      by (intro that [of m]) (auto simp: ends_replayed_def ends_failed_def same_content_iff to_out_def)
  next
    case (3 mime cid tab)
    with d' show ?thesis
      by (intro that [of "new_message w sender r mime cid"])
        (auto simp: ends_created_def to_out_def content_of_def request_content_def)
  qed simp
qed

text \<open>The transaction of a send that lost the race: the key is taken, and the message is replayed.\<close>

lemma send_insert_lost:
  assumes inv: "db_inv (w_collate w) d" and m: "m \<in> set (messages d)" "client_key m = (sender, req_client_msg_id r)"
    and same: "content_of m = request_content r" and mime: "opt_all (varchar 100) mime"
  shows "\<exists>s'. send_insert w S sender r mime (begin_session d) = (Inr (to_out w S m, False), s') \<and> committed s' = d"
proof -
  let ?s = "begin_session d" and ?u = "req_recipient_id r"
  have ids: "sender_id m = sender" "recipient_id m = ?u" "client_msg_id m = req_client_msg_id r"
    "body m = req_body r" "attachment_key m = req_attachment_key r"
    using m(2) same by (simp_all add: client_key_def content_of_def request_content_def)
  obtain c where c: "c \<in> set (conversations d)" "{sender, ?u} = {user_a c, user_b c}" and ne: "sender \<noteq> ?u"
    using inv m(1) ids by (auto simp: db_inv_def msgs_inv_def parties_ok_def)
  have ck: "conversation_check (w_collate w) c" "user_a c < user_b c"
    using inv c(1) by (simp_all add: db_inv_def convs_inv_def)
  with c(2) have ab: "user_a c = min sender ?u" "user_b c = max sender ?u"
    by (auto simp: doubleton_eq_iff min_def max_def)
  have w: "work ?s = d" by (simp add: begin_session_def)
  have ci: "convs_inv (w_collate w) (conversations (work ?s))" using inv w by (simp add: db_inv_def)
  have "conversation_check (w_collate w) (conversation_row w sender ?u)"
    using ck ab by (simp add: conversation_check_def conversation_row_def)
  moreover have "pair_key (conversation_row w sender ?u) \<in> pair_key ` set (conversations d)"
    using c(1) ab by (auto simp: pair_key_def conversation_row_def intro!: image_eqI [of _ _ c])
  ultimately have "pg_insert (conversation_check (w_collate w)) pair_key conv_id (conversation_row w sender ?u)
      (conversations (work ?s)) = Inr (False, conversations d)"
    using w by (simp add: pg_insert_def)
  then have noerr: "get_or_create_conversation w sender ?u ?s \<noteq> (Inl e, s1)" for e s1
    using get_or_create_error [OF ci] by fastforce
  obtain x s1 where "get_or_create_conversation w sender ?u ?s = (x, s1)" by fastforce
  with noerr obtain conv where g: "get_or_create_conversation w sender ?u ?s = (Inr conv, s1)" by (cases x) auto
  obtain tab where s1: "s1 = ?s\<lparr>work := (work ?s)\<lparr>conversations := tab\<rparr>\<rparr>" and cv: "conv \<in> set tab"
    using get_or_create_ok [OF ci ne g] by metis
  let ?m = "new_message w sender r mime (conv_id conv)"
  have "message_check (conversations d) m" using inv m(1) by (simp add: db_inv_def msgs_inv_def)
  then have "message_check tab ?m" using cv mime ids by (auto simp: message_check_def)
  moreover have "client_key ?m \<in> client_key ` set (messages d)" using m by force
  ultimately have ins: "pg_insert (message_check (conversations (work s1))) client_key msg_id ?m (messages (work s1))
      = Inr (False, messages d)"
    using w s1 by (simp add: pg_insert_def)
  have rb: "work (rollback s1) = d" "committed (rollback s1) = d"
    by (simp_all add: s1 rollback_def begin_session_def)
  have "replay w S m r (rollback s1) = (Inr (to_out w S m), (rollback s1)\<lparr>m_replayed := m_replayed (rollback s1) + 1\<rparr>)"
    using same by (simp add: replay_def same_content_iff)
  then show ?thesis using stored_found [OF inv m] rb
    by (simp add: send_insert_def g Let_def ins send_conflict_def)
qed

section \<open>Properties of sends\<close>

text \<open>
  C10. Every sequence of requests, successful or not, keeps the database consistent: unique ids and
  keys, check constraints, members of a conversation as parties of its messages, receipt times that
  agree with the status, outbox ids below the sequence.
\<close>

theorem requests_keep_invariant:
  "\<forall>q \<in> set qs. w_collate (fst q) = coll \<Longrightarrow> db_inv coll (serve_all S qs empty_db)"
  by (rule serve_all_inv [OF empty_db_inv])

text \<open>
  C5. A change is announced if and only if it is durable: after any request the committed tables
  are either untouched and the relay was not woken, or they gained unpublished outbox rows in the
  same commit and the relay was woken once.
\<close>

theorem announced_iff_durable:
  "db_inv coll d \<Longrightarrow> w_collate (fst q) = coll \<Longrightarrow>
     (case serve S q d of (d', woken) \<Rightarrow>
        d' = d \<and> woken = 0 \<or>
        woken = 1 \<and> (\<exists>rows. rows \<noteq> [] \<and> outbox d' = outbox d @ rows \<and> (\<forall>r \<in> set rows. published_at r = None)))"
  by (cases "serve S q d") (auto dest!: serve_effect(2) simp: announced_def)

text \<open>
  A send that creates does exactly this: one message with the request's contents and status
  sent, under a client key not used before, and two unpublished outbox rows carrying the returned
  message, the first to the recipient and the second to the sender's own devices.
\<close>

theorem send_creates_once:
  assumes "db_inv (w_collate w) d" "send_message w S sender r (begin_session d) = (Inr (out, True), s')"
  shows "\<exists>m rows. messages (committed s') = messages d @ [m] \<and> outbox (committed s') = outbox d @ rows \<and>
    out = to_out w S m \<and> content_of m = request_content r \<and> status m = sent \<and> created_at m = w_now w \<and>
    client_key m = (sender, req_client_msg_id r) \<and> client_key m \<notin> client_key ` set (messages d) \<and>
    map topic rows = [user_topic (req_recipient_id r), user_topic sender] \<and>
    (\<forall>x \<in> set rows. published_at x = None \<and>
       payload x = make_event (lit ''message.new'') (message_out_json (w_dump_dt w) out))"
proof -
  have i: "db_inv (w_collate w) (committed (begin_session d))" using assms(1) by simp
  show ?thesis
  proof (cases rule: send_message_cases [OF clean_begin i assms(2)])
    case (3 mime cid tab)
    define m where "m = new_message w sender r mime cid"
    let ?rows = "outbox_rows (w_now w) (outbox_seq d) (new_events w S m)"
    have "messages (committed s') = messages d @ [m]" "outbox (committed s') = outbox d @ ?rows"
      using 3 by (simp_all add: ends_created_def m_def flush_def)
    moreover have "\<forall>x \<in> set ?rows. published_at x = None \<and>
        payload x = make_event (lit ''message.new'') (message_out_json (w_dump_dt w) out)"
      using 3 by (simp add: new_events_def Let_def m_def)
    moreover have "map topic ?rows = [user_topic (req_recipient_id r), user_topic sender]"
      by (simp add: new_events_def Let_def m_def)
    ultimately show ?thesis using 3
      by (intro exI [of _ m] exI [of _ ?rows])
        (auto simp: ends_created_def m_def content_of_def request_content_def)
  qed auto
qed

text \<open>
  C4. Sending refines the write-once log: a send that returns performs exactly \<open>put_once\<close> on the map
  from (sender, client id) to contents, \<open>created\<close> being whether it stored; a send that raises leaves
  the map alone, and a send under a used key with other contents always raises.
\<close>

theorem send_refines_log:
  assumes "db_inv (w_collate w) d" "send_message w S sender r (begin_session d) = (res, s')"
  shows "case res of
      Inr (out, created) \<Rightarrow> put_once (sender, req_client_msg_id r) (request_content r) (log_of d) =
        (if created then Stored else Already, log_of (committed s'))
    | Inl e \<Rightarrow> log_of (committed s') = log_of d"
proof -
  have i: "db_inv (w_collate w) (committed (begin_session d))" using assms(1) by simp
  show ?thesis
  proof (cases rule: send_message_cases [OF clean_begin i assms(2)])
    case (2 m)
    then have "log_of d (client_key m) = Some (request_content r)"
      using log_of_Some [OF assms(1), of m] by (simp add: ends_replayed_def same_content_iff)
    with 2 show ?thesis by (auto simp: put_once_def ends_replayed_def ends_failed_def)
  next
    case (3 mime cid tab)
    let ?m = "new_message w sender r mime cid"
    have n: "client_key ?m \<notin> client_key ` set (messages d)" using 3(2) by (simp add: ends_created_def)
    have "log_of (committed s') = (log_of d)(client_key ?m \<mapsto> content_of ?m)"
      by (rule log_of_append [OF _ n]) (use 3(2) in \<open>simp add: ends_created_def\<close>)
    moreover have "log_of d (client_key ?m) = None" using n by (simp add: log_of_None)
    ultimately show ?thesis using 3(1) by (simp add: put_once_def content_of_def request_content_def)
  qed (auto simp: ends_failed_def)
qed

text \<open>
  C17. A retry at any later time is answered with the stored message: after a send returned, and
  after any further requests of anyone, the same request again returns a message with the same id,
  \<open>created = False\<close>, and changes nothing.
\<close>

theorem resend_returns_same_message:
  assumes "db_inv (w_collate w) d" "send_message w S sender r (begin_session d) = (Inr (out, created), s')"
    "\<forall>q \<in> set qs. w_collate (fst q) = w_collate w" "sendable w' S sender r"
  shows "\<exists>out' s''. send_message w' S sender r (begin_session (serve_all S qs (committed s'))) = (Inr (out', False), s'') \<and>
    out_id out' = out_id out \<and> out_body out' = req_body r \<and> committed s'' = serve_all S qs (committed s') \<and>
    notified s'' = 0"
proof -
  obtain m where m: "m \<in> set (messages (committed s'))" "client_key m = (sender, req_client_msg_id r)"
    "content_of m = request_content r" "out_id out = msg_id m" and inv: "db_inv (w_collate w) (committed s')"
    by (rule send_returned [OF assms(1,2)])
  let ?d = "serve_all S qs (committed s')"
  obtain m' where m': "m' \<in> set (messages ?d)" "client_key m' = client_key m" "content_of m' = content_of m"
    "msg_id m' = msg_id m"
    by (rule grows_stored [OF serve_all_grows [OF inv assms(3)] m(1)])
  have "send_message w' S sender r (begin_session ?d) =
      (Inr (to_out w' S m', False), (begin_session ?d)\<lparr>m_replayed := 1\<rparr>)"
    using resend_stored [OF serve_all_inv [OF inv assms(3)] m'(1) _ assms(4)] m' m by simp
  then show ?thesis using m m' by (simp add: to_out_def content_of_def request_content_def)
qed

text \<open>
  C9. Two concurrent sends of one request store one message: if both sessions found the key free and
  one of them committed, the transaction of the other, run at any later time, rolls back and returns
  the stored message, with \<open>created = False\<close> and the tables unchanged.
\<close>

theorem concurrent_sends_store_one:
  assumes "db_inv (w_collate w) d" "w_collate w' = w_collate w"
    "send_prepare w S sender r (begin_session d) = (Inr (Proceed mime), s)"
    "send_prepare w' S sender r (begin_session d) = (Inr (Proceed mime'), t)"
    "send_insert w S sender r mime s = (Inr (out, True), s')"
    "\<forall>q \<in> set qs. w_collate (fst q) = w_collate w" "opt_all (varchar 100) mime'"
  shows "\<exists>out' t'. send_insert w' S sender r mime' (begin_session (serve_all S qs (committed s'))) = (Inr (out', False), t') \<and>
    out_id out' = out_id out \<and> committed t' = serve_all S qs (committed s')"
proof -
  have "s = begin_session d"
    by (cases rule: send_prepare_cases [OF clean_begin assms(3)]) auto
  then have "send_message w S sender r (begin_session d) = (Inr (out, True), s')"
    using assms(3,5) by (simp add: send_message_def)
  then obtain m where m: "m \<in> set (messages (committed s'))" "client_key m = (sender, req_client_msg_id r)"
    "content_of m = request_content r" "out_id out = msg_id m" and inv: "db_inv (w_collate w) (committed s')"
    by (rule send_returned [OF assms(1)])
  let ?d = "serve_all S qs (committed s')"
  obtain m' where m': "m' \<in> set (messages ?d)" "client_key m' = client_key m" "content_of m' = content_of m"
    "msg_id m' = msg_id m"
    by (rule grows_stored [OF serve_all_grows [OF inv assms(6)] m(1)])
  have "db_inv (w_collate w') ?d" using serve_all_inv [OF inv assms(6)] assms(2) by simp
  from send_insert_lost [OF this m'(1) _ _ assms(7), of sender r S] show ?thesis
    using m m' by (auto simp: to_out_def)
qed

text \<open>
  C35. A validated request of a verified user is accepted: with a fresh client id, an attachment that
  passes its check, fresh row ids, a collation under which the sorted pair is sorted, and a commit
  that goes through, no constraint of the schema is violated and the send returns \<open>created = True\<close>.
\<close>

theorem valid_send_succeeds:
  assumes "db_inv (w_collate w) d" "send_ready w S sender r mime d"
  shows "\<exists>out s'. send_message w S sender r (begin_session d) = (Inr (out, True), s') \<and>
    out_client_msg_id out = req_client_msg_id r \<and> out_attachment_mime out = mime \<and> notified s' = 1"
proof -
  obtain cid tab s' where
    "send_message w S sender r (begin_session d) = (Inr (to_out w S (new_message w sender r mime cid), True), s')"
    "ends_created w S (begin_session d) (new_message w sender r mime cid) tab s'"
    by (rule send_message_ready [OF assms])
  then show ?thesis by (simp add: ends_created_def to_out_def)
qed

text \<open>
  Messages are never lost and receipts never move back: after any sequence of requests every
  stored message is still there with the same identity and contents, its status is the same or
  further along sent, delivered, read, and a receipt time once set has not changed.
\<close>

theorem receipts_move_forward:
  assumes "db_inv coll d" "\<forall>q \<in> set qs. w_collate (fst q) = coll" "m \<in> set (messages d)"
  shows "\<exists>m' \<in> set (messages (serve_all S qs d)). same_identity m m' \<and> status m \<le> status m' \<and>
    (delivered_at m \<noteq> None \<longrightarrow> delivered_at m' = delivered_at m) \<and> (read_at m \<noteq> None \<longrightarrow> read_at m' = read_at m)"
  by (rule grows_stored [OF serve_all_grows [OF assms(1,2)] assms(3)]) (auto simp: advances_def)

section \<open>Properties of receipts\<close>

text \<open>
  C24. A delivery receipt that succeeds was made by the recipient of a stored message, which is
  delivered or read afterwards; every other message is unchanged, and the sender is notified exactly
  when the status changed.
\<close>

theorem delivered_by_recipient:
  assumes "db_inv (w_collate w) d" "mark_delivered w S user mid (begin_session d) = (Inr out, s')"
  shows "\<exists>m \<in> set (messages d). msg_id m = mid \<and> recipient_id m = user \<and> out_id out = mid \<and> out_status out \<noteq> sent \<and>
    messages (committed s') =
      map (\<lambda>x. if x = m \<and> status m = sent then set_delivered (w_now w) x else x) (messages d) \<and>
    map topic (outbox (committed s')) =
      map topic (outbox d) @ (if status m = sent then [user_topic (sender_id m)] else [])"
proof -
  have i: "db_inv (w_collate w) (committed (begin_session d))" using assms(1) by simp
  show ?thesis
  proof (cases rule: mark_delivered_cases [OF clean_begin i assms(2)])
    case (2 m)
    then show ?thesis by (intro bexI [of _ m]) (auto simp: to_out_def)
  next
    case (3 m)
    then show ?thesis
      by (intro bexI [of _ m]) (auto simp: to_out_def ends_delivered_def flush_def delivered_events_def)
  qed simp
qed

text \<open>
  C23. A read receipt marks exactly the incoming messages up to the anchor: the ids returned are the
  unread messages of the conversation addressed to the reader with key at most the anchor's, exactly
  these become read, and the unread count left is the number of unread messages after the anchor.
\<close>

theorem read_up_to_anchor:
  assumes "db_inv (w_collate w) d" "mark_read w user cid up_to (begin_session d) = (Inr rr, s')"
  shows "\<exists>anchor \<in> set (messages d). msg_id anchor = up_to \<and> conversation_id anchor = cid \<and>
    rr_message_ids rr = map msg_id (filter (to_read user cid (message_key anchor)) (messages d)) \<and>
    messages (committed s') =
      map (\<lambda>m. if to_read user cid (message_key anchor) m then set_read (w_now w) m else m) (messages d) \<and>
    unread_count (messages (committed s')) cid user =
      length (filter (\<lambda>m. conversation_id m = cid \<and> recipient_id m = user \<and> status m \<noteq> read \<and>
                        message_key anchor < message_key m) (messages d))"
proof -
  have i: "db_inv (w_collate w) (committed (begin_session d))" using assms(1) by simp
  have un: "unread_count (map (\<lambda>m. if to_read user cid k m then set_read (w_now w) m else m) ms) cid user =
      length (filter (\<lambda>m. conversation_id m = cid \<and> recipient_id m = user \<and> status m \<noteq> read \<and> k < message_key m) ms)"
    for k ms by (induction ms) (auto simp: unread_count_def to_read_def)
  show ?thesis
  proof (cases rule: mark_read_cases [OF clean_begin i assms(2)])
    case (2 conv anchor)
    then have "filter (to_read user cid (message_key anchor)) (messages d) = []"
      "map (\<lambda>m. if to_read user cid (message_key anchor) m then set_read (w_now w) m else m) (messages d) = messages d"
      by (auto simp: filter_empty_conv map_idI)
    with 2 un [of "message_key anchor" "messages d"] show ?thesis
      by (intro bexI [of _ anchor]) (auto simp: ends_failed_def)
  next
    case (3 conv anchor ids)
    with un [of "message_key anchor" "messages d"] show ?thesis
      by (intro bexI [of _ anchor]) (auto simp: ends_read_def)
  qed simp
qed

section \<open>Witnesses\<close>

lemma sample_names [simp]:
  "alice < bob" "alice \<noteq> bob" "bob \<noteq> alice" "user_id_ok alice" "user_id_ok bob" "user_topic alice \<noteq> user_topic bob"
  by (simp_all add: alice_def bob_def lit_Cons user_id_ok_def user_id_char_def user_topic_def)

lemma hello_fields [simp]:
  "req_recipient_id hello = bob" "req_client_msg_id hello = lit ''m1''" "req_attachment_key hello = None"
  "req_body hello = Some (lit ''hello'')"
  by (simp_all add: hello_def)

lemma hello_valid [simp]: "valid_send hello"
proof -
  have "user_id_ok bob" by simp
  then show ?thesis
    by (simp add: valid_send_def validate_send_def has_content_def lit_Cons opt_all_def py_strip_def
        strip_where_def py_space_def)
qed

lemma hello_ready: "send_ready (at_second n) sample_settings alice hello None empty_db"
  by (simp add: send_ready_def at_second_def attachment_outcome_def opt_all_def pg_text_def lit_Cons empty_db_def
      sample_settings_def default_settings_def min_def max_def less_imp_le)

lemma hello_sent:
  obtains out s' cid where "send_message (at_second 10) sample_settings alice hello (begin_session empty_db) = (Inr (out, True), s')"
    "committed s' = hello_db" "messages hello_db = [new_message (at_second 10) alice hello None cid]"
    "db_inv (<) hello_db"
proof -
  have i: "db_inv (w_collate (at_second 10)) empty_db" by (rule empty_db_inv)
  obtain cid tab s' where s: "send_message (at_second 10) sample_settings alice hello (begin_session empty_db) =
      (Inr (to_out (at_second 10) sample_settings (new_message (at_second 10) alice hello None cid), True), s')"
    "ends_created (at_second 10) sample_settings (begin_session empty_db)
      (new_message (at_second 10) alice hello None cid) tab s'"
    by (rule send_message_ready [OF i hello_ready])
  then have c: "committed s' = hello_db" by (simp add: hello_db_def)
  have "messages (committed s') = [new_message (at_second 10) alice hello None cid]" "db_inv (<) (committed s')"
    using s(2) by (simp add: ends_created_def empty_db_def, metis at_second_fields(2) ends_created_def s(2))
  with c show ?thesis by (intro that [OF s(1), of cid]) simp_all
qed

lemma sample_sendable: "sendable (at_second n) sample_settings alice hello"
  by (simp add: sendable_def opt_all_def sample_settings_def default_settings_def lit_Cons)

theorem requests_keep_invariant_witness:
  "db_inv (<) (serve_all sample_settings [(at_second 10, Send alice hello), (at_second 20, Send bob hello)] empty_db)"
  by (rule requests_keep_invariant) simp

theorem announced_iff_durable_witness:
  "case serve sample_settings (at_second 10, Send alice hello) empty_db of (d', woken) \<Rightarrow>
     d' = empty_db \<and> woken = 0 \<or>
     woken = 1 \<and> (\<exists>rows. rows \<noteq> [] \<and> outbox d' = outbox empty_db @ rows \<and> (\<forall>r \<in> set rows. published_at r = None))"
  by (rule announced_iff_durable [OF empty_db_inv [of "(<)"]]) simp

theorem send_creates_once_witness:
  "\<exists>out s' m. send_message (at_second 10) sample_settings alice hello (begin_session empty_db) = (Inr (out, True), s') \<and>
     messages (committed s') = [m] \<and> status m = sent \<and> length (outbox (committed s')) = 2"
proof -
  obtain out s' where s: "send_message (at_second 10) sample_settings alice hello (begin_session empty_db) = (Inr (out, True), s')"
    by (rule hello_sent)
  from send_creates_once [OF empty_db_inv s] obtain m rows where
    "messages (committed s') = [m]" "outbox (committed s') = rows" "status m = sent"
    "map topic rows = [user_topic bob, user_topic alice]" by (auto simp: empty_db_def)
  then have "length (outbox (committed s')) = 2" using length_map [of topic rows] by simp
  with s \<open>messages (committed s') = [m]\<close> \<open>status m = sent\<close> show ?thesis by blast
qed

theorem send_refines_log_witness:
  "case fst (send_message (at_second 10) sample_settings alice hello (begin_session empty_db)) of
      Inr (out, created) \<Rightarrow> put_once (alice, lit ''m1'') (bob, Some (lit ''hello''), None) (log_of empty_db) =
        (if created then Stored else Already, log_of hello_db)
    | Inl e \<Rightarrow> log_of hello_db = log_of empty_db"
proof -
  obtain out s' where s: "send_message (at_second 10) sample_settings alice hello (begin_session empty_db) = (Inr (out, True), s')"
    "committed s' = hello_db" by (rule hello_sent)
  from send_refines_log [OF empty_db_inv s(1)] show ?thesis by (simp add: s request_content_def)
qed

theorem resend_returns_same_message_witness:
  "\<exists>out s' out' s''. send_message (at_second 10) sample_settings alice hello (begin_session empty_db) = (Inr (out, True), s') \<and>
     send_message (at_second 30) sample_settings alice hello
       (begin_session (serve_all sample_settings [(at_second 20, Deliver bob (out_id out))] (committed s'))) =
       (Inr (out', False), s'') \<and> out_id out' = out_id out"
proof -
  obtain out s' where s: "send_message (at_second 10) sample_settings alice hello (begin_session empty_db) = (Inr (out, True), s')"
    by (rule hello_sent)
  from resend_returns_same_message [OF empty_db_inv s, of "[(at_second 20, Deliver bob (out_id out))]" "at_second 30"]
    sample_sendable s show ?thesis by fastforce
qed

theorem concurrent_sends_store_one_witness:
  "\<exists>s t out s' out' t'. send_prepare (at_second 10) sample_settings alice hello (begin_session empty_db) = (Inr (Proceed None), s) \<and>
     send_prepare (at_second 11) sample_settings alice hello (begin_session empty_db) = (Inr (Proceed None), t) \<and>
     send_insert (at_second 10) sample_settings alice hello None s = (Inr (out, True), s') \<and>
     send_insert (at_second 11) sample_settings alice hello None (begin_session (committed s')) = (Inr (out', False), t') \<and>
     out_id out' = out_id out"
proof -
  have p: "send_prepare (at_second n) sample_settings alice hello (begin_session empty_db) =
      (Inr (Proceed None), begin_session empty_db)" for n
    by (rule send_prepare_ready) (simp add: begin_session_def hello_ready)
  obtain out s' where s: "send_message (at_second 10) sample_settings alice hello (begin_session empty_db) = (Inr (out, True), s')"
    by (rule hello_sent)
  then have i: "send_insert (at_second 10) sample_settings alice hello None (begin_session empty_db) = (Inr (out, True), s')"
    by (simp add: send_message_def p)
  have "\<exists>out' t'. send_insert (at_second 11) sample_settings alice hello None (begin_session (committed s')) =
      (Inr (out', False), t') \<and> out_id out' = out_id out"
    using concurrent_sends_store_one [OF empty_db_inv _ p [of 10] p [of 11] i, of "[]"] by (auto simp: opt_all_def)
  with p i show ?thesis by blast
qed

theorem valid_send_succeeds_witness:
  "\<exists>out s'. send_message (at_second 10) sample_settings alice hello (begin_session empty_db) = (Inr (out, True), s') \<and>
     out_client_msg_id out = lit ''m1''"
  using valid_send_succeeds [OF empty_db_inv hello_ready [of 10]] hello_fields(2) by metis

theorem receipts_move_forward_witness:
  "\<exists>m \<in> set (messages hello_db). \<exists>m' \<in> set (messages (serve_all sample_settings [(at_second 20, Deliver bob (msg_id m))] hello_db)).
     same_identity m m' \<and> status m \<le> status m'"
proof -
  obtain cid where m: "messages hello_db = [new_message (at_second 10) alice hello None cid]" "db_inv (<) hello_db"
    by (rule hello_sent)
  let ?m = "new_message (at_second 10) alice hello None cid"
  show ?thesis
    using receipts_move_forward [OF m(2), of "[(at_second 20, Deliver bob (msg_id ?m))]" ?m sample_settings] m(1) by auto
qed

theorem delivered_by_recipient_witness:
  "\<exists>out s'. mark_delivered (at_second 20) sample_settings bob (uuid7 10001 2) (begin_session hello_db) = (Inr out, s') \<and>
     out_status out \<noteq> sent"
proof -
  obtain cid where m: "messages hello_db = [new_message (at_second 10) alice hello None cid]" "db_inv (<) hello_db"
    by (rule hello_sent)
  have i: "db_inv (w_collate (at_second 20)) hello_db" using m(2) by simp
  have id: "msg_id (new_message (at_second 10) alice hello None cid) = uuid7 10001 2"
    by (simp add: new_message_def at_second_def)
  obtain r s' where r: "mark_delivered (at_second 20) sample_settings bob (uuid7 10001 2) (begin_session hello_db) = (r, s')"
    by fastforce
  have "varchar 128 (user_topic alice)" by (simp add: user_topic_varchar user_id_ok_varchar)
  then have "is_ok r"
    using r m id by (auto simp: mark_delivered_def begin_session_def Let_def pg_update_def one_or_none_def commit_def
        enqueue_def)
  then obtain out where "r = Inr out" by (cases r) auto
  with delivered_by_recipient [OF i, of sample_settings bob "uuid7 10001 2" out s'] r show ?thesis by auto
qed

theorem read_up_to_anchor_witness:
  "\<exists>cid rr s'. mark_read (at_second 20) bob cid (uuid7 10001 2) (begin_session hello_db) = (Inr rr, s') \<and>
     unread_count (messages (committed s')) cid bob = 0"
proof -
  obtain cid where m: "messages hello_db = [new_message (at_second 10) alice hello None cid]" "db_inv (<) hello_db"
    by (rule hello_sent)
  let ?m = "new_message (at_second 10) alice hello None cid"
  have i: "db_inv (w_collate (at_second 20)) hello_db" using m(2) by simp
  have id: "msg_id ?m = uuid7 10001 2" by (simp add: new_message_def at_second_def)
  obtain c where c: "c \<in> set (conversations hello_db)" "conv_id c = cid" "{alice, bob} = {user_a c, user_b c}"
    using m by (auto simp: db_inv_def msgs_inv_def parties_ok_def)
  have work: "work (begin_session hello_db) = hello_db" by (simp add: begin_session_def)
  have pend: "pending (begin_session hello_db) = []" by (simp add: begin_session_def)
  have dc: "distinct (map conv_id (conversations hello_db))" using m(2) by (simp add: db_inv_def convs_inv_def)
  have conv: "get_conversation bob cid (begin_session hello_db) = Inr c"
  proof (cases rule: get_conversation_cases [where u = bob and cid = cid and s = "begin_session hello_db"])
    case error
    then show ?thesis using c dc work by (auto simp: doubleton_eq_iff)
  next
    case (found x)
    then show ?thesis using c dc work distinct_map_eq [of conv_id "conversations hello_db" x c] by simp
  qed
  have peer: "peer_of c bob = alice" using c(3) by (auto simp: peer_of_def doubleton_eq_iff)
  have t: "varchar 128 (user_topic alice)" by (simp add: user_topic_varchar user_id_ok_varchar)
  obtain r s' where r: "mark_read (at_second 20) bob cid (uuid7 10001 2) (begin_session hello_db) = (r, s')"
    by fastforce
  have tr: "to_read bob cid (message_key ?m) ?m" by (simp add: to_read_def)
  have "is_ok (fst (mark_read (at_second 20) bob cid (uuid7 10001 2) (begin_session hello_db)))"
    by (simp add: mark_read_def conv work m(1) id tr c(2) peer t Let_def pg_update_def commit_def enqueue_def pend)
  then have "is_ok r" using r by simp
  then obtain rr where "r = Inr rr" by (cases r) auto
  with read_up_to_anchor [OF i, of bob cid "uuid7 10001 2" rr s'] r m id show ?thesis by auto
qed
end
