(* ===== verification/Chat_Query.thy ===== *)
theory Chat_Query
  imports Chat_Props
begin

text \<open>
  The queries of the message flow: the exact window of a page, walks over pages through their
  cursors (the contract of a pager as a locale, interpreted for both directions of
  \<open>list_messages\<close>), access control, and the conversation list.
\<close>

section \<open>Walking pages\<close>

text \<open>A client that follows \<open>next_cursor\<close> while \<open>has_more\<close>, for at most the given number of requests.\<close>

fun walk :: "('c \<Rightarrow> 'a list \<times> 'c \<times> bool) \<Rightarrow> nat \<Rightarrow> 'c \<Rightarrow> 'a list" where
  "walk fetch 0 c = []"
| "walk fetch (Suc k) c =
     (case fetch c of (items, tok, left) \<Rightarrow> items @ (if left then walk fetch k tok else []))"

text \<open>
  What a pager promises about the rows it pages over: a page from the start, or from the token of a
  row, is the next \<open>n\<close> rows; \<open>more\<close> says whether rows are left; if so the token of the page is the
  token of its last row.
\<close>

locale pager =
  fixes ok :: "'s \<Rightarrow> bool" and rows :: "'s \<Rightarrow> 'a list" and tok :: "'a \<Rightarrow> 'c" and start :: 'c
    and fetch :: "'s \<Rightarrow> nat \<Rightarrow> 'c \<Rightarrow> 'a list \<times> 'c \<times> bool"
  assumes fetch_start: "ok s \<Longrightarrow> 0 < n \<Longrightarrow> \<exists>nx. fetch s n start = (take n (rows s), nx, n < length (rows s)) \<and>
      (n < length (rows s) \<longrightarrow> nx = tok (rows s ! (n - 1)))"
    and fetch_next: "ok s \<Longrightarrow> 0 < n \<Longrightarrow> i < length (rows s) \<Longrightarrow>
      \<exists>nx. fetch s n (tok (rows s ! i)) = (take n (drop (Suc i) (rows s)), nx, Suc i + n < length (rows s)) \<and>
      (Suc i + n < length (rows s) \<longrightarrow> nx = tok (rows s ! (i + n)))"
begin

lemma walk_from:
  "ok s \<Longrightarrow> 0 < n \<Longrightarrow> i < length (rows s) \<Longrightarrow> length (rows s) \<le> i + k \<Longrightarrow>
     walk (fetch s n) k (tok (rows s ! i)) = drop (Suc i) (rows s)"
proof (induction k arbitrary: i)
  case (Suc k)
  obtain next' where f: "fetch s n (tok (rows s ! i)) = (take n (drop (Suc i) (rows s)), next', Suc i + n < length (rows s))"
    and nx: "Suc i + n < length (rows s) \<longrightarrow> next' = tok (rows s ! (i + n))"
    using fetch_next [OF Suc.prems(1-3)] by (elim exE conjE)
  show ?case
  proof (cases "Suc i + n < length (rows s)")
    case True
    then have "walk (fetch s n) k next' = drop (Suc (i + n)) (rows s)"
      using Suc.IH [of "i + n"] Suc.prems nx by simp
    moreover have "drop (Suc i) (rows s) = take n (drop (Suc i) (rows s)) @ drop (Suc (i + n)) (rows s)"
      using append_take_drop_id [of n "drop (Suc i) (rows s)"] by (simp add: add.commute)
    ultimately show ?thesis using f True by simp
  qed (use f in simp)
qed simp

text \<open>A walk with one request more than there are rows returns every row once, in order.\<close>

lemma walk_all:
  assumes "ok s" "0 < n" "length (rows s) \<le> k"
  shows "walk (fetch s n) (Suc k) start = rows s"
proof -
  obtain next' where f: "fetch s n start = (take n (rows s), next', n < length (rows s))"
    and nx: "n < length (rows s) \<longrightarrow> next' = tok (rows s ! (n - 1))"
    using fetch_start [OF assms(1,2)] by (elim exE conjE)
  show ?thesis
  proof (cases "n < length (rows s)")
    case True
    then have "walk (fetch s n) k next' = drop n (rows s)"
      using walk_from [OF assms(1,2), of "n - 1" k] assms(2,3) nx by simp
    with f True show ?thesis by simp
  qed (use f in simp)
qed

end

section \<open>Windows of the message table\<close>

definition of_conversation :: "uuid \<Rightarrow> message list \<Rightarrow> message list" where
  "of_conversation cid ms = sort_key message_key (filter (\<lambda>m. conversation_id m = cid) ms)"

definition dates_ok :: "db \<Rightarrow> bool" where
  "dates_ok d \<longleftrightarrow> (\<forall>m \<in> set (messages d). valid_dt (created_at m))"

lemma message_key_inj:
  assumes "distinct (map msg_id ms)"
  shows "distinct (map message_key ms)"
  using assms by (auto simp: distinct_map inj_on_def message_key_def key_of_def)

text \<open>In a list with strictly growing keys, what lies after an element is what has a larger key.\<close>

lemma filter_greater:
  fixes f :: "'a \<Rightarrow> 'k :: linorder"
  shows "sorted_wrt (\<lambda>x y. f x < f y) xs \<Longrightarrow> i < length xs \<Longrightarrow>
     filter (\<lambda>x. f (xs ! i) < f x) xs = drop (Suc i) xs"
proof (induction xs arbitrary: i)
  case (Cons x xs)
  show ?case
  proof (cases i)
    case 0
    with Cons.prems show ?thesis by (simp add: filter_id_conv)
  next
    case (Suc j)
    with Cons.prems have "f x < f (xs ! j)" by simp
    then have "\<not> f (xs ! j) < f x" by simp
    with Suc Cons show ?thesis by simp
  qed
qed simp


lemma of_conversation_sorted:
  assumes "db_inv coll d"
  shows "sorted_wrt (\<lambda>x y. message_key x < message_key y) (of_conversation cid (messages d))"
proof -
  have s: "sorted (map message_key (of_conversation cid (messages d)))" by (simp add: of_conversation_def)
  have "distinct (map message_key (messages d))"
    using assms by (intro message_key_inj) (simp add: db_inv_def msgs_inv_def)
  then have "distinct (map message_key (filter (\<lambda>m. conversation_id m = cid) (messages d)))"
    by (rule distinct_map_filter)
  then have "distinct (map message_key (of_conversation cid (messages d)))"
    by (simp add: of_conversation_def distinct_map)
  with s have "sorted_wrt (<) (map message_key (of_conversation cid (messages d)))"
    by (simp add: strict_sorted_iff)
  then show ?thesis by (simp add: sorted_wrt_map)
qed

lemma filter_of_conversation:
  "sort_key message_key (filter p (filter (\<lambda>m. conversation_id m = cid) ms)) = filter p (of_conversation cid ms)"
  by (simp add: of_conversation_def filter_sort)

lemma parse_encoded [simp]: "valid_dt t \<Longrightarrow> parse_cursor (encode_cursor t i) = Inr (t, i)"
  by (simp add: parse_cursor_def cursors.dec_enc)

lemma given_encoded [simp]: "given (Some (encode_cursor t i))"
  by (simp add: given_def)

lemma given_None [simp]: "\<not> given None"
  by (simp add: given_def)

section \<open>Pages of a conversation\<close>

text \<open>The user is a member of the conversation, and the stored times are real datetimes.\<close>

definition member :: "pystr \<Rightarrow> uuid \<Rightarrow> db \<Rightarrow> bool" where
  "member user cid d \<longleftrightarrow> (\<exists>c \<in> set (conversations d). conv_id c = cid \<and> user \<in> {user_a c, user_b c})"

definition readable :: "(pystr \<Rightarrow> pystr \<Rightarrow> bool) \<Rightarrow> pystr \<Rightarrow> uuid \<Rightarrow> db \<Rightarrow> bool" where
  "readable coll user cid d \<longleftrightarrow> db_inv coll d \<and> dates_ok d \<and> member user cid d"

lemma work_begin [simp]: "work (begin_session d) = d"
  by (simp add: begin_session_def)

lemma get_conversation_member:
  assumes "db_inv coll d"
  shows "member user cid d \<Longrightarrow> \<exists>c. get_conversation user cid (begin_session d) = Inr c \<and> conv_id c = cid"
    and "\<not> member user cid d \<Longrightarrow>
      get_conversation user cid (begin_session d) = Inl (NotFoundError (lit ''Conversation not found''))"
proof -
  have dc: "distinct (map conv_id (conversations d))" using assms by (simp add: db_inv_def convs_inv_def)
  show "\<exists>c. get_conversation user cid (begin_session d) = Inr c \<and> conv_id c = cid" if "member user cid d"
    by (cases rule: get_conversation_cases [where u = user and cid = cid and s = "begin_session d"])
      (use that dc in \<open>auto simp: member_def\<close>)
  show "get_conversation user cid (begin_session d) = Inl (NotFoundError (lit ''Conversation not found''))"
    if "\<not> member user cid d"
    by (cases rule: get_conversation_cases [where u = user and cid = cid and s = "begin_session d"])
      (use that in \<open>auto simp: member_def\<close>)
qed

text \<open>The page made of the rows that are left.\<close>

definition page_from :: "world \<Rightarrow> settings \<Rightarrow> nat \<Rightarrow> message list \<Rightarrow> pystr option \<Rightarrow> message_page" where
  "page_from w S n ms empty_next =
     \<lparr>page_items = map (to_out w S) (take n ms),
      next_cursor = (if n < length ms then Some (out_cursor (to_out w S (ms ! (n - 1)))) else empty_next),
      has_more = n < length ms\<rparr>"

lemma last_take: "0 < n \<Longrightarrow> n < length xs \<Longrightarrow> last (take n xs) = xs ! (n - 1)"
  by (subst last_conv_nth) (auto simp: min_def)



lemma page_rows_after:
  "valid_dt t \<Longrightarrow> page_rows ms cid n None (Some (encode_cursor t i)) =
     Inr (take (Suc n) (filter (\<lambda>m. key_of t i < message_key m) (of_conversation cid ms)))"
  by (simp add: page_rows_def Let_def filter_of_conversation del: filter_filter)

lemma min_Suc: "(take (Suc n) xs = [] \<longleftrightarrow> xs = []) \<and> (n < length (take (Suc n) xs) \<longleftrightarrow> n < length xs) \<and>
    take n (take (Suc n) xs) = take n xs"
  by (auto simp: min_def)



lemma list_messages_after:
  assumes r: "readable coll user cid d" and n: "0 < n" and t: "valid_dt t"
  shows "\<exists>nx. list_messages w S user cid n None (Some (encode_cursor t i)) (begin_session d) =
    Inr (page_from w S n (filter (\<lambda>m. key_of t i < message_key m) (of_conversation cid (messages d))) nx)"
proof -
  obtain c where c: "get_conversation user cid (begin_session d) = Inr c" "conv_id c = cid"
    using r get_conversation_member(1) unfolding readable_def by blast
  let ?ms = "filter (\<lambda>m. key_of t i < message_key m) (of_conversation cid (messages d))"
  let ?nx = "if take n ?ms = [] then Some (encode_cursor t i) else Some (out_cursor (last (map (to_out w S) (take n ?ms))))"
  show ?thesis using n t
    by (intro exI [of _ ?nx]) (auto simp: list_messages_def c page_rows_after Let_def page_from_def min_Suc last_map last_take)
qed

section \<open>Both directions are pagers\<close>

definition page_view :: "exn + message_page \<Rightarrow> message_out list \<times> pystr option \<times> bool" where
  "page_view r = (case r of Inr p \<Rightarrow> (page_items p, next_cursor p, has_more p) | Inl _ \<Rightarrow> ([], None, False))"

text \<open>Catch-up sync from a position: pages with \<open>after\<close>, oldest first.\<close>

definition sync_fetch where
  "sync_fetch w S user cid d n c = page_view (list_messages w S user cid n None c (begin_session d))"

definition sync_rows where
  "sync_rows w S cid k d =
     map (to_out w S) (filter (\<lambda>m. k < message_key m) (of_conversation cid (messages d)))"



definition cursor_token :: "message_out \<Rightarrow> pystr option" where
  "cursor_token o' = Some (out_cursor o')"

lemma page_view_from [simp]:
  "page_view (Inr (page_from w S n ms nx)) =
     (map (to_out w S) (take n ms),
      if n < length ms then cursor_token (to_out w S (ms ! (n - 1))) else nx, n < length ms)"
  by (simp add: page_view_def page_from_def cursor_token_def)

lemma to_out_cursor: "cursor_token (to_out w S m) = Some (encode_cursor (created_at m) (msg_id m))"
  by (simp add: cursor_token_def to_out_def)

lemma of_conversation_mem: "m \<in> set (of_conversation cid ms) \<longleftrightarrow> m \<in> set ms \<and> conversation_id m = cid"
  by (auto simp: of_conversation_def)

lemma sync_next:
  assumes r: "readable coll user cid d" and n: "0 < n" and j: "j < length (sync_rows w S cid k d)"
  shows "\<exists>nx. sync_fetch w S user cid d n (cursor_token (sync_rows w S cid k d ! j)) =
      (take n (drop (Suc j) (sync_rows w S cid k d)), nx, Suc j + n < length (sync_rows w S cid k d)) \<and>
      (Suc j + n < length (sync_rows w S cid k d) \<longrightarrow> nx = cursor_token (sync_rows w S cid k d ! (j + n)))"
proof -
  let ?ofc = "of_conversation cid (messages d)"
  let ?ms = "filter (\<lambda>m. k < message_key m) ?ofc"
  have j': "j < length ?ms" using j by (simp add: sync_rows_def)
  define m where "m = ?ms ! j"
  have m: "m \<in> set ?ofc" "k < message_key m" using nth_mem [OF j'] by (auto simp: m_def)
  then have v: "valid_dt (created_at m)" using r by (simp add: readable_def dates_ok_def of_conversation_mem)
  have key: "key_of (created_at m) (msg_id m) = message_key m" by (simp add: message_key_def)
  have st: "sorted_wrt (\<lambda>x y. message_key x < message_key y) ?ms"
    using r of_conversation_sorted by (auto simp: readable_def intro: sorted_wrt_filter)
  have "filter (\<lambda>x. message_key m < message_key x) ?ofc = filter (\<lambda>x. message_key m < message_key x) ?ms"
    using m(2) by (auto intro: filter_cong less_trans)
  also have "\<dots> = drop (Suc j) ?ms" using filter_greater [OF st j'] by (simp add: m_def)
  finally have rest: "filter (\<lambda>x. message_key m < message_key x) ?ofc = drop (Suc j) ?ms" .
  obtain nx where lm: "list_messages w S user cid n None (Some (encode_cursor (created_at m) (msg_id m))) (begin_session d)
      = Inr (page_from w S n (drop (Suc j) ?ms) nx)"
    using list_messages_after [OF r n v, of w S "msg_id m"] by (auto simp: key rest)
  have tok: "cursor_token (sync_rows w S cid k d ! j) = Some (encode_cursor (created_at m) (msg_id m))"
    using j' by (simp add: sync_rows_def m_def to_out_cursor)
  let ?nx = "if n < length (drop (Suc j) ?ms) then cursor_token (to_out w S (drop (Suc j) ?ms ! (n - 1))) else nx"
  have "sync_fetch w S user cid d n (cursor_token (sync_rows w S cid k d ! j)) =
      (take n (drop (Suc j) (sync_rows w S cid k d)), ?nx, Suc j + n < length (sync_rows w S cid k d))"
    unfolding tok sync_fetch_def lm page_view_from by (auto simp: sync_rows_def take_map drop_map)
  moreover have "?nx = cursor_token (sync_rows w S cid k d ! (j + n))" if "Suc j + n < length (sync_rows w S cid k d)"
    using that n by (auto simp: sync_rows_def nth_drop less_diff_conv add.commute)
  ultimately show ?thesis by blast
qed

lemma sync_start:
  assumes r: "readable coll user cid d" and n: "0 < n" and t: "valid_dt t"
  shows "\<exists>nx. sync_fetch w S user cid d n (Some (encode_cursor t i)) =
      (take n (sync_rows w S cid (key_of t i) d), nx, n < length (sync_rows w S cid (key_of t i) d)) \<and>
      (n < length (sync_rows w S cid (key_of t i) d) \<longrightarrow>
         nx = cursor_token (sync_rows w S cid (key_of t i) d ! (n - 1)))"
proof -
  obtain nx where lm: "list_messages w S user cid n None (Some (encode_cursor t i)) (begin_session d)
      = Inr (page_from w S n (filter (\<lambda>m. key_of t i < message_key m) (of_conversation cid (messages d))) nx)"
    using list_messages_after [OF r n t] by blast
  show ?thesis unfolding sync_fetch_def lm page_view_from
    by (auto simp: sync_rows_def take_map)
qed



interpretation sync: pager "\<lambda>d. readable coll user cid d \<and> valid_dt t" "sync_rows w S cid (key_of t i)" cursor_token
  "Some (encode_cursor t i)" "sync_fetch w S user cid" for coll user cid t i w S
  by (rule pager.intro; elim conjE) (rule sync_start sync_next; assumption)+


section \<open>Properties of the queries\<close>

lemma of_conversation_length: "length (of_conversation cid ms) \<le> length ms"
  by (simp add: of_conversation_def)

text \<open>
  C11. Catch-up sync is complete: a client that starts at any position and follows \<open>after\<close> cursors
  while \<open>has_more\<close>, with any page size, receives exactly the messages of the conversation after that
  position, each once, in order of (created_at, id).
\<close>

theorem sync_walk_complete:
  assumes "db_inv coll d" "dates_ok d" "member user cid d" "valid_dt t" "0 < n" "length (messages d) \<le> k"
  shows "walk (sync_fetch w S user cid d n) (Suc k) (Some (encode_cursor t i)) =
    map (to_out w S) (filter (\<lambda>m. key_of t i < message_key m)
      (sort_key message_key (filter (\<lambda>m. conversation_id m = cid) (messages d))))"
proof -
  have "length (sync_rows w S cid (key_of t i) d) \<le> k"
    unfolding sync_rows_def length_map
    by (rule order_trans [OF length_filter_le], rule order_trans [OF of_conversation_length assms(6)])
  then show ?thesis using sync.walk_all [of coll user cid d t n w S i k] assms(1-5)
    by (simp add: readable_def sync_rows_def of_conversation_def del: filter_filter)
qed


text \<open>
  C18. Nobody reads or marks a conversation they are not part of: for a user who is not one of its two
  members, listing its messages and marking it read fail with the same 404 as for a conversation that
  does not exist; and confirming delivery of a message of others fails as for a missing message.
\<close>

theorem outsiders_get_not_found:
  assumes "db_inv coll d" "\<not> member user cid d" "\<not> (given before \<and> given after)"
    "\<forall>m \<in> set (messages d). msg_id m = mid \<longrightarrow> user \<noteq> sender_id m \<and> user \<noteq> recipient_id m"
  shows "list_messages w S user cid n before after (begin_session d) = Inl (AppError 404 (lit ''not_found'') (lit ''Conversation not found''))
    \<and> fst (mark_read w user cid up_to (begin_session d)) = Inl (AppError 404 (lit ''not_found'') (lit ''Conversation not found''))
    \<and> fst (mark_delivered w S user mid (begin_session d)) = Inl (AppError 404 (lit ''not_found'') (lit ''Message not found''))"
proof (intro conjI)
  note c = get_conversation_member(2) [OF assms(1,2)]
  show "list_messages w S user cid n before after (begin_session d) =
      Inl (AppError 404 (lit ''not_found'') (lit ''Conversation not found''))"
    unfolding list_messages_def if_not_P [OF assms(3)] c by (simp add: NotFoundError_def)
  show "fst (mark_read w user cid up_to (begin_session d)) =
      Inl (AppError 404 (lit ''not_found'') (lit ''Conversation not found''))"
    by (simp add: mark_read_def c NotFoundError_def)
  have "filter (\<lambda>m. msg_id m = mid \<and> recipient_id m = user \<and> status m = sent) (messages d) = []"
    using assms(4) by (auto simp: filter_empty_conv)
  then have u: "pg_update (\<lambda>m. msg_id m = mid \<and> recipient_id m = user \<and> status m = sent) f (messages d)
      = (map (\<lambda>r. if msg_id r = mid \<and> recipient_id r = user \<and> status r = sent then f r else r) (messages d), [])" for f
    by (simp add: pg_update_def)
  show "fst (mark_delivered w S user mid (begin_session d)) =
      Inl (AppError 404 (lit ''not_found'') (lit ''Message not found''))"
  proof (cases "find (\<lambda>m. msg_id m = mid) (messages d)")
    case (Some m)
    with assms(4) find_Some_mem [OF Some] have "user \<noteq> sender_id m" "user \<noteq> recipient_id m" by auto
    with Some show ?thesis by (simp add: mark_delivered_def u one_or_none_def NotFoundError_def Let_def)
  qed (simp add: mark_delivered_def u one_or_none_def NotFoundError_def Let_def)
qed

text \<open>
  A listing fails only as documented: 400 for two cursors or a malformed one, 404 for a
  conversation the user is not part of.
\<close>

theorem list_messages_errors:
  assumes "db_inv coll d" "0 < n" "list_messages w S user cid n before after (begin_session d) = Inl e"
  shows "given before \<and> given after \<and> e = AppError 400 (lit ''bad_request'') (lit ''Use either before or after, not both'') \<or>
    \<not> member user cid d \<and> e = AppError 404 (lit ''not_found'') (lit ''Conversation not found'') \<or>
    (\<exists>raw \<in> {before, after}. given raw \<and> decode_cursor (the raw) = None) \<and>
      e = AppError 400 (lit ''invalid_cursor'') (lit ''Malformed pagination cursor'')"
proof (cases "given before \<and> given after \<or> \<not> member user cid d")
  case True
  show ?thesis
  proof (cases "given before \<and> given after")
    case True
    with assms(3) show ?thesis by (simp add: list_messages_def)
  next
    case two: False
    with True have "\<not> member user cid d" by simp
    note gc = get_conversation_member(2) [OF assms(1) this]
    have "e = NotFoundError (lit ''Conversation not found'')"
      using assms(3) unfolding list_messages_def if_not_P [OF two] gc by simp
    with \<open>\<not> member user cid d\<close> show ?thesis by (simp add: NotFoundError_def)
  qed
next
  case False
  then obtain c where c: "get_conversation user cid (begin_session d) = Inr c"
    using get_conversation_member(1) [OF assms(1)] by blast
  have one: "\<not> (given before \<and> given after)" using False by blast
  note lm = assms(3) [unfolded list_messages_def if_not_P [OF one] c]
  show ?thesis
  proof (cases "page_rows (messages d) (conv_id c) n before after")
    case (Inl e')
    then have "e' = e" using lm by simp
    with Inl False show ?thesis
      by (auto simp: page_rows_def Let_def parse_cursor_def split: if_splits option.splits sum.splits)
  next
    case (Inr rows)
    then show ?thesis using assms(2) lm by (auto simp: Let_def split: if_splits)
  qed
qed

lemma last_message_max:
  "last_message ms cid = Some m \<Longrightarrow> m \<in> set ms \<and> conversation_id m = cid \<and>
     (\<forall>x \<in> set ms. conversation_id x = cid \<longrightarrow> message_key x \<le> message_key m)"
proof -
  assume "last_message ms cid = Some m"
  then obtain xs where r: "rev (of_conversation cid ms) = m # xs"
    by (auto simp: last_message_def of_conversation_def split: list.splits)
  then have o: "of_conversation cid ms = rev xs @ [m]" using rev_eq_Cons_iff by blast
  have "sorted (map message_key (of_conversation cid ms))" by (simp add: of_conversation_def)
  then have "\<forall>x \<in> set xs. message_key x \<le> message_key m" unfolding o by (simp add: sorted_append)
  then have "\<forall>x \<in> set (of_conversation cid ms). message_key x \<le> message_key m" unfolding o by auto
  moreover have "m \<in> set (of_conversation cid ms)" unfolding o by simp
  ultimately show ?thesis by (simp add: of_conversation_mem)
qed

lemma last_message_None: "last_message ms cid = None \<longleftrightarrow> (\<forall>m \<in> set ms. conversation_id m \<noteq> cid)"
proof -
  have "last_message ms cid = None \<longleftrightarrow> of_conversation cid ms = []"
    by (auto simp: last_message_def of_conversation_def split: list.splits)
  also have "\<dots> \<longleftrightarrow> (\<forall>m \<in> set ms. conversation_id m \<noteq> cid)"
    using of_conversation_mem [of _ cid ms] by (metis last_in_set list.set(1) empty_iff)
  finally show ?thesis .
qed

text \<open>
  C37. Every entry of a conversation list is a conversation of the user with the other member as peer,
  at most \<open>limit\<close> of them; its last message is the one with the largest (created_at, id), absent only
  in an empty conversation; its unread count is the number of messages to the user not yet read.
\<close>

theorem conversation_list_entries:
  assumes "e \<in> set (list_conversations w S user n d)"
  shows "length (list_conversations w S user n d) \<le> n \<and>
    (\<exists>c \<in> set (conversations d). co_id e = conv_id c \<and> user \<in> {user_a c, user_b c} \<and> {user, co_peer_id e} = {user_a c, user_b c} \<and>
      co_unread_count e = int (card {i. i < length (messages d) \<and> conversation_id (messages d ! i) = conv_id c \<and>
        recipient_id (messages d ! i) = user \<and> status (messages d ! i) \<noteq> read}) \<and>
      (case co_last_message e of
         None \<Rightarrow> \<forall>m \<in> set (messages d). conversation_id m \<noteq> conv_id c
       | Some out \<Rightarrow> \<exists>m \<in> set (messages d). out = to_out w S m \<and> conversation_id m = conv_id c \<and>
           (\<forall>x \<in> set (messages d). conversation_id x = conv_id c \<longrightarrow> message_key x \<le> message_key m)))"
proof (intro conjI)
  show "length (list_conversations w S user n d) \<le> n" by (simp add: list_conversations_def)
  obtain c where c: "c \<in> set (conversations d)" "user_a c = user \<or> user_b c = user" and
    e: "e = \<lparr>co_id = conv_id c, co_peer_id = peer_of c user, co_created_at = conv_created_at c,
          co_last_message = map_option (to_out w S) (last_message (messages d) (conv_id c)),
          co_unread_count = int (unread_count (messages d) (conv_id c) user)\<rparr>"
    using assms by (auto simp: list_conversations_def dest!: in_set_takeD)
  show "\<exists>c \<in> set (conversations d). co_id e = conv_id c \<and> user \<in> {user_a c, user_b c} \<and> {user, co_peer_id e} = {user_a c, user_b c} \<and>
      co_unread_count e = int (card {i. i < length (messages d) \<and> conversation_id (messages d ! i) = conv_id c \<and>
        recipient_id (messages d ! i) = user \<and> status (messages d ! i) \<noteq> read}) \<and>
      (case co_last_message e of
         None \<Rightarrow> \<forall>m \<in> set (messages d). conversation_id m \<noteq> conv_id c
       | Some out \<Rightarrow> \<exists>m \<in> set (messages d). out = to_out w S m \<and> conversation_id m = conv_id c \<and>
           (\<forall>x \<in> set (messages d). conversation_id x = conv_id c \<longrightarrow> message_key x \<le> message_key m))"
  proof (rule bexI [OF _ c(1)], intro conjI)
    show "case co_last_message e of None \<Rightarrow> \<forall>m \<in> set (messages d). conversation_id m \<noteq> conv_id c
       | Some out \<Rightarrow> \<exists>m \<in> set (messages d). out = to_out w S m \<and> conversation_id m = conv_id c \<and>
           (\<forall>x \<in> set (messages d). conversation_id x = conv_id c \<longrightarrow> message_key x \<le> message_key m)"
    proof (cases "last_message (messages d) (conv_id c)")
      case (Some m)
      with last_message_max [OF Some] e show ?thesis by auto
    qed (simp add: e last_message_None [symmetric])
  qed (use c e in \<open>auto simp: peer_of_def unread_count_def length_filter_conv_card\<close>)
qed

end
