(* ===== verification/Chat_Limits.thy ===== *)
theory Chat_Limits
  imports Chat_Query
begin

text \<open>
  What the message flow does not give: three behaviours at the edge of its contract, each proved of
  the model, and the witnesses of the query properties.
\<close>

section \<open>Sample pages\<close>

lemma noon_valid [simp]: "n < 60 \<Longrightarrow> valid_dt (noon n)"
  by (simp add: valid_dt_def noon_def days_in_month_def)

lemma hello_readable:
  obtains cid where "messages hello_db = [new_message (at_second 10) alice hello None cid]" "db_inv (<) hello_db"
    "dates_ok hello_db" "member bob cid hello_db" "member alice cid hello_db"
proof -
  obtain cid where m: "messages hello_db = [new_message (at_second 10) alice hello None cid]" "db_inv (<) hello_db"
    by (rule hello_sent)
  have "parties_ok (conversations hello_db) (new_message (at_second 10) alice hello None cid)"
    using m by (simp add: db_inv_def msgs_inv_def)
  then have "member bob cid hello_db" "member alice cid hello_db"
    by (auto simp: parties_ok_def member_def doubleton_eq_iff)
  moreover have "dates_ok hello_db" using m by (simp add: dates_ok_def)
  ultimately show ?thesis using m that by blast
qed

theorem sync_walk_complete_witness:
  "\<exists>cid out. walk (sync_fetch (at_second 30) sample_settings bob cid hello_db 10) (Suc 20) (Some (encode_cursor (noon 5) 0)) = [out] \<and>
     out_body out = Some (lit ''hello'')"
proof -
  obtain cid where m: "messages hello_db = [new_message (at_second 10) alice hello None cid]" and
    h: "db_inv (<) hello_db" "dates_ok hello_db" "member bob cid hello_db" by (rule hello_readable)
  have "key_of (noon 5) 0 < message_key (new_message (at_second 10) alice hello None cid)"
    by (simp add: key_of_def message_key_def less_prod_def instant_def noon_def Let_def)
  then have "walk (sync_fetch (at_second 30) sample_settings bob cid hello_db 10) (Suc 20) (Some (encode_cursor (noon 5) 0)) =
      [to_out (at_second 30) sample_settings (new_message (at_second 10) alice hello None cid)]"
    using sync_walk_complete [OF h, of "noon 5" 10 20 "at_second 30" sample_settings 0] m by simp
  then show ?thesis by (intro exI conjI) (assumption, simp add: to_out_def)
qed


theorem list_messages_errors_witness:
  "list_messages (at_second 30) sample_settings alice 7 1 None None (begin_session empty_db) =
     Inl (NotFoundError (lit ''Conversation not found'')) \<and> \<not> member alice 7 empty_db"
proof -
  have e: "list_messages (at_second 30) sample_settings alice 7 1 None None (begin_session empty_db) =
     Inl (NotFoundError (lit ''Conversation not found''))"
    by (simp add: list_messages_def get_conversation_def empty_db_def)
  from list_messages_errors [OF empty_db_inv _ e] have "\<not> member alice 7 empty_db" by auto
  with e show ?thesis by simp
qed

theorem conversation_list_entries_witness:
  "\<exists>n. \<exists>e \<in> set (list_conversations (at_second 30) sample_settings bob n hello_db). co_peer_id e = alice \<and> co_unread_count e = 1"
proof -
  obtain cid where m: "messages hello_db = [new_message (at_second 10) alice hello None cid]" and
    h: "db_inv (<) hello_db" by (rule hello_readable)
  have dc: "distinct (map conv_id (conversations hello_db))" using h by (simp add: db_inv_def convs_inv_def)
  obtain c where c: "c \<in> set (conversations hello_db)" "conv_id c = cid" "{alice, bob} = {user_a c, user_b c}"
    using h m by (auto simp: db_inv_def msgs_inv_def parties_ok_def)
  let ?n = "length (conversations hello_db)"
  let ?l = "list_conversations (at_second 30) sample_settings bob ?n hello_db"
  have "length (filter (\<lambda>c. user_a c = bob \<or> user_b c = bob) (conversations hello_db)) \<le> ?n" by simp
  then have "\<exists>e \<in> set ?l. co_id e = cid" using c by (force simp: list_conversations_def doubleton_eq_iff)
  then obtain e where e: "e \<in> set ?l" "co_id e = cid" by blast
  obtain c' where c': "c' \<in> set (conversations hello_db)" "co_id e = conv_id c'"
    "{bob, co_peer_id e} = {user_a c', user_b c'}"
    "co_unread_count e = int (card {i. i < length (messages hello_db) \<and> conversation_id (messages hello_db ! i) = conv_id c' \<and>
        recipient_id (messages hello_db ! i) = bob \<and> status (messages hello_db ! i) \<noteq> read})"
    using conversation_list_entries [OF e(1)] by blast
  have "c' = c" using distinct_map_eq [OF dc c'(1) c(1)] c'(2) c(2) e(2) by simp
  then have "co_peer_id e = alice" using c'(3) c(3) by (auto simp: doubleton_eq_iff)
  moreover have "{i. i < length (messages hello_db) \<and> conversation_id (messages hello_db ! i) = conv_id c' \<and>
        recipient_id (messages hello_db ! i) = bob \<and> status (messages hello_db ! i) \<noteq> read} = {0}"
    using m c(2) \<open>c' = c\<close> by auto
  ultimately show ?thesis using e(1) c'(4) by auto
qed

section \<open>Edges of the contract\<close>

text \<open>
  Catch-up sync can miss a message: \<open>created_at\<close> is taken before the commit, so a message that
  commits after another one of the conversation with a later \<open>created_at\<close> is not returned to a
  recipient who had already synced to that one's cursor, however many pages they fetch.
\<close>

theorem late_commit_missed_by_sync:
  assumes "db_inv (w_collate w) d" "dates_ok d" "valid_dt (w_now w)"
    "send_message w S sender r (begin_session d) = (Inr (late, True), s')"
    "m \<in> set (messages d)" "instant (w_now w) < instant (created_at m)" "0 < n"
  shows "\<exists>x \<in> set (messages (committed s')). msg_id x = out_id late \<and> recipient_id x = req_recipient_id r \<and>
    out_id late \<notin> out_id ` set (walk
      (sync_fetch w' S (req_recipient_id r) (out_conversation_id late) (committed s') n)
      (Suc (length (messages (committed s')))) (Some (out_cursor (to_out w S m))))"
proof -
  have i: "db_inv (w_collate w) (committed (begin_session d))" using assms(1) by simp
  show ?thesis
  proof (cases rule: send_message_cases [OF clean_begin i assms(4)])
    case (3 mime cid tab)
    let ?x = "new_message w sender r mime cid" and ?d = "committed s'"
    have inv: "db_inv (w_collate w) ?d" by (rule send_tx.op_inv [OF clean_begin i assms(4)])
    have ms: "messages ?d = messages d @ [?x]" using 3(2) by (simp add: ends_created_def)
    have late: "late = to_out w S ?x" using 3(1) by simp
    have x: "?x \<in> set (messages ?d)" using ms by simp
    have "dates_ok ?d" using assms(2,3) ms by (auto simp: dates_ok_def)
    moreover have "parties_ok (conversations ?d) ?x" using inv x by (simp add: db_inv_def msgs_inv_def)
    then have "member (req_recipient_id r) cid ?d"
      by (auto simp: parties_ok_def member_def doubleton_eq_iff)
    moreover have "valid_dt (created_at m)" using assms(2,5) by (simp add: dates_ok_def)
    ultimately have walk: "walk (sync_fetch w' S (req_recipient_id r) cid ?d n) (Suc (length (messages ?d)))
        (Some (encode_cursor (created_at m) (msg_id m))) =
      map (to_out w' S) (filter (\<lambda>x. key_of (created_at m) (msg_id m) < message_key x)
        (sort_key message_key (filter (\<lambda>x. conversation_id x = cid) (messages ?d))))" (is "_ = map _ ?rest")
      by (intro sync_walk_complete [OF inv]) (use assms(7) in auto)
    have no: "msg_id ?x \<noteq> msg_id y" if "y \<in> set ?rest" for y
    proof
      assume "msg_id ?x = msg_id y"
      then have "y = ?x" using msg_id_inject [OF inv x] that by auto
      with that assms(6) show False by (simp add: key_of_def message_key_def less_prod_def)
    qed
    have "out_id late \<notin> out_id ` set (map (to_out w' S) ?rest)"
    proof
      assume "out_id late \<in> out_id ` set (map (to_out w' S) ?rest)"
      then obtain y where y: "y \<in> set ?rest" "out_id late = out_id (to_out w' S y)"
        unfolding set_map by blast
      from no [OF y(1)] y(2) show False by (simp add: late to_out_def)
    qed
    then show ?thesis using x unfolding walk [symmetric]
      by (intro bexI [of _ ?x]) (simp_all add: late to_out_def)
  qed simp_all
qed

text \<open>
  A client id with a NUL character passes validation and is refused by the database: the request
  is answered 503, not 422.
\<close>

theorem nul_client_id_is_unavailable:
  assumes "0 \<in> set (req_client_msg_id r)" "sendable w S sender r"
  shows "fst (send_message w S sender r (begin_session d)) = Inl DBAPIError \<and>
    map_option fst (handle_exn rid DBAPIError) = Some 503"
proof -
  have "by_client_msg_id sender (req_client_msg_id r) d = Inl DBAPIError"
    using assms(1) by (simp add: by_client_msg_id_def pg_text_def)
  then have "send_prepare w S sender r (begin_session d) = (Inl DBAPIError, begin_session d)"
    using assms(2) by (auto simp: send_prepare_def sendable_def opt_all_def split: option.splits)
  then show ?thesis by (simp add: send_message_def dependency_down_def error_response_def)
qed

text \<open>
  The pair of a conversation is sorted by code points, and the database checks it with its own
  collation: where that disagrees on the two ids (a language collation does for an upper-case and a
  lower-case name), the first message between the two users is answered 503.
\<close>

theorem collation_mismatch_is_unavailable:
  assumes "send_prepare w S sender r (begin_session d) = (Inr (Proceed mime), s)"
    "\<not> w_collate w (min sender (req_recipient_id r)) (max sender (req_recipient_id r))"
  shows "fst (send_message w S sender r (begin_session d)) = Inl DBAPIError \<and>
    map_option fst (handle_exn rid DBAPIError) = Some 503"
proof -
  have "\<not> conversation_check (w_collate w) \<lparr>conv_id = uuid7 (w_conv_ms w) (w_conv_rand w),
      user_a = min sender (req_recipient_id r), user_b = max sender (req_recipient_id r), conv_created_at = w_db_now w\<rparr>"
    using assms(2) by (simp add: conversation_check_def)
  then have "get_or_create_conversation w sender (req_recipient_id r) s = (Inl DBAPIError, s)"
    by (simp add: get_or_create_conversation_def pg_insert_def)
  with assms(1) show ?thesis
    by (simp add: send_message_def send_insert_def dependency_down_def error_response_def)
qed

section \<open>Samples at the edges\<close>

definition hello_conversation :: conversation where
  "hello_conversation = \<lparr>conv_id = uuid7 10000 1, user_a = alice, user_b = bob, conv_created_at = noon 10\<rparr>"

lemma hello_db_value:
  "conversations hello_db = [hello_conversation]"
  "messages hello_db = [new_message (at_second 10) alice hello None (uuid7 10000 1)]"
proof -
  let ?m = "new_message (at_second 10) alice hello None (uuid7 10000 1)"
  have p: "send_prepare (at_second 10) sample_settings alice hello (begin_session empty_db) =
      (Inr (Proceed None), begin_session empty_db)"
    by (rule send_prepare_ready) (simp add: begin_session_def hello_ready)
  have v: "varchar USER_ID_LENGTH alice" "varchar USER_ID_LENGTH bob" by (simp_all add: user_id_ok_varchar)
  have mm: "min alice bob = alice" "max alice bob = bob" by (simp_all add: min_def max_def less_imp_le)
  have g: "get_or_create_conversation (at_second 10) alice bob (begin_session empty_db) =
      (Inr hello_conversation, (begin_session empty_db)\<lparr>work := empty_db\<lparr>conversations := [hello_conversation]\<rparr>\<rparr>)"
    using v by (simp add: get_or_create_conversation_def mm pg_insert_def conversation_check_def empty_db_def
        exactly_one_def hello_conversation_def at_second_def Let_def)
  have "message_check [hello_conversation] ?m"
    by (rule send_ready_message_check [OF hello_ready]) (simp_all add: hello_conversation_def)
  then have ins: "pg_insert (message_check [hello_conversation]) client_key msg_id ?m [] = Inr (True, [?m])"
    by (simp add: pg_insert_def)
  have t: "varchar 128 (user_topic alice)" "varchar 128 (user_topic bob)" using v by (simp_all add: user_topic_varchar)
  have e: "messages empty_db = []" "pending (begin_session empty_db) = []"
    by (simp_all add: empty_db_def begin_session_def)
  have ci: "conv_id hello_conversation = uuid7 10000 1" by (simp add: hello_conversation_def)
  have "conversations hello_db = [hello_conversation] \<and> messages hello_db = [?m]"
    using t e by (simp add: hello_db_def send_message_def p send_insert_def g ci ins Let_def commit_def enqueue_def
        flush_def)
  then show "conversations hello_db = [hello_conversation]" "messages hello_db = [?m]" by simp_all
qed

text \<open>Mallory asks for the conversation of alice and bob, and for the message in it.\<close>

theorem outsiders_get_not_found_witness:
  "list_messages (at_second 30) sample_settings (lit ''mallory'') (uuid7 10000 1) 50 None None (begin_session hello_db) =
     Inl (AppError 404 (lit ''not_found'') (lit ''Conversation not found'')) \<and>
   fst (mark_read (at_second 30) (lit ''mallory'') (uuid7 10000 1) (uuid7 10001 2) (begin_session hello_db)) =
     Inl (AppError 404 (lit ''not_found'') (lit ''Conversation not found'')) \<and>
   fst (mark_delivered (at_second 30) sample_settings (lit ''mallory'') (uuid7 10001 2) (begin_session hello_db)) =
     Inl (AppError 404 (lit ''not_found'') (lit ''Message not found'')) \<and>
   conversations hello_db = [hello_conversation] \<and> conv_id hello_conversation = uuid7 10000 1 \<and>
   map msg_id (messages hello_db) = [uuid7 10001 2]"
proof -
  have n: "lit ''mallory'' \<noteq> alice" "lit ''mallory'' \<noteq> bob" by (simp_all add: alice_def bob_def lit_Cons)
  have m: "\<not> member (lit ''mallory'') (uuid7 10000 1) hello_db"
    using n by (simp add: member_def hello_db_value hello_conversation_def)
  have p: "\<forall>m \<in> set (messages hello_db). msg_id m = uuid7 10001 2 \<longrightarrow> lit ''mallory'' \<noteq> sender_id m \<and> lit ''mallory'' \<noteq> recipient_id m"
    using n by (simp add: hello_db_value new_message_def hello_def)
  have i: "map msg_id (messages hello_db) = [uuid7 10001 2]"
    by (simp add: hello_db_value new_message_def at_second_def)
  obtain cid where h: "db_inv (<) hello_db" by (rule hello_readable)
  have g: "\<not> (given None \<and> given None)" by (simp add: given_def)
  from outsiders_get_not_found [OF h m g p, of "at_second 30" sample_settings 50 "uuid7 10001 2"] i show ?thesis
    by (simp add: hello_db_value hello_conversation_def)
qed

definition hello_again :: send_request where
  "hello_again = hello\<lparr>req_client_msg_id := lit ''m2''\<rparr>"

lemma hello_again_ready: "send_ready (at_second 5) sample_settings alice hello_again None hello_db"
proof -
  have v: "valid_send hello_again"
  proof -
    have "user_id_ok bob" by simp
    then show ?thesis
      by (simp add: valid_send_def validate_send_def has_content_def lit_Cons opt_all_def py_strip_def
          strip_where_def py_space_def hello_again_def)
  qed
  have u: "uuid7 5000 1 \<noteq> uuid7 10000 1" "uuid7 5001 2 \<noteq> uuid7 10001 2"
    using uuid7_less [of 5000 10000 1 1] uuid7_less [of 5001 10001 2 2] by auto
  have c: "conv_id hello_conversation = uuid7 10000 1" by (simp add: hello_conversation_def)
  have m: "msg_id (new_message (at_second 10) alice hello None (uuid7 10000 1)) = uuid7 10001 2"
    by (simp add: new_message_def at_second_def)
  show ?thesis
    using v u by (simp add: send_ready_def hello_db_value c m)
      (simp add: hello_again_def at_second_def attachment_outcome_def opt_all_def pg_text_def lit_Cons
        sample_settings_def default_settings_def min_def max_def less_imp_le)
qed

theorem late_commit_missed_by_sync_witness:
  "\<exists>late s'. send_message (at_second 5) sample_settings alice hello_again (begin_session hello_db) = (Inr (late, True), s') \<and>
     out_id late \<notin> out_id ` set (walk
       (sync_fetch (at_second 30) sample_settings bob (out_conversation_id late) (committed s') 10)
       (Suc (length (messages (committed s'))))
       (Some (out_cursor (to_out (at_second 5) sample_settings (new_message (at_second 10) alice hello None (uuid7 10000 1))))))"
proof -
  obtain cid where h: "db_inv (<) hello_db" "dates_ok hello_db" by (rule hello_readable)
  have i: "db_inv (w_collate (at_second 5)) hello_db" using h(1) by simp
  obtain late s' where s: "send_message (at_second 5) sample_settings alice hello_again (begin_session hello_db) = (Inr (late, True), s')"
    using send_message_ready [OF i hello_again_ready] by metis
  have t: "instant (w_now (at_second 5)) < instant (created_at (new_message (at_second 10) alice hello None (uuid7 10000 1)))"
    by (simp add: instant_def noon_def Let_def)
  have r: "req_recipient_id hello_again = bob" by (simp add: hello_again_def)
  from late_commit_missed_by_sync [OF i h(2) _ s _ t, of 10 "at_second 30"] s show ?thesis
    by (auto simp: hello_db_value r)
qed

definition nul_request :: send_request where
  "nul_request = hello\<lparr>req_client_msg_id := [0]\<rparr>"

theorem nul_client_id_is_unavailable_witness:
  "validate_send nul_request = Some nul_request \<and>
   fst (send_message (at_second 10) sample_settings alice nul_request (begin_session empty_db)) = Inl DBAPIError"
proof -
  have "user_id_ok bob" by simp
  then have v: "validate_send nul_request = Some nul_request"
    by (simp add: validate_send_def has_content_def lit_Cons opt_all_def py_strip_def strip_where_def py_space_def
        nul_request_def)
  have "sendable (at_second 10) sample_settings alice nul_request"
    by (simp add: sendable_def opt_all_def sample_settings_def default_settings_def lit_Cons nul_request_def)
  from nul_client_id_is_unavailable [OF _ this] v show ?thesis by (auto simp: nul_request_def)
qed

text \<open>A collation that ignores case, as language collations do.\<close>

definition language_world :: world where
  "language_world = (at_second 10)\<lparr>w_collate := (\<lambda>a b. py_lower a < py_lower b)\<rparr>"

definition to_Bob :: send_request where
  "to_Bob = hello\<lparr>req_recipient_id := lit ''Bob''\<rparr>"

theorem collation_mismatch_is_unavailable_witness:
  "fst (send_message language_world sample_settings alice to_Bob (begin_session empty_db)) = Inl DBAPIError"
proof -
  have p: "send_prepare language_world sample_settings alice to_Bob (begin_session empty_db) =
      (Inr (Proceed None), begin_session empty_db)"
    by (simp add: send_prepare_def language_world_def to_Bob_def by_client_msg_id_def one_or_none_def empty_db_def
        sample_settings_def default_settings_def alice_def lit_Cons pg_text_def)
  have "\<not> w_collate language_world (min alice (req_recipient_id to_Bob)) (max alice (req_recipient_id to_Bob))"
    by (simp add: language_world_def to_Bob_def alice_def lit_Cons min_def max_def py_lower_def)
  from collation_mismatch_is_unavailable [OF p this] show ?thesis by blast
qed

end
