(* ===== verification/Hub.thy ===== *)
theory Hub
  imports Session
begin

text \<open>
  \<^verbatim>\<open>app/realtime/hub.py\<close>: the queue of one WebSocket connection, the registry of local users, the
  queue of subscription requests, the pub/sub loop and the dispatch of channel messages.
\<close>

section \<open>Channels\<close>

definition CHANNEL_PREFIX :: pystr where
  "CHANNEL_PREFIX = lit ''chat:''"

definition MAX_PENDING_EVENTS :: nat where
  "MAX_PENDING_EVENTS = 1000"

definition user_channel :: "pystr \<Rightarrow> pystr" where
  "user_channel user_id = CHANNEL_PREFIX @ lit ''user:'' @ user_id"

definition topic_channel :: "pystr \<Rightarrow> pystr" where
  "topic_channel t = CHANNEL_PREFIX @ t"

definition control_channel :: "pystr \<Rightarrow> pystr" where
  "control_channel replica = CHANNEL_PREFIX @ lit ''replica:'' @ replica"

lemma user_channel_inject [simp]: "user_channel a = user_channel b \<longleftrightarrow> a = b"
  by (simp add: user_channel_def)

lemma control_channel_user [simp]: "control_channel r \<noteq> user_channel u" "user_channel u \<noteq> control_channel r"
  by (simp_all add: user_channel_def control_channel_def lit_Cons)

section \<open>A connection\<close>

datatype queue_item = Event json | CloseRequest int pystr

text \<open>A connection: its user, the flag and the queue; \<open>c_id\<close> is the object's identity.\<close>

record conn =
  c_id :: nat
  c_user :: pystr
  closing :: bool
  queue :: "queue_item list"

definition new_conn :: "nat \<Rightarrow> pystr \<Rightarrow> conn" where
  "new_conn i user = \<lparr>c_id = i, c_user = user, closing = False, queue = []\<rparr>"

definition close :: "int \<Rightarrow> pystr \<Rightarrow> conn \<Rightarrow> conn" where
  "close n reason c =
     (if \<not> closing c then c\<lparr>closing := True, queue := queue c @ [CloseRequest n reason]\<rparr> else c)"

definition send_nowait :: "json \<Rightarrow> conn \<Rightarrow> conn" where
  "send_nowait event c =
     (if closing c then c
      else if MAX_PENDING_EVENTS \<le> length (queue c)
        then close 1013 (lit ''client too slow, reconnect and sync'') c
      else c\<lparr>queue := queue c @ [Event event]\<rparr>)"

text \<open>\<open>None\<close>: the queue is empty and the reader of it waits.\<close>

definition next_event :: "conn \<Rightarrow> (queue_item \<times> conn) option" where
  "next_event c = (case queue c of [] \<Rightarrow> None | x # xs \<Rightarrow> Some (x, c\<lparr>queue := xs\<rparr>))"

section \<open>The hub\<close>

datatype sub_op = Subscribe | Unsubscribe

text \<open>
  The hub of a replica: \<open>local_conns\<close> is the dict of users to their connections (by identity),
  \<open>conns\<close> holds the connection objects, \<open>requests\<close> the queued subscription changes with the
  identity of the future each one resolves, \<open>resolved\<close> the futures that are done. \<open>subscribed\<close> are
  the channels of the current pub/sub connection, \<open>listening\<close> says whether there is one, and
  \<open>connected\<close> is the event of that name. \<open>ws_connections\<close> is the gauge.
\<close>

record hub =
  control :: pystr
  local_conns :: "(pystr \<times> nat list) list"
  conns :: "nat \<Rightarrow> conn option"
  requests :: "(sub_op \<times> pystr \<times> nat) list"
  next_future :: nat
  resolved :: "nat list"
  subscribed :: "pystr set"
  listening :: bool
  connected :: bool
  hub_backoff :: real
  ws_connections :: int

definition new_hub :: "pystr \<Rightarrow> hub" where
  "new_hub replica = \<lparr>control = control_channel replica, local_conns = [], conns = (\<lambda>_. None), requests = [],
     next_future = 0, resolved = [], subscribed = {}, listening = False, connected = False,
     hub_backoff = 1 / 2, ws_connections = 0\<rparr>"

definition local_users :: "hub \<Rightarrow> pystr list" where
  "local_users h = map fst (local_conns h)"

definition conns_of :: "hub \<Rightarrow> pystr \<Rightarrow> nat list" where
  "conns_of h user = (case dict_get user (local_conns h) of None \<Rightarrow> [] | Some ids \<Rightarrow> ids)"

text \<open>\<open>_request\<close> queues a change; the wait for its future ends when it is resolved or times out.\<close>

definition request :: "sub_op \<Rightarrow> pystr \<Rightarrow> hub \<Rightarrow> hub" where
  "request op channel h =
     h\<lparr>requests := requests h @ [(op, channel, next_future h)], next_future := next_future h + 1\<rparr>"

definition register :: "conn \<Rightarrow> hub \<Rightarrow> hub" where
  "register c h =
     (let ids = conns_of h (c_user c);
          h' = h\<lparr>local_conns := dict_set (c_user c) (if c_id c \<in> set ids then ids else ids @ [c_id c]) (local_conns h),
                 conns := (conns h)(c_id c \<mapsto> c), ws_connections := ws_connections h + 1\<rparr>
      in if ids = [] then request Subscribe (user_channel (c_user c)) h' else h')"

definition dict_del :: "pystr \<Rightarrow> (pystr \<times> 'v) list \<Rightarrow> (pystr \<times> 'v) list" where
  "dict_del k d = filter (\<lambda>p. fst p \<noteq> k) d"

definition unregister :: "conn \<Rightarrow> hub \<Rightarrow> hub" where
  "unregister c h =
     (let ids = conns_of h (c_user c); left = filter (\<lambda>i. i \<noteq> c_id c) ids
      in if c_id c \<notin> set ids then h
         else
           let h' = h\<lparr>ws_connections := ws_connections h - 1\<rparr>
           in if left = []
              then request Unsubscribe (user_channel (c_user c)) (h'\<lparr>local_conns := dict_del (c_user c) (local_conns h)\<rparr>)
              else h'\<lparr>local_conns := dict_set (c_user c) left (local_conns h)\<rparr>)"

text \<open>\<open>publish\<close>: the channel and text of an ephemeral event.\<close>

definition publish :: "pystr \<Rightarrow> json \<Rightarrow> pystr \<times> pystr" where
  "publish user_id event = (user_channel user_id, dumps False event)"

subsection \<open>The pub/sub loop\<close>

fun sub_apply :: "sub_op \<Rightarrow> pystr \<Rightarrow> pystr set \<Rightarrow> pystr set" where
  "sub_apply Subscribe ch subs = insert ch subs"
| "sub_apply Unsubscribe ch subs = subs - {ch}"

text \<open>
  One call of \<open>pubsub.subscribe\<close> or \<open>unsubscribe\<close> per request, \<open>outcomes\<close> saying how each ends (past
  its end: well). The future is resolved either way (\<open>finally\<close>); an error ends the loop.
\<close>

fun apply_all :: "exn option list \<Rightarrow> (sub_op \<times> pystr \<times> nat) list \<Rightarrow> pystr set \<Rightarrow>
    exn option \<times> (sub_op \<times> pystr \<times> nat) list \<times> pystr set \<times> nat list" where
  "apply_all outcomes [] subs = (None, [], subs, [])"
| "apply_all (Some e # outcomes) ((op, ch, f) # reqs) subs = (Some e, reqs, subs, [f])"
| "apply_all (None # outcomes) ((op, ch, f) # reqs) subs =
     (case apply_all outcomes reqs (sub_apply op ch subs) of (r, left, subs', fs) \<Rightarrow> (r, left, subs', f # fs))"
| "apply_all [] ((op, ch, f) # reqs) subs =
     (case apply_all [] reqs (sub_apply op ch subs) of (r, left, subs', fs) \<Rightarrow> (r, left, subs', f # fs))"

definition apply_requests :: "exn option list \<Rightarrow> hub \<Rightarrow> exn option \<times> hub" where
  "apply_requests outcomes h =
     (case apply_all outcomes (requests h) (subscribed h) of
        (r, left, subs, fs) \<Rightarrow>
          (r, h\<lparr>requests := left, subscribed := subs, resolved := resolved h @ fs\<rparr>))"

definition release_waiters :: "hub \<Rightarrow> hub" where
  "release_waiters h = h\<lparr>requests := [], resolved := resolved h @ map (\<lambda>(_, _, f). f) (requests h)\<rparr>"

text \<open>The start of an iteration of \<open>_run\<close>: a new pub/sub connection for the control channel and \<open>_local\<close>.\<close>

definition resubscribe :: "hub \<Rightarrow> hub" where
  "resubscribe h =
     h\<lparr>subscribed := insert (control h) (user_channel ` set (local_users h)), listening := True,
       connected := True, hub_backoff := 1 / 2\<rparr>"

text \<open>
  An exception in the loop: a \<open>RedisError\<close> or \<open>OSError\<close> drops the connection, releases the waiters and
  doubles the backoff (the second component is the time slept); any other ends the task.
\<close>

definition connection_lost :: "exn \<Rightarrow> hub \<Rightarrow> (hub \<times> real) option" where
  "connection_lost e h =
     (if e = RedisError \<or> is_oserror e then
        Some ((release_waiters (h\<lparr>connected := False\<rparr>))
                \<lparr>subscribed := {}, listening := False, hub_backoff := min (hub_backoff h * 2) 5\<rparr>, hub_backoff h)
      else None)"

subsection \<open>Dispatch\<close>

text \<open>
  \<open>_observe_latency\<close>: the observation, if any, in microseconds from the event's \<open>created_at\<close> to
  \<open>now\<close>. An \<open>AttributeError\<close> (\<open>RuntimeError\<close> in \<open>exn\<close>) where \<open>event\<close> or its \<open>data\<close> is no object.
\<close>

definition observe_latency :: "int \<Rightarrow> pystr \<Rightarrow> json \<Rightarrow> exn + int option" where
  "observe_latency now user_id event =
     (case event of
        JObj ev \<Rightarrow>
          let data = (case dict_get (lit ''data'') ev of
                        None \<Rightarrow> JObj [] | Some d \<Rightarrow> if truthy d then d else JObj [])
          in if dict_get (lit ''type'') ev \<noteq> Some (JStr (lit ''message.new'')) then Inr None
             else (case data of
                 JObj kv \<Rightarrow>
                   if dict_get (lit ''recipient_id'') kv \<noteq> Some (JStr user_id) then Inr None
                   else (case dict_get (lit ''created_at'') kv of
                       Some (JStr t) \<Rightarrow>
                         (case fromisoformat t of
                            Some created \<Rightarrow> Inr (Some (max 0 (now - instant created)))
                          | None \<Rightarrow> Inr None)
                     | _ \<Rightarrow> Inr None)
               | _ \<Rightarrow> Inl RuntimeError)
      | _ \<Rightarrow> Inl RuntimeError)"

definition send_to :: "json \<Rightarrow> nat \<Rightarrow> hub \<Rightarrow> hub" where
  "send_to event i h = h\<lparr>conns := (conns h)(i := map_option (send_nowait event) (conns h i))\<rparr>"

text \<open>
  \<open>_dispatch\<close> of a message: its channel (\<open>None\<close> where it is no text) and data. The result is an
  exception or the new hub with the latency observed. Malformed data is dropped; data nested deeper
  than \<open>json.loads\<close> goes raises on. \<open>spare\<close> is that of \<open>json_loads\<close>.
\<close>

definition dispatch :: "nat \<Rightarrow> int \<Rightarrow> pystr option \<Rightarrow> pystr \<Rightarrow> hub \<Rightarrow> exn + hub \<times> int option" where
  "dispatch spare now channel data h =
     (let pre = user_channel []
      in case channel of
           None \<Rightarrow> Inr (h, None)
         | Some ch \<Rightarrow>
             if \<not> prefix pre ch then Inr (h, None)
             else
               let user_id = drop (length pre) ch; ids = conns_of h user_id
               in if ids = [] then Inr (h, None)
                  else (case json_loads spare data of
                          Inl e \<Rightarrow> if e = TypeError \<or> e = ValueError then Inr (h, None) else Inl e
                        | Inr event \<Rightarrow>
                            (case observe_latency now user_id event of
                               Inl e \<Rightarrow> Inl e
                             | Inr lat \<Rightarrow> Inr (fold (send_to event) ids h, lat))))"

text \<open>\<open>stop\<close>: every local connection is asked to close.\<close>

definition close_in :: "int \<Rightarrow> pystr \<Rightarrow> nat \<Rightarrow> hub \<Rightarrow> hub" where
  "close_in n reason i h = h\<lparr>conns := (conns h)(i := map_option (close n reason) (conns h i))\<rparr>"

definition stop :: "hub \<Rightarrow> hub" where
  "stop h = fold (close_in 1012 (lit ''server restarting'')) (concat (map snd (local_conns h))) h"

end
