(* ===== verification/Step_Systems.thy ===== *)
theory Step_Systems
  imports Chat_Prelude
begin

text \<open>
  The contract of a component that runs in steps: start states, a step relation and an invariant.
  The relays of several replicas, their wake-up protocol, the hub, a server process and the deployment
  are interpretations.
\<close>

lemma two_steps: "R a b \<Longrightarrow> R b c \<Longrightarrow> R\<^sup>*\<^sup>* a c"
  by (meson converse_rtranclp_into_rtranclp r_into_rtranclp)

lemma three_steps: "R a b \<Longrightarrow> R b c \<Longrightarrow> R c d \<Longrightarrow> R\<^sup>*\<^sup>* a d"
  by (meson converse_rtranclp_into_rtranclp two_steps)

locale step_system =
  fixes start :: "'s \<Rightarrow> bool" and step :: "'s \<Rightarrow> 's \<Rightarrow> bool" and inv :: "'s \<Rightarrow> bool"
  assumes start_inv: "start s \<Longrightarrow> inv s"
    and step_inv: "inv s \<Longrightarrow> step s t \<Longrightarrow> inv t"
begin

lemma steps_inv: "step\<^sup>*\<^sup>* s t \<Longrightarrow> inv s \<Longrightarrow> inv t"
  by (induction rule: rtranclp_induct) (auto intro: step_inv)

lemma reachable_inv: "start s \<Longrightarrow> step\<^sup>*\<^sup>* s t \<Longrightarrow> inv t"
  by (auto intro: steps_inv start_inv)

end

text \<open>A step system whose invariant gives a safety property of every reachable state.\<close>

locale safe_system = step_system +
  fixes safe :: "'a \<Rightarrow> bool"
  assumes inv_safe: "inv s \<Longrightarrow> safe s"
begin

lemma reachable_safe: "start s \<Longrightarrow> step\<^sup>*\<^sup>* s t \<Longrightarrow> safe t"
  by (blast intro: inv_safe reachable_inv)

end

end
