(* ===== verification/Hub_Props.thy ===== *)
theory Hub_Props
  imports Hub Step_Systems
begin

text \<open>
  The queue of a connection (the contract of an event queue as a locale), the steps of a hub and
  their invariant: pending requests, applied to what is subscribed, give the local users' channels.
\<close>

section \<open>The event queue of a connection\<close>

text \<open>
  What the writer of a socket relies on: an open queue takes an event at its end while there is room, and
  shuts for the reason \<open>overflow\<close> when there is none; shutting adds one last item, the ending of its
  reason; a closed queue takes nothing; items come out in order.
\<close>

locale event_queue =
  fixes contents :: "'q \<Rightarrow> 'i list" and put :: "'e \<Rightarrow> 'q \<Rightarrow> 'q" and get :: "'q \<Rightarrow> ('i \<times> 'q) option"
    and shut :: "'r \<Rightarrow> 'q \<Rightarrow> 'q" and closed :: "'q \<Rightarrow> bool" and item :: "'e \<Rightarrow> 'i" and ending :: "'r \<Rightarrow> 'i"
    and overflow :: 'r and capacity :: nat
  assumes put_room: "\<not> closed q \<Longrightarrow> length (contents q) < capacity \<Longrightarrow>
      contents (put e q) = contents q @ [item e] \<and> \<not> closed (put e q)"
    and put_full: "\<not> closed q \<Longrightarrow> capacity \<le> length (contents q) \<Longrightarrow> put e q = shut overflow q"
    and put_closed: "closed q \<Longrightarrow> put e q = q"
    and shut_open: "\<not> closed q \<Longrightarrow> closed (shut r q) \<and> contents (shut r q) = contents q @ [ending r]"
    and shut_closed: "closed q \<Longrightarrow> shut r q = q"
    and get_none: "get q = None \<longleftrightarrow> contents q = []"
    and get_some: "get q = Some (x, q') \<Longrightarrow> contents q = x # contents q' \<and> closed q' = closed q"
begin

text \<open>
  The events put so far (\<open>es\<close>), the reasons it was shut for (\<open>rs\<close>) and everything that came out (\<open>out\<close>):
  while the queue is open it is exactly the events, in order; once closed it is the first \<open>k\<close> of them and
  the ending of one of the reasons, or of the overflow if there were \<open>capacity\<close> events.
\<close>

definition tracks :: "'r set \<Rightarrow> 'e list \<Rightarrow> 'i list \<Rightarrow> 'q \<Rightarrow> bool" where
  "tracks rs es out q \<longleftrightarrow>
     (if closed q then \<exists>k r. k \<le> length es \<and> (r \<in> rs \<or> r = overflow \<and> capacity \<le> k) \<and>
        out @ contents q = map item (take k es) @ [ending r]
      else out @ contents q = map item es)"

lemma tracks_shut: "tracks rs es out q \<Longrightarrow> r \<in> rs \<or> r = overflow \<and> capacity \<le> length es \<Longrightarrow> tracks rs es out (shut r q)"
proof (cases "closed q")
  case False
  assume "tracks rs es out q" and r: "r \<in> rs \<or> r = overflow \<and> capacity \<le> length es"
  with False have t: "out @ contents q = map item es" by (simp add: tracks_def)
  have "out @ contents (shut r q) = map item (take (length es) es) @ [ending r]"
    using shut_open [OF False, of r] t by (metis append_assoc take_all_iff order_refl)
  with shut_open [OF False, of r] r show ?thesis unfolding tracks_def by (auto intro!: exI [of _ "length es"] exI [of _ r])
qed (simp add: shut_closed)

lemma tracks_more: "tracks rs es out q \<Longrightarrow> closed q \<Longrightarrow> rs \<subseteq> rs' \<Longrightarrow> tracks rs' (es @ es') out q"
proof -
  assume "tracks rs es out q" and c: "closed q" and sub: "rs \<subseteq> rs'"
  then obtain k r where k: "k \<le> length es" "r \<in> rs \<or> r = overflow \<and> capacity \<le> k"
    "out @ contents q = map item (take k es) @ [ending r]" by (auto simp: tracks_def)
  then show ?thesis using c sub unfolding tracks_def by (auto intro!: exI [of _ k] exI [of _ r])
qed

lemma tracks_put: "tracks rs es out q \<Longrightarrow> tracks rs (es @ [e]) out (put e q)"
proof (cases "closed q")
  case True
  assume "tracks rs es out q"
  with True tracks_more put_closed show ?thesis by simp
next
  case False
  assume t: "tracks rs es out q"
  show ?thesis
  proof (cases "length (contents q) < capacity")
    case True
    with put_room [OF False True, of e] t False show ?thesis by (simp add: tracks_def flip: append_assoc)
  next
    case full: False
    have "length (contents q) \<le> length es" using t False by (auto simp: tracks_def dest: arg_cong [where f = length])
    with full have "tracks rs es out (shut overflow q)" by (intro tracks_shut [OF t]) simp
    moreover have "closed (shut overflow q)" using shut_open [OF False] by blast
    ultimately show ?thesis using put_full [OF False, of e] full tracks_more by simp
  qed
qed

lemma tracks_get: "tracks rs es out q \<Longrightarrow> get q = Some (x, q') \<Longrightarrow> tracks rs es (out @ [x]) q'"
  using get_some [of q x q'] by (cases "closed q") (auto simp: tracks_def)

lemma tracks_asked: "tracks rs es out q \<Longrightarrow> tracks (insert r rs) es out (shut r q)"
proof (cases "closed q")
  case True
  assume "tracks rs es out q"
  from tracks_more [OF this True, of "insert r rs" "[]"] show ?thesis by (simp add: shut_closed [OF True] subset_insertI)
next
  case False
  assume "tracks rs es out q"
  with False have "tracks (insert r rs) es out q" by (simp add: tracks_def)
  then show ?thesis by (rule tracks_shut) simp
qed

end

interpretation ws_queue: event_queue queue send_nowait next_event "\<lambda>(n, reason). close n reason" closing Event
    "\<lambda>(n, reason). CloseRequest n reason" "(1013, lit ''client too slow, reconnect and sync'')" MAX_PENDING_EVENTS
  by unfold_locales
    (auto simp: send_nowait_def close_def next_event_def split: list.splits)

subsection \<open>Runs of a connection\<close>

datatype conn_op = Send_event json | Close_conn int pystr | Take_next

text \<open>A connection under a sequence of operations: what the writer took, and the connection.\<close>

fun run_conn :: "conn_op list \<Rightarrow> queue_item list \<times> conn \<Rightarrow> queue_item list \<times> conn" where
  "run_conn [] s = s"
| "run_conn (Send_event e # ops) (out, c) = run_conn ops (out, send_nowait e c)"
| "run_conn (Close_conn n r # ops) (out, c) = run_conn ops (out, close n r c)"
| "run_conn (Take_next # ops) (out, c) =
     (case next_event c of None \<Rightarrow> run_conn ops (out, c) | Some (x, c') \<Rightarrow> run_conn ops (out @ [x], c'))"

fun sent_events :: "conn_op list \<Rightarrow> json list" where
  "sent_events [] = []"
| "sent_events (Send_event e # ops) = e # sent_events ops"
| "sent_events (_ # ops) = sent_events ops"

fun closes_asked :: "conn_op list \<Rightarrow> (int \<times> pystr) set" where
  "closes_asked [] = {}"
| "closes_asked (Close_conn n r # ops) = insert (n, r) (closes_asked ops)"
| "closes_asked (_ # ops) = closes_asked ops"

lemma closes_asked_mem: "(n, r) \<in> closes_asked ops \<longleftrightarrow> Close_conn n r \<in> set ops"
  by (induction ops rule: closes_asked.induct) auto

lemma run_conn_tracks:
  "ws_queue.tracks rs es out c \<Longrightarrow> run_conn ops (out, c) = (out', c') \<Longrightarrow>
     ws_queue.tracks (rs \<union> closes_asked ops) (es @ sent_events ops) out' c'"
proof (induction ops arbitrary: rs es out c)
  case (Cons op ops)
  show ?case
  proof (cases op)
    case (Send_event e)
    with Cons.prems Cons.IH [OF ws_queue.tracks_put [OF Cons.prems(1)]] show ?thesis by simp
  next
    case (Close_conn n r)
    with Cons.prems Cons.IH [OF ws_queue.tracks_asked [OF Cons.prems(1), of "(n, r)"]] show ?thesis by simp
  next
    case Take_next
    show ?thesis
    proof (cases "next_event c")
      case (Some p)
      obtain x c1 where p: "p = (x, c1)" by (cases p)
      with Take_next Cons.prems Some Cons.IH [OF ws_queue.tracks_get [OF Cons.prems(1)]] show ?thesis by simp
    qed (use Take_next Cons in simp)
  qed
qed simp

text \<open>The bound of the queue, and the place of the close request.\<close>

definition queue_ok :: "conn \<Rightarrow> bool" where
  "queue_ok c \<longleftrightarrow> length (queue c) \<le> MAX_PENDING_EVENTS + 1 \<and>
     (\<not> closing c \<longrightarrow> length (queue c) \<le> MAX_PENDING_EVENTS \<and> (\<forall>x \<in> set (queue c). \<exists>e. x = Event e)) \<and>
     (closing c \<longrightarrow> (\<forall>x \<in> set (butlast (queue c)). \<exists>e. x = Event e))"

lemma queue_ok_new [simp]: "queue_ok (new_conn i u)"
  by (simp add: queue_ok_def new_conn_def)

lemma queue_ok_send [inv_intros]: "queue_ok c \<Longrightarrow> queue_ok (send_nowait e c)"
  by (auto simp: queue_ok_def send_nowait_def close_def)

lemma queue_ok_close [inv_intros]: "queue_ok c \<Longrightarrow> queue_ok (close n r c)"
  by (auto simp: queue_ok_def close_def)

lemma queue_ok_next [inv_intros]: "queue_ok c \<Longrightarrow> next_event c = Some (x, c') \<Longrightarrow> queue_ok c'"
  by (auto simp: queue_ok_def next_event_def split: list.splits if_splits)

lemma run_conn_ok: "queue_ok c \<Longrightarrow> run_conn ops (out, c) = (out', c') \<Longrightarrow> queue_ok c'"
proof (induction ops arbitrary: out c)
  case (Cons op ops)
  then show ?case
    by (cases op) (auto intro: queue_ok_send queue_ok_close queue_ok_next split: option.splits)
qed simp

lemma conn_fields [simp]:
  "c_id (send_nowait e c) = c_id c" "c_user (send_nowait e c) = c_user c"
  "c_id (close n r c) = c_id c" "c_user (close n r c) = c_user c"
  "c_id (new_conn i u) = i" "c_user (new_conn i u) = u"
  by (simp_all add: send_nowait_def close_def new_conn_def)

lemma next_event_fields: "next_event c = Some (x, c') \<Longrightarrow> c_id c' = c_id c \<and> c_user c' = c_user c"
  by (auto simp: next_event_def split: list.splits)

section \<open>The steps of a hub\<close>

text \<open>The channels once the queued requests are applied.\<close>

fun after_requests :: "(sub_op \<times> pystr \<times> nat) list \<Rightarrow> pystr set \<Rightarrow> pystr set" where
  "after_requests [] subs = subs"
| "after_requests ((op, ch, f) # reqs) subs = after_requests reqs (sub_apply op ch subs)"

definition take_next :: "nat \<Rightarrow> hub \<Rightarrow> hub" where
  "take_next i h = h\<lparr>conns := (conns h)(i :=
     map_option (\<lambda>c. case next_event c of None \<Rightarrow> c | Some (_, c') \<Rightarrow> c') (conns h i))\<rparr>"

text \<open>
  What can happen to a hub: sockets register and unregister, the loop subscribes afresh, applies
  requests, receives a message or loses its connection, sessions queue and take events.
\<close>

inductive hub_step :: "hub \<Rightarrow> hub \<Rightarrow> bool" where
  register: "conns h i = None \<Longrightarrow> hub_step h (register (new_conn i u) h)"
| unregister: "conns h i = Some c \<Longrightarrow> hub_step h (unregister c h)"
| resubscribe: "\<not> listening h \<Longrightarrow> hub_step h (resubscribe h)"
| applied: "listening h \<Longrightarrow> apply_requests outcomes h = (None, h') \<Longrightarrow> hub_step h h'"
| apply_fails: "listening h \<Longrightarrow> apply_requests outcomes h = (Some e, h1) \<Longrightarrow>
    connection_lost e h1 = Some (h', slept) \<Longrightarrow> hub_step h h'"
| lost: "connection_lost e h = Some (h', slept) \<Longrightarrow> hub_step h h'"
| receive: "listening h \<Longrightarrow> dispatch spare now channel data h = Inr (h', lat) \<Longrightarrow> hub_step h h'"
| push: "hub_step h (send_to event i h)"
| close: "hub_step h (close_in n reason i h)"
| take_next: "hub_step h (take_next i h)"

inductive_cases hub_stepE: "hub_step h h'"

definition subs_base :: "hub \<Rightarrow> pystr set" where
  "subs_base h = (if listening h then subscribed h else user_channel ` set (local_users h))"

text \<open>The registry: users with at least one connection, each known and of that user.\<close>

definition registry_ok :: "hub \<Rightarrow> bool" where
  "registry_ok h \<longleftrightarrow> (\<forall>u ids. dict_get u (local_conns h) = Some ids \<longrightarrow> ids \<noteq> [] \<and> distinct ids \<and>
     (\<forall>i \<in> set ids. \<exists>c. conns h i = Some c \<and> c_user c = u))"

definition conns_ok :: "hub \<Rightarrow> bool" where
  "conns_ok h \<longleftrightarrow> (\<forall>i c. conns h i = Some c \<longrightarrow> c_id c = i \<and> queue_ok c)"

definition subs_ok :: "hub \<Rightarrow> bool" where
  "subs_ok h \<longleftrightarrow> (\<forall>u. user_channel u \<in> after_requests (requests h) (subs_base h) \<longleftrightarrow> u \<in> set (local_users h))"

definition loop_ok :: "hub \<Rightarrow> bool" where
  "loop_ok h \<longleftrightarrow> 1 / 2 \<le> hub_backoff h \<and> hub_backoff h \<le> 5 \<and> (\<forall>u. control h \<noteq> user_channel u)"

definition hub_inv :: "hub \<Rightarrow> bool" where
  "hub_inv h \<longleftrightarrow> registry_ok h \<and> conns_ok h \<and> subs_ok h \<and> loop_ok h"

lemma user_channel_image [simp]: "user_channel u \<in> user_channel ` A \<longleftrightarrow> u \<in> A"
  by auto

subsection \<open>Requests\<close>

lemma after_requests_append [simp]:
  "after_requests (a @ b) S = after_requests b (after_requests a S)"
  by (induction a arbitrary: S) auto

lemma sub_apply_mem: "(x \<in> A \<longleftrightarrow> x \<in> B) \<Longrightarrow> x \<in> sub_apply op ch A \<longleftrightarrow> x \<in> sub_apply op ch B"
  by (cases op) auto

lemma after_requests_mem: "(x \<in> A \<longleftrightarrow> x \<in> B) \<Longrightarrow> x \<in> after_requests r A \<longleftrightarrow> x \<in> after_requests r B"
proof (induction r arbitrary: A B)
  case (Cons q r)
  obtain op ch f where "q = (op, ch, f)" by (cases q)
  with Cons.IH [OF sub_apply_mem [OF Cons.prems]] show ?case by simp
qed simp

lemma apply_all_ok:
  "apply_all outcomes reqs subs = (None, left, subs', fs) \<Longrightarrow>
     left = [] \<and> subs' = after_requests reqs subs \<and> fs = map (\<lambda>(_, _, f). f) reqs"
  by (induction outcomes reqs subs arbitrary: left subs' fs rule: apply_all.induct)
    (auto split: list.splits option.splits prod.splits)

lemma apply_all_futures:
  "apply_all outcomes reqs subs = (r, left, subs', fs) \<Longrightarrow>
     map (\<lambda>(_, _, f). f) reqs = fs @ map (\<lambda>(_, _, f). f) left"
  by (induction outcomes reqs subs arbitrary: r left subs' fs rule: apply_all.induct)
    (auto split: list.splits option.splits prod.splits)

subsection \<open>The registry\<close>

lemma dict_get_del: "dict_get x (dict_del k d) = (if x = k then None else dict_get x d)"
  by (induction d) (auto simp: dict_get_def dict_del_def)

lemma local_users_dict: "u \<in> set (local_users h) \<longleftrightarrow> dict_get u (local_conns h) \<noteq> None"
  by (simp add: local_users_def dict_get_def map_of_eq_None_iff)

lemma local_users_iff: "registry_ok h \<Longrightarrow> u \<in> set (local_users h) \<longleftrightarrow> conns_of h u \<noteq> []"
  by (auto simp: local_users_dict conns_of_def registry_ok_def split: option.splits)

lemma conns_of_registered:
  "registry_ok h \<Longrightarrow> distinct (conns_of h u) \<and> (\<forall>i \<in> set (conns_of h u). \<exists>c. conns h i = Some c \<and> c_user c = u)"
  by (auto simp: conns_of_def registry_ok_def split: option.splits)

text \<open>Operations that only touch the connection objects: who is registered does not change.\<close>

lemma registry_ok_conns:
  assumes "registry_ok h" "local_conns h' = local_conns h"
    "\<And>i c. conns h i = Some c \<Longrightarrow> \<exists>c'. conns h' i = Some c' \<and> c_user c' = c_user c"
  shows "registry_ok h'"
  unfolding registry_ok_def assms(2)
proof (intro allI impI)
  fix u ids assume "dict_get u (local_conns h) = Some ids"
  with assms(1) have "ids \<noteq> []" "distinct ids" and i: "\<forall>i \<in> set ids. \<exists>c. conns h i = Some c \<and> c_user c = u"
    by (auto simp: registry_ok_def)
  moreover have "\<forall>i \<in> set ids. \<exists>c. conns h' i = Some c \<and> c_user c = u" using i assms(3) by metis
  ultimately show "ids \<noteq> [] \<and> distinct ids \<and> (\<forall>i \<in> set ids. \<exists>c. conns h' i = Some c \<and> c_user c = u)" by blast
qed

lemma subs_ok_cong:
  "subs_ok h \<Longrightarrow> local_conns h' = local_conns h \<Longrightarrow> requests h' = requests h \<Longrightarrow> subscribed h' = subscribed h \<Longrightarrow>
     listening h' = listening h \<Longrightarrow> subs_ok h'"
proof -
  assume a: "subs_ok h" "local_conns h' = local_conns h" "requests h' = requests h" "subscribed h' = subscribed h"
    "listening h' = listening h"
  then have "subs_base h' = subs_base h" "local_users h' = local_users h"
    by (simp_all add: subs_base_def local_users_def)
  with a show ?thesis by (simp add: subs_ok_def)
qed

text \<open>A change of one connection object that keeps its identity, user and queue bound.\<close>

lemma conn_update_inv:
  assumes inv: "hub_inv h" and h': "h' = h\<lparr>conns := (conns h)(i := map_option f (conns h i))\<rparr>"
    and f: "\<And>c. c_id (f c) = c_id c \<and> c_user (f c) = c_user c" "\<And>c. queue_ok c \<Longrightarrow> queue_ok (f c)"
  shows "hub_inv h'"
proof -
  have "registry_ok h'"
    by (rule registry_ok_conns [of h]) (use inv h' f in \<open>auto simp: hub_inv_def\<close>)
  moreover have "conns_ok h'" using inv f by (auto simp: hub_inv_def conns_ok_def h')
  moreover have "subs_ok h'" by (rule subs_ok_cong [of h]) (use inv h' in \<open>auto simp: hub_inv_def\<close>)
  ultimately show ?thesis using inv by (simp add: hub_inv_def h' loop_ok_def)
qed

lemma send_to_inv [inv_intros]: "hub_inv h \<Longrightarrow> hub_inv (send_to e i h)"
  by (rule conn_update_inv [of h _ i "send_nowait e"]) (auto simp: send_to_def intro: queue_ok_send)

lemma close_in_inv [inv_intros]: "hub_inv h \<Longrightarrow> hub_inv (close_in n r i h)"
  by (rule conn_update_inv [of h _ i "close n r"]) (auto simp: close_in_def intro: queue_ok_close)

lemma take_next_inv: "hub_inv h \<Longrightarrow> hub_inv (take_next i h)"
proof (rule conn_update_inv [of h _ i "\<lambda>c. case next_event c of None \<Rightarrow> c | Some (_, c') \<Rightarrow> c'"])
  show "take_next i h = h\<lparr>conns := (conns h)(i := map_option (\<lambda>c. case next_event c of None \<Rightarrow> c | Some (_, c') \<Rightarrow> c') (conns h i))\<rparr>"
    by (simp add: take_next_def)
qed (auto split: option.splits dest: next_event_fields intro: queue_ok_next)

lemma dispatch_inv: "hub_inv h \<Longrightarrow> dispatch spare now ch data h = Inr (h', lat) \<Longrightarrow> hub_inv h'"
proof -
  have f: "hub_inv h \<Longrightarrow> hub_inv (fold (send_to e) ids h)" for e ids
    by (induction ids arbitrary: h) (auto intro: send_to_inv)
  show "hub_inv h \<Longrightarrow> dispatch spare now ch data h = Inr (h', lat) \<Longrightarrow> hub_inv h'"
    by (auto simp: dispatch_def Let_def intro: f split: option.splits if_splits sum.splits)
qed

subsection \<open>Registering\<close>

lemma register_fields:
  "local_conns (register c h) = dict_set (c_user c) (if c_id c \<in> set (conns_of h (c_user c)) then conns_of h (c_user c)
     else conns_of h (c_user c) @ [c_id c]) (local_conns h)"
  "conns (register c h) = (conns h)(c_id c \<mapsto> c)" "subscribed (register c h) = subscribed h"
  "listening (register c h) = listening h" "hub_backoff (register c h) = hub_backoff h"
  "control (register c h) = control h"
  "requests (register c h) = requests h @ (if conns_of h (c_user c) = [] then [(Subscribe, user_channel (c_user c), next_future h)] else [])"
  by (auto simp: register_def Let_def request_def)

lemma unregister_fields:
  "c_id c \<in> set (conns_of h (c_user c)) \<Longrightarrow> filter (\<lambda>i. i \<noteq> c_id c) (conns_of h (c_user c)) = l \<Longrightarrow>
     local_conns (unregister c h) = (if l = [] then dict_del (c_user c) (local_conns h) else dict_set (c_user c) l (local_conns h)) \<and>
     conns (unregister c h) = conns h \<and> subscribed (unregister c h) = subscribed h \<and>
     control (unregister c h) = control h \<and> listening (unregister c h) = listening h \<and> hub_backoff (unregister c h) = hub_backoff h \<and>
     requests (unregister c h) = requests h @ (if l = [] then [(Unsubscribe, user_channel (c_user c), next_future h)] else [])"
  "c_id c \<notin> set (conns_of h (c_user c)) \<Longrightarrow> unregister c h = h"
  by (auto simp: unregister_def Let_def request_def)

text \<open>
  A change of one user's presence, with the matching request appended when the user was the first
  or last, keeps the pending subscriptions right.
\<close>

lemma subs_ok_presence:
  assumes ok: "subs_ok h" and l: "listening h' = listening h" "subscribed h' = subscribed h"
    and u: "\<And>v. v \<noteq> u \<Longrightarrow> v \<in> set (local_users h') \<longleftrightarrow> v \<in> set (local_users h)"
    and r: "requests h' = requests h @ (if u \<in> set (local_users h') \<longleftrightarrow> u \<in> set (local_users h) then []
              else [(if u \<in> set (local_users h') then Subscribe else Unsubscribe, user_channel u, f)])"
  shows "subs_ok h'"
  unfolding subs_ok_def
proof
  fix v
  have base: "user_channel v \<in> subs_base h' \<longleftrightarrow> user_channel v \<in> subs_base h"
    if "v \<noteq> u \<or> (u \<in> set (local_users h') \<longleftrightarrow> u \<in> set (local_users h))"
    using that u l by (cases "v = u") (simp_all add: subs_base_def)
  have hv: "user_channel v \<in> after_requests (requests h) (subs_base h) \<longleftrightarrow> v \<in> set (local_users h)"
    using ok by (simp add: subs_ok_def)
  show "user_channel v \<in> after_requests (requests h') (subs_base h') \<longleftrightarrow> v \<in> set (local_users h')"
  proof (cases "v \<noteq> u \<or> (u \<in> set (local_users h') \<longleftrightarrow> u \<in> set (local_users h))")
    case True
    have "user_channel v \<in> after_requests (requests h) (subs_base h') \<longleftrightarrow> v \<in> set (local_users h)"
      using after_requests_mem [OF base [OF True], of "requests h"] hv by simp
    with True u r show ?thesis by (cases "v = u") auto
  next
    case False
    with r show ?thesis by auto
  qed
qed

lemma registry_ok_register:
  assumes reg: "registry_ok h" and fresh: "conns h i = None"
  shows "registry_ok (register (new_conn i u) h)" "local_conns (register (new_conn i u) h) = dict_set u (conns_of h u @ [i]) (local_conns h)"
proof -
  let ?c = "new_conn i u"
  let ?h = "register ?c h"
  note ids = conns_of_registered [OF reg, of u]
  have new: "i \<notin> set (conns_of h u)" using ids fresh by auto
  then show lc: "local_conns ?h = dict_set u (conns_of h u @ [i]) (local_conns h)" by (simp add: register_fields)
  show "registry_ok ?h" unfolding registry_ok_def lc register_fields(2)
  proof (intro allI impI)
    fix v js assume "dict_get v (dict_set u (conns_of h u @ [i]) (local_conns h)) = Some js"
    then consider "v = u" "js = conns_of h u @ [i]" | "v \<noteq> u" "dict_get v (local_conns h) = Some js"
      by (auto simp: dict_get_set split: if_splits)
    then show "js \<noteq> [] \<and> distinct js \<and> (\<forall>j \<in> set js. \<exists>c. ((conns h)(c_id ?c \<mapsto> ?c)) j = Some c \<and> c_user c = v)"
      using new ids reg fresh unfolding registry_ok_def by cases fastforce+
  qed
qed

lemma register_inv:
  assumes inv: "hub_inv h" and fresh: "conns h i = None"
  shows "hub_inv (register (new_conn i u) h)"
proof -
  let ?c = "new_conn i u"
  let ?h = "register ?c h"
  have reg: "registry_ok h" and "conns_ok h" and subs: "subs_ok h" and "loop_ok h"
    using inv by (simp_all add: hub_inv_def)
  note lc = registry_ok_register(2) [OF reg fresh, of u]
  have "registry_ok ?h" by (rule registry_ok_register(1) [OF reg fresh])
  moreover have "conns_ok ?h" using \<open>conns_ok h\<close> by (auto simp: conns_ok_def register_fields)
  moreover have "subs_ok ?h"
  proof (rule subs_ok_presence [OF subs, where u = u and f = "next_future h"])
    have us: "v \<in> set (local_users ?h) \<longleftrightarrow> v = u \<or> v \<in> set (local_users h)" for v
      by (simp add: local_users_dict lc dict_get_set)
    then show "v \<in> set (local_users ?h) \<longleftrightarrow> v \<in> set (local_users h)" if "v \<noteq> u" for v
      using that by simp
    show "requests ?h = requests h @ (if u \<in> set (local_users ?h) \<longleftrightarrow> u \<in> set (local_users h) then []
        else [(if u \<in> set (local_users ?h) then Subscribe else Unsubscribe, user_channel u, next_future h)])"
      using local_users_iff [OF reg, of u] by (simp add: us register_fields)
  qed (simp_all add: register_fields)
  moreover have "loop_ok ?h" using \<open>loop_ok h\<close> by (simp add: loop_ok_def register_fields)
  ultimately show ?thesis by (simp add: hub_inv_def)
qed

lemma registry_ok_unregister:
  assumes reg: "registry_ok h"
  shows "registry_ok (unregister c h)"
proof (cases "c_id c \<in> set (conns_of h (c_user c))")
  case True
  let ?h = "unregister c h" and ?u = "c_user c"
  define l where "l = filter (\<lambda>i. i \<noteq> c_id c) (conns_of h ?u)"
  note flds = unregister_fields(1) [OF True l_def [symmetric]]
  note ids = conns_of_registered [OF reg, of ?u]
  have gets: "dict_get v (local_conns ?h) = (if v = ?u then (if l = [] then None else Some l) else dict_get v (local_conns h))" for v
    using flds by (simp add: dict_get_set dict_get_del)
  show ?thesis unfolding registry_ok_def gets
    using reg ids flds by (auto simp: registry_ok_def l_def split: if_splits)
qed (use reg unregister_fields(2) in simp)

lemma unregister_inv:
  assumes inv: "hub_inv h"
  shows "hub_inv (unregister c h)"
proof (cases "c_id c \<in> set (conns_of h (c_user c))")
  case True
  let ?h = "unregister c h" and ?u = "c_user c"
  define l where "l = filter (\<lambda>i. i \<noteq> c_id c) (conns_of h ?u)"
  note flds = unregister_fields(1) [OF True l_def [symmetric]]
  have reg: "registry_ok h" and "conns_ok h" and subs: "subs_ok h" and "loop_ok h"
    using inv by (simp_all add: hub_inv_def)
  have gets: "dict_get v (local_conns ?h) = (if v = ?u then (if l = [] then None else Some l) else dict_get v (local_conns h))" for v
    using flds by (simp add: dict_get_set dict_get_del)
  have "registry_ok ?h" by (rule registry_ok_unregister [OF reg])
  moreover have "conns_ok ?h" using \<open>conns_ok h\<close> flds by (simp add: conns_ok_def)
  moreover have "subs_ok ?h"
  proof (rule subs_ok_presence [OF subs, where u = ?u and f = "next_future h"])
    have "?u \<in> set (local_users h)" using True by (auto simp: local_users_iff [OF reg])
    moreover have "?u \<in> set (local_users ?h) \<longleftrightarrow> l \<noteq> []" by (simp add: local_users_dict gets)
    ultimately show "requests ?h = requests h @ (if ?u \<in> set (local_users ?h) \<longleftrightarrow> ?u \<in> set (local_users h) then []
        else [(if ?u \<in> set (local_users ?h) then Subscribe else Unsubscribe, user_channel ?u, next_future h)])"
      using flds by simp
    show "v \<in> set (local_users ?h) \<longleftrightarrow> v \<in> set (local_users h)" if "v \<noteq> ?u" for v
      using that by (simp add: local_users_dict gets)
  qed (use flds in simp_all)
  moreover have "loop_ok ?h" using \<open>loop_ok h\<close> flds by (simp add: loop_ok_def)
  ultimately show ?thesis by (simp add: hub_inv_def)
qed (use inv unregister_fields(2) in simp)

subsection \<open>The pub/sub loop\<close>

lemma resubscribe_inv:
  assumes inv: "hub_inv h" and l: "\<not> listening h"
  shows "hub_inv (resubscribe h)"
proof -
  have lu: "local_users (resubscribe h) = local_users h" by (simp add: resubscribe_def local_users_def)
  have "subs_ok (resubscribe h)" unfolding subs_ok_def lu
  proof
    fix v
    have ne: "user_channel v \<noteq> control h" using inv unfolding hub_inv_def loop_ok_def by metis
    have "user_channel v \<in> subs_base (resubscribe h) \<longleftrightarrow> user_channel v \<in> subs_base h"
      using l ne by (auto simp: subs_base_def resubscribe_def)
    then show "user_channel v \<in> after_requests (requests (resubscribe h)) (subs_base (resubscribe h)) \<longleftrightarrow> v \<in> set (local_users h)"
      using inv after_requests_mem [of "user_channel v" "subs_base (resubscribe h)" "subs_base h" "requests h"]
      by (simp add: hub_inv_def subs_ok_def resubscribe_def)
  qed
  then show ?thesis using inv
    by (simp add: hub_inv_def registry_ok_def conns_ok_def loop_ok_def resubscribe_def)
qed

lemma apply_requests_inv:
  assumes inv: "hub_inv h" and l: "listening h" and a: "apply_requests outcomes h = (None, h')"
  shows "hub_inv h'"
proof -
  obtain left subs' fs where aa: "apply_all outcomes (requests h) (subscribed h) = (None, left, subs', fs)" and
    h': "h' = h\<lparr>requests := left, subscribed := subs', resolved := resolved h @ fs\<rparr>"
    using a by (auto simp: apply_requests_def split: prod.splits)
  have "left = []" "subs' = after_requests (requests h) (subscribed h)" using apply_all_ok [OF aa] by auto
  then have "subs_ok h'" using inv l by (simp add: hub_inv_def subs_ok_def subs_base_def local_users_def h')
  then show ?thesis using inv by (simp add: hub_inv_def registry_ok_def conns_ok_def loop_ok_def h')
qed

lemma connection_lost_inv:
  assumes r: "registry_ok h" "conns_ok h" "loop_ok h" and l: "connection_lost e h = Some (h', t)"
  shows "hub_inv h'"
proof -
  have h': "h' = h\<lparr>connected := False, requests := [], resolved := resolved h @ map (\<lambda>(_, _, f). f) (requests h),
      subscribed := {}, listening := False, hub_backoff := min (hub_backoff h * 2) 5\<rparr>"
    using l by (auto simp: connection_lost_def release_waiters_def split: if_splits)
  have "subs_ok h'" by (simp add: h' subs_ok_def subs_base_def)
  moreover have "loop_ok h'" using r(3) by (auto simp: loop_ok_def h' min_def)
  ultimately show ?thesis using r by (simp add: hub_inv_def registry_ok_def conns_ok_def h')
qed

lemma apply_requests_frame:
  "apply_requests outcomes h = (r, h') \<Longrightarrow> hub_inv h \<Longrightarrow> registry_ok h' \<and> conns_ok h' \<and> loop_ok h'"
proof -
  assume a: "apply_requests outcomes h = (r, h')" and inv: "hub_inv h"
  then have "local_conns h' = local_conns h" "conns h' = conns h" "hub_backoff h' = hub_backoff h" "control h' = control h"
    by (auto simp: apply_requests_def split: prod.splits)
  with inv show ?thesis by (simp add: hub_inv_def registry_ok_def conns_ok_def loop_ok_def)
qed

lemma hub_step_inv: "hub_inv h \<Longrightarrow> hub_step h h' \<Longrightarrow> hub_inv h'"
proof (erule hub_stepE)
  fix outcomes e h1 t
  assume a: "hub_inv h" "apply_requests outcomes h = (Some e, h1)" "connection_lost e h1 = Some (h', t)"
  show "hub_inv h'" using apply_requests_frame [OF a(2,1)] a(3) by (blast intro: connection_lost_inv)
next
  fix e t assume "hub_inv h" "connection_lost e h = Some (h', t)"
  then show "hub_inv h'" by (auto simp: hub_inv_def [of h] intro: connection_lost_inv)
qed (auto intro: register_inv unregister_inv resubscribe_inv apply_requests_inv dispatch_inv send_to_inv
      close_in_inv take_next_inv)

lemma new_hub_inv: "hub_inv (new_hub replica)"
  by (simp add: hub_inv_def new_hub_def registry_ok_def conns_ok_def subs_ok_def subs_base_def loop_ok_def
      local_users_def dict_get_def)

text \<open>What the rest of the system sees of a reachable hub.\<close>

definition hub_safe :: "hub \<Rightarrow> bool" where
  "hub_safe h \<longleftrightarrow>
     (listening h \<and> requests h = [] \<longrightarrow> (\<forall>u. user_channel u \<in> subscribed h \<longleftrightarrow> u \<in> set (local_users h))) \<and>
     (\<forall>i c. conns h i = Some c \<longrightarrow> length (queue c) \<le> MAX_PENDING_EVENTS + 1)"

interpretation hub_system: safe_system "\<lambda>h. h = new_hub replica" hub_step hub_inv hub_safe for replica
proof unfold_locales
  show "s = new_hub replica \<Longrightarrow> hub_inv s" for s by (simp add: new_hub_inv)
  show "hub_inv s \<Longrightarrow> hub_step s t \<Longrightarrow> hub_inv t" for s t by (rule hub_step_inv)
  show "hub_inv s \<Longrightarrow> hub_safe s" for s
    by (auto simp: hub_inv_def hub_safe_def subs_ok_def subs_base_def conns_ok_def queue_ok_def)
qed

section \<open>Dispatch\<close>

lemma fold_send_to:
  "distinct ids \<Longrightarrow> conns (fold (send_to e) ids h) i =
     (if i \<in> set ids then map_option (send_nowait e) (conns h i) else conns h i)"
  by (induction ids arbitrary: h) (auto simp: send_to_def)

lemma fold_send_to_frame [simp]:
  "local_conns (fold (send_to e) ids h) = local_conns h" "subscribed (fold (send_to e) ids h) = subscribed h"
  "requests (fold (send_to e) ids h) = requests h"
  by (induction ids arbitrary: h) (simp_all add: send_to_def)

lemma prefix_user_channel: "prefix (user_channel []) (user_channel u)" "drop (length (user_channel [])) (user_channel u) = u"
  by (simp_all add: user_channel_def)

lemma dispatch_user:
  assumes inv: "hub_inv h" and j: "json_loads spare data = Inr event" and lat: "observe_latency now u event = Inr lat"
  shows "\<exists>h' lat'. dispatch spare now (Some (user_channel u)) data h = Inr (h', lat') \<and> local_conns h' = local_conns h \<and>
    (\<forall>i. conns h' i = (if i \<in> set (conns_of h u) then map_option (send_nowait event) (conns h i) else conns h i))"
proof -
  have d: "distinct (conns_of h u)" using inv conns_of_registered by (auto simp: hub_inv_def)
  show ?thesis
  proof (cases "conns_of h u = []")
    case True
    then show ?thesis by (simp add: dispatch_def Let_def prefix_user_channel)
  next
    case False
    then have "dispatch spare now (Some (user_channel u)) data h = Inr (fold (send_to event) (conns_of h u) h, lat)"
      by (simp add: dispatch_def Let_def prefix_user_channel j lat)
    then show ?thesis using fold_send_to [OF d] by simp
  qed
qed

section \<open>Properties of the hub\<close>

text \<open>
  C28. A socket's writer sees its events in order and without gaps: under any sequence of sends, close
  requests and takes, what came out of the queue and what is still in it are all the events sent, while
  the connection is open; once it is closing, they are the events up to some point followed by one close
  request, with a code and reason it was asked to close for, or with 1013 for a client that is too slow,
  and then not before a thousand events.
\<close>

theorem connection_keeps_order:
  assumes "run_conn ops ([], new_conn i u) = (out, c)"
  shows "if closing c
    then \<exists>k n reason. k \<le> length (sent_events ops) \<and>
      out @ queue c = map Event (take k (sent_events ops)) @ [CloseRequest n reason] \<and>
      (Close_conn n reason \<in> set ops \<or> n = 1013 \<and> reason = lit ''client too slow, reconnect and sync'' \<and> 1000 \<le> k)
    else out @ queue c = map Event (sent_events ops)"
proof -
  have "ws_queue.tracks {} [] [] (new_conn i u)" by (simp add: ws_queue.tracks_def new_conn_def)
  note t = run_conn_tracks [OF this assms, unfolded ws_queue.tracks_def]
  show ?thesis
  proof (cases "closing c")
    case True
    with t obtain k n reason where "k \<le> length (sent_events ops)"
      "(n, reason) \<in> closes_asked ops \<or> (n, reason) = (1013, lit ''client too slow, reconnect and sync'') \<and> 1000 \<le> k"
      "out @ queue c = map Event (take k (sent_events ops)) @ [CloseRequest n reason]"
      by (auto simp: MAX_PENDING_EVENTS_def)
    with True show ?thesis by (simp only: if_True closes_asked_mem prod.inject) blast
  qed (use t in simp)
qed

text \<open>
  The memory of a connection is bounded: at most 1000 events and one close request are queued,
  whatever is sent and however slow the client.
\<close>

theorem connection_queue_bounded:
  assumes "run_conn ops ([], new_conn i u) = (out, c)"
  shows "length (queue c) \<le> 1001 \<and> (\<not> closing c \<longrightarrow> length (queue c) \<le> 1000)"
  using run_conn_ok [OF queue_ok_new assms] by (auto simp: queue_ok_def MAX_PENDING_EVENTS_def)

text \<open>
  C13. A hub listens for exactly its local users: in every reachable state with a live pub/sub
  connection and no request left to apply, a user's channel is subscribed if and only if a socket of
  that user is registered, through any order of connects, disconnects, Redis failures in the middle
  of the requests, and reconnects.
\<close>

theorem subscriptions_match_local_users:
  assumes "hub_step\<^sup>*\<^sup>* (new_hub replica) h" "listening h" "requests h = []"
  shows "user_channel u \<in> subscribed h \<longleftrightarrow> u \<in> set (local_users h)"
  using hub_system.reachable_safe [OF refl assms(1)] assms(2,3) by (simp add: hub_safe_def)

text \<open>
  A message on a user's channel is queued for exactly that user's sockets on this replica, once
  each, and for no other socket: after the dispatch of well-formed JSON, every connection of the user
  has been sent the event and all others are unchanged.
\<close>

theorem dispatch_reaches_users_sockets:
  assumes "hub_step\<^sup>*\<^sup>* (new_hub replica) h" "json_loads spare data = Inr event" "observe_latency now u event = Inr lat"
  shows "\<exists>h' lat'. dispatch spare now (Some (user_channel u)) data h = Inr (h', lat') \<and>
    (\<forall>i c. conns h i = Some c \<longrightarrow> conns h' i = Some (if i \<in> set (conns_of h u) then send_nowait event c else c)) \<and>
    (\<forall>i \<in> set (conns_of h u). \<exists>c. conns h i = Some c \<and> c_user c = u)"
proof -
  have inv: "hub_inv h" by (rule hub_system.reachable_inv [OF refl assms(1)])
  from dispatch_user [OF inv assms(2,3)] conns_of_registered [of h u] inv show ?thesis
    by (auto simp: hub_inv_def)
qed

text \<open>
  Nobody waits for a subscription forever: once the queued requests are applied, or the loop fails
  in the middle of them and releases the rest, every queued future is resolved and the queue is empty.
\<close>

theorem requests_always_resolved:
  assumes "apply_requests outcomes h = (r, h1)"
  shows "case r of
      None \<Rightarrow> requests h1 = [] \<and> set (map (\<lambda>(_, _, f). f) (requests h)) \<subseteq> set (resolved h1)
    | Some e \<Rightarrow> (e = RedisError \<or> is_oserror e \<longrightarrow> (\<exists>h2 t. connection_lost e h1 = Some (h2, t) \<and> requests h2 = [] \<and>
        set (map (\<lambda>(_, _, f). f) (requests h)) \<subseteq> set (resolved h2) \<and> \<not> connected h2))"
proof -
  obtain left subs' fs where aa: "apply_all outcomes (requests h) (subscribed h) = (r, left, subs', fs)" and
    h1: "h1 = h\<lparr>requests := left, subscribed := subs', resolved := resolved h @ fs\<rparr>"
    using assms by (auto simp: apply_requests_def split: prod.splits)
  have fs: "map (\<lambda>(_, _, f). f) (requests h) = fs @ map (\<lambda>(_, _, f). f) left" by (rule apply_all_futures [OF aa])
  show ?thesis
  proof (cases r)
    case None
    with aa have "left = []" using apply_all_ok by blast
    with None fs show ?thesis by (simp add: h1)
  next
    case (Some e)
    show ?thesis
    proof (cases "e = RedisError \<or> is_oserror e")
      case True
      then have "\<exists>h2 t. connection_lost e h1 = Some (h2, t) \<and> requests h2 = [] \<and>
          resolved h2 = (resolved h @ fs) @ map (\<lambda>(_, _, f). f) left \<and> \<not> connected h2"
        by (simp add: h1 connection_lost_def release_waiters_def)
      then show ?thesis unfolding fs Some option.case by (elim exE conjE) (simp, blast)
    qed (simp add: Some)
  qed
qed

text \<open>
  A payload that is valid JSON but no object ends the pub/sub loop: with a socket of the user
  connected, the dispatch raises an exception the loop does not catch, instead of dropping the event.
\<close>

theorem non_object_event_ends_loop:
  assumes "conns_of h u \<noteq> []" "json_loads spare data = Inr (JArr xs)"
  shows "dispatch spare now (Some (user_channel u)) data h = Inl RuntimeError \<and> connection_lost RuntimeError h = None"
  using assms by (simp add: dispatch_def Let_def prefix_user_channel observe_latency_def connection_lost_def)

text \<open>
  So does a payload nested deeper than \<open>json.loads\<close> goes: its \<open>RecursionError\<close> is not among the exceptions
  for which a malformed event is dropped.
\<close>

theorem deep_event_ends_loop:
  assumes "conns_of h u \<noteq> []" "json_nesting spare < k"
  shows "dispatch spare now (Some (user_channel u)) (replicate k 91 @ rest) h = Inl RuntimeError \<and>
    connection_lost RuntimeError h = None"
  using assms by (simp add: dispatch_def Let_def prefix_user_channel json_loads_deep connection_lost_def)

section \<open>Witnesses\<close>

text \<open>A hub with one subscribed socket of bob.\<close>

definition sample_hub :: hub where
  "sample_hub = snd (apply_requests [] (register (new_conn 1 (lit ''bob'')) (resubscribe (new_hub (lit ''r1'')))))"

lemma sample_hub_value:
  "listening sample_hub" "requests sample_hub = []" "conns_of sample_hub (lit ''bob'') = [1]"
  "conns sample_hub 1 = Some (new_conn 1 (lit ''bob''))"
  "apply_requests [] (register (new_conn 1 (lit ''bob'')) (resubscribe (new_hub (lit ''r1'')))) = (None, sample_hub)"
  by (simp_all add: sample_hub_def apply_requests_def register_def resubscribe_def new_hub_def Let_def conns_of_def
      dict_get_def request_def local_users_def)

lemma sample_hub_reachable: "hub_step\<^sup>*\<^sup>* (new_hub (lit ''r1'')) sample_hub"
proof -
  let ?h0 = "new_hub (lit ''r1'')" and ?h1 = "resubscribe (new_hub (lit ''r1''))"
  have "hub_step ?h0 ?h1" by (rule hub_step.resubscribe) (simp add: new_hub_def)
  moreover have "hub_step ?h1 (register (new_conn 1 (lit ''bob'')) ?h1)"
    by (rule hub_step.register) (simp add: resubscribe_def new_hub_def)
  moreover have "hub_step (register (new_conn 1 (lit ''bob'')) ?h1) sample_hub"
    by (rule hub_step.applied [OF _ sample_hub_value(5)]) (simp add: register_fields resubscribe_def)
  ultimately show ?thesis by (meson converse_rtranclp_into_rtranclp rtranclp.rtrancl_refl)
qed

theorem connection_keeps_order_witness:
  "run_conn [Send_event (JInt 1), Send_event (JInt 2), Take_next, Close_conn 1012 [], Send_event (JInt 3)] ([], new_conn 1 []) =
     ([Event (JInt 1)], \<lparr>c_id = 1, c_user = [], closing = True, queue = [Event (JInt 2), CloseRequest 1012 []]\<rparr>) \<and>
   (\<exists>k. [Event (JInt 1), Event (JInt 2), CloseRequest 1012 []] = map Event (take k [JInt 1, JInt 2, JInt 3]) @ [CloseRequest 1012 []])"
proof -
  let ?c = "\<lparr>c_id = 1, c_user = [], closing = True, queue = [Event (JInt 2), CloseRequest 1012 []]\<rparr>"
  have r: "run_conn [Send_event (JInt 1), Send_event (JInt 2), Take_next, Close_conn 1012 [], Send_event (JInt 3)]
      ([], new_conn 1 []) = ([Event (JInt 1)], ?c)"
    by (simp add: send_nowait_def new_conn_def next_event_def close_def MAX_PENDING_EVENTS_def)
  from connection_keeps_order [OF r]
  obtain k where "take k [JInt 1, JInt 2, JInt 3] = [JInt 1, JInt 2]" by auto
  then show ?thesis using r by (intro conjI exI [of _ k]) simp_all
qed

theorem connection_queue_bounded_witness:
  "run_conn [Send_event JNull] ([], new_conn 1 []) = ([], \<lparr>c_id = 1, c_user = [], closing = False, queue = [Event JNull]\<rparr>) \<and>
   length [Event JNull] \<le> 1001"
proof -
  have r: "run_conn [Send_event JNull] ([], new_conn 1 []) = ([], \<lparr>c_id = 1, c_user = [], closing = False, queue = [Event JNull]\<rparr>)"
    by (simp add: send_nowait_def new_conn_def MAX_PENDING_EVENTS_def)
  from connection_queue_bounded [OF r] r show ?thesis by simp
qed

theorem subscriptions_match_local_users_witness:
  "user_channel (lit ''bob'') \<in> subscribed sample_hub \<and> user_channel (lit ''alice'') \<notin> subscribed sample_hub"
proof -
  have "local_users sample_hub = [lit ''bob'']"
    by (simp add: sample_hub_def apply_requests_def register_def resubscribe_def new_hub_def Let_def conns_of_def
        dict_get_def request_def local_users_def)
  then show ?thesis
    using subscriptions_match_local_users [OF sample_hub_reachable sample_hub_value(1,2)] by simp
qed

theorem dispatch_reaches_users_sockets_witness:
  "\<exists>h' lat. dispatch 0 0 (Some (user_channel (lit ''bob''))) (dumps False (JObj [])) sample_hub = Inr (h', lat) \<and>
     conns h' 1 = Some (send_nowait (JObj []) (new_conn 1 (lit ''bob'')))"
proof -
  have j: "json_loads 0 (dumps False (JObj [])) = Inr (JObj [])" by (rule json_loads_dumps) (simp_all add: json_nesting_def)
  have o: "observe_latency 0 (lit ''bob'') (JObj []) = Inr None" by (simp add: observe_latency_def dict_get_def Let_def)
  from dispatch_reaches_users_sockets [OF sample_hub_reachable j o] sample_hub_value(3,4) show ?thesis by fastforce
qed

theorem requests_always_resolved_witness:
  "apply_requests [Some RedisError] (request Subscribe [1] (request Subscribe [2] (new_hub []))) =
     (Some RedisError, (request Subscribe [1] (request Subscribe [2] (new_hub [])))
        \<lparr>requests := [(Subscribe, [1], 1)], resolved := [0]\<rparr>) \<and>
   (\<exists>h2 t. connection_lost RedisError ((request Subscribe [1] (request Subscribe [2] (new_hub [])))
        \<lparr>requests := [(Subscribe, [1], 1)], resolved := [0]\<rparr>) = Some (h2, t) \<and> requests h2 = [])"
proof -
  have a: "apply_requests [Some RedisError] (request Subscribe [1] (request Subscribe [2] (new_hub []))) =
     (Some RedisError, (request Subscribe [1] (request Subscribe [2] (new_hub [])))
        \<lparr>requests := [(Subscribe, [1], 1)], resolved := [0]\<rparr>)"
    by (simp add: apply_requests_def request_def new_hub_def)
  from requests_always_resolved [OF a] a show ?thesis by auto
qed

theorem non_object_event_ends_loop_witness:
  "dispatch 0 0 (Some (user_channel (lit ''bob''))) (dumps False (JArr [])) sample_hub = Inl RuntimeError"
proof -
  have j: "json_loads 0 (dumps False (JArr [])) = Inr (JArr [])" by (rule json_loads_dumps) (simp_all add: json_nesting_def)
  show ?thesis using non_object_event_ends_loop [OF _ j] sample_hub_value(3) by simp
qed

theorem deep_event_ends_loop_witness:
  "dispatch 0 0 (Some (user_channel (lit ''bob''))) (replicate 101 91) sample_hub = Inl RuntimeError"
  using deep_event_ends_loop [where k = 101 and rest = "[]" and spare = 0] sample_hub_value(3) by (simp add: json_nesting_def)

end
