(* ===== verification/Relay.thy ===== *)
theory Relay
  imports Hub
begin

text \<open>
  \<^verbatim>\<open>app/realtime/relay.py\<close>: one publish cycle in its phases (select and lock, push to Redis, mark,
  commit), the backlog, the retention sweep, and the loop with its wake-up event and backoff.
\<close>

section \<open>Batches\<close>

definition BACKLOG_REFRESH_SECONDS :: real where
  "BACKLOG_REFRESH_SECONDS = 5"

definition RETENTION_SWEEP_SECONDS :: real where
  "RETENTION_SWEEP_SECONDS = 60"

text \<open>\<open>SELECT .. WHERE published_at IS NULL ORDER BY id LIMIT n FOR UPDATE SKIP LOCKED\<close>.\<close>

definition select_batch :: "nat \<Rightarrow> nat list \<Rightarrow> outbox_row list \<Rightarrow> outbox_row list" where
  "select_batch n locked obs =
     take n (filter (\<lambda>r. published_at r = None \<and> ob_id r \<notin> set locked) (sort_key ob_id obs))"

text \<open>The Redis command of a row: channel and text.\<close>

definition command_of :: "outbox_row \<Rightarrow> pystr \<times> pystr" where
  "command_of r = (topic_channel (topic r), dumps True (payload r))"

definition mark_published :: "datetime \<Rightarrow> nat list \<Rightarrow> outbox_row list \<Rightarrow> outbox_row list" where
  "mark_published now ids obs = map (\<lambda>r. if ob_id r \<in> set ids then r\<lparr>published_at := Some now\<rparr> else r) obs"

text \<open>
  How a cycle ends: the pipeline may fail after some of its commands, the update or commit may fail
  after all of them.
\<close>

datatype publish_end = Published | Redis_fails nat | Commit_fails

text \<open>\<open>publish_batch\<close>: the result, the tables and the commands Redis executed.\<close>

definition publish_batch ::
  "nat \<Rightarrow> nat list \<Rightarrow> datetime \<Rightarrow> publish_end \<Rightarrow> db \<Rightarrow> (exn + nat) \<times> db \<times> (pystr \<times> pystr) list"
where
  "publish_batch n locked now fin d =
     (let rows = select_batch n locked (outbox d)
      in if rows = [] then (Inr 0, d, [])
         else (case fin of
             Redis_fails k \<Rightarrow> (Inl RedisError, d, take k (map command_of rows))
           | Commit_fails \<Rightarrow> (Inl OperationalError, d, map command_of rows)
           | Published \<Rightarrow>
               (Inr (length rows), d\<lparr>outbox := mark_published now (map ob_id rows) (outbox d)\<rparr>, map command_of rows)))"

definition backlog :: "db \<Rightarrow> nat" where
  "backlog d = length (filter (\<lambda>r. published_at r = None) (outbox d))"

text \<open>\<open>_sweep\<close>: rows published before the cutoff (now minus the retention interval) are deleted.\<close>

definition sweep :: "int \<Rightarrow> db \<Rightarrow> db" where
  "sweep cutoff d =
     d\<lparr>outbox := filter (\<lambda>r. \<not> (case published_at r of Some t \<Rightarrow> instant t < cutoff | None \<Rightarrow> False)) (outbox d)\<rparr>"

section \<open>The loop\<close>

text \<open>
  The variables of \<open>_run\<close>, the wake event and the three metrics; \<open>next_step\<close> is what follows a
  cycle: the next one at once, after a sleep, or after the wake event or a timeout.
\<close>

record loop_state =
  delay :: real
  next_backlog :: real
  next_sweep :: real
  wake :: bool
  backlog_gauge :: nat
  published_count :: nat
  publish_errors :: nat

datatype next_step = Again | Sleep real | Wait_wake real

definition loop_start :: "real \<Rightarrow> loop_state" where
  "loop_start poll = \<lparr>delay = poll, next_backlog = 0, next_sweep = 0, wake = False, backlog_gauge = 0,
     published_count = 0, publish_errors = 0\<rparr>"

text \<open>The \<open>except Exception\<close> branch.\<close>

definition cycle_failed :: "loop_state \<Rightarrow> loop_state \<times> next_step" where
  "cycle_failed l =
     (let d = min (delay l * 2) 5
      in (l\<lparr>publish_errors := publish_errors l + 1, next_backlog := 0, delay := d\<rparr>, Sleep d))"

text \<open>
  One cycle: \<open>pub\<close>, \<open>back\<close> and \<open>swp\<close> are how \<open>publish_batch\<close>, \<open>backlog\<close> and \<open>_sweep\<close> end, \<open>now\<close> the clock
  after the publish.
\<close>

definition relay_cycle ::
  "real \<Rightarrow> nat \<Rightarrow> real \<Rightarrow> (exn + nat) \<Rightarrow> (exn + nat) \<Rightarrow> (exn + unit) \<Rightarrow> loop_state \<Rightarrow> loop_state \<times> next_step"
where
  "relay_cycle poll n now pub back swp l =
     (let l = l\<lparr>wake := False\<rparr>
      in case pub of
           Inl _ \<Rightarrow> cycle_failed l
         | Inr published \<Rightarrow>
             let l = l\<lparr>published_count := published_count l + published\<rparr>;
                 due = next_backlog l \<le> now;
                 l1 = (case back of Inr b \<Rightarrow> if due then l\<lparr>backlog_gauge := b, next_backlog := now + BACKLOG_REFRESH_SECONDS\<rparr> else l
                                  | Inl _ \<Rightarrow> l)
             in if due \<and> \<not> is_ok back then cycle_failed l
                else if next_sweep l1 \<le> now \<and> \<not> is_ok swp then cycle_failed l1
                else
                  let l2 = (if next_sweep l1 \<le> now then l1\<lparr>next_sweep := now + RETENTION_SWEEP_SECONDS\<rparr> else l1)
                              \<lparr>delay := poll\<rparr>
                  in (l2, if n \<le> published then Again else Wait_wake poll))"

definition notify :: "loop_state \<Rightarrow> loop_state" where
  "notify l = l\<lparr>wake := True\<rparr>"

end
