(* ===== verification/Relay_Props.thy ===== *)
theory Relay_Props
  imports Relay Step_Systems
begin

text \<open>
  Many relays on one outbox: the steps of their transactions with row locks, the invariant that no
  committed event is lost and none is marked before it was pushed, and what holds without faults;
  the draining of a backlog; the loop's backoff and wake-up.
\<close>

section \<open>Relays of several replicas\<close>

text \<open>Where the publish transaction of a replica stands; the rows it holds are locked.\<close>

datatype phase = Idle | Selected "outbox_row list" | Pushed "outbox_row list"

fun held :: "phase \<Rightarrow> outbox_row list" where
  "held Idle = []"
| "held (Selected rows) = rows"
| "held (Pushed rows) = rows"

fun pushed_rows :: "phase \<Rightarrow> outbox_row list" where
  "pushed_rows (Pushed rows) = rows"
| "pushed_rows _ = []"

text \<open>
  The committed tables, the transaction of each replica, what Redis executed (each command with the
  id of its row), and every outbox row ever committed.
\<close>

record relays =
  rs_db :: db
  rs_phase :: "phase list"
  rs_log :: "(nat \<times> pystr \<times> pystr) list"
  rs_rows :: "outbox_row list"

definition entry_of :: "outbox_row \<Rightarrow> nat \<times> pystr \<times> pystr" where
  "entry_of r = (ob_id r, command_of r)"

definition held_rows :: "relays \<Rightarrow> outbox_row list" where
  "held_rows s = concat (map held (rs_phase s))"

definition locked_ids :: "relays \<Rightarrow> nat list" where
  "locked_ids s = map ob_id (held_rows s)"

definition unpublished :: "outbox_row list \<Rightarrow> outbox_row list" where
  "unpublished obs = filter (\<lambda>r. published_at r = None) obs"

text \<open>
  The steps: the application commits rows, a replica selects, pushes, and commits its marks; with
  faults, a push stops half-way, or a transaction is aborted at any point (a failed commit, a lost
  connection, a crash).
\<close>

inductive relay_step :: "bool \<Rightarrow> nat \<Rightarrow> relays \<Rightarrow> relays \<Rightarrow> bool" for faults :: bool and n :: nat where
  produce: "distinct (map ob_id rows) \<Longrightarrow>
    (\<forall>r \<in> set rows. published_at r = None \<and> ob_id r \<notin> ob_id ` set (rs_rows s)) \<Longrightarrow>
    outbox d' = outbox (rs_db s) @ rows \<Longrightarrow>
    relay_step faults n s (s\<lparr>rs_db := d', rs_rows := rs_rows s @ rows\<rparr>)"
| select: "i < length (rs_phase s) \<Longrightarrow> rs_phase s ! i = Idle \<Longrightarrow>
    rows = select_batch n (locked_ids s) (outbox (rs_db s)) \<Longrightarrow>
    relay_step faults n s (s\<lparr>rs_phase := (rs_phase s)[i := Selected rows]\<rparr>)"
| push: "i < length (rs_phase s) \<Longrightarrow> rs_phase s ! i = Selected rows \<Longrightarrow>
    relay_step faults n s (s\<lparr>rs_phase := (rs_phase s)[i := Pushed rows], rs_log := rs_log s @ map entry_of rows\<rparr>)"
| mark: "i < length (rs_phase s) \<Longrightarrow> rs_phase s ! i = Pushed rows \<Longrightarrow>
    relay_step faults n s (s\<lparr>rs_phase := (rs_phase s)[i := Idle],
      rs_db := (rs_db s)\<lparr>outbox := mark_published now (map ob_id rows) (outbox (rs_db s))\<rparr>\<rparr>)"
| sweep: "relay_step faults n s (s\<lparr>rs_db := sweep cutoff (rs_db s)\<rparr>)"
| push_fails: "faults \<Longrightarrow> i < length (rs_phase s) \<Longrightarrow> rs_phase s ! i = Selected rows \<Longrightarrow>
    relay_step faults n s (s\<lparr>rs_phase := (rs_phase s)[i := Idle], rs_log := rs_log s @ take k (map entry_of rows)\<rparr>)"
| abort: "faults \<Longrightarrow> i < length (rs_phase s) \<Longrightarrow>
    relay_step faults n s (s\<lparr>rs_phase := (rs_phase s)[i := Idle]\<rparr>)"

inductive_cases relay_stepE: "relay_step faults n s t"

definition relay_start :: "nat \<Rightarrow> relays" where
  "relay_start replicas = \<lparr>rs_db = empty_db, rs_phase = replicate replicas Idle, rs_log = [], rs_rows = []\<rparr>"

subsection \<open>The invariant\<close>

text \<open>Every row of the table is a committed row, up to its mark; ids are unique.\<close>

definition table_ok :: "relays \<Rightarrow> bool" where
  "table_ok s \<longleftrightarrow> distinct (map ob_id (rs_rows s)) \<and> distinct (map ob_id (outbox (rs_db s))) \<and>
     (\<forall>r \<in> set (outbox (rs_db s)). \<exists>r0 \<in> set (rs_rows s). entry_of r0 = entry_of r)"

definition locks_ok :: "relays \<Rightarrow> bool" where
  "locks_ok s \<longleftrightarrow> distinct (map ob_id (held_rows s)) \<and>
     (\<forall>r \<in> set (held_rows s). r \<in> set (outbox (rs_db s)) \<and> published_at r = None)"

definition pushed_ok :: "relays \<Rightarrow> bool" where
  "pushed_ok s \<longleftrightarrow> (\<forall>p \<in> set (rs_phase s). entry_of ` set (pushed_rows p) \<subseteq> set (rs_log s))"

text \<open>No committed event is lost: its row is still to be published, or its command was executed.\<close>

definition none_lost :: "relays \<Rightarrow> bool" where
  "none_lost s \<longleftrightarrow> (\<forall>r0 \<in> set (rs_rows s). entry_of r0 \<in> set (rs_log s) \<or>
     (\<exists>r \<in> set (outbox (rs_db s)). entry_of r = entry_of r0 \<and> published_at r = None))"

definition relay_inv :: "relays \<Rightarrow> bool" where
  "relay_inv s \<longleftrightarrow> table_ok s \<and> locks_ok s \<and> pushed_ok s \<and> none_lost s"

lemma entry_of_published [simp]: "entry_of (r\<lparr>published_at := t\<rparr>) = entry_of r"
  by (simp add: entry_of_def command_of_def)

lemma entry_of_id: "entry_of r = entry_of r' \<Longrightarrow> ob_id r = ob_id r'"
  by (simp add: entry_of_def)

lemma select_batch_props:
  "set (select_batch n locked obs) \<subseteq> {r \<in> set obs. published_at r = None \<and> ob_id r \<notin> set locked}"
  "distinct (map ob_id obs) \<Longrightarrow> distinct (map ob_id (select_batch n locked obs))"
proof -
  show "set (select_batch n locked obs) \<subseteq> {r \<in> set obs. published_at r = None \<and> ob_id r \<notin> set locked}"
    by (auto simp: select_batch_def dest: in_set_takeD)
  assume "distinct (map ob_id obs)"
  then have "distinct (map ob_id (sort_key ob_id obs))" by (simp add: distinct_map)
  then have "distinct (map ob_id (filter (\<lambda>r. published_at r = None \<and> ob_id r \<notin> set locked) (sort_key ob_id obs)))"
    by (rule distinct_map_filter)
  then show "distinct (map ob_id (select_batch n locked obs))"
    by (simp add: select_batch_def take_map [symmetric])
qed

text \<open>The rows held after the phase of one replica changed.\<close>

lemma held_update:
  "i < length ps \<Longrightarrow> mset (concat (map held (ps[i := p]))) + mset (held (ps ! i)) = mset (concat (map held ps)) + mset (held p)"
proof (induction ps arbitrary: i)
  case (Cons q ps)
  show ?case
  proof (cases i)
    case (Suc j)
    with Cons.prems Cons.IH [of j] show ?thesis by (simp add: ac_simps)
  qed (simp add: ac_simps)
qed simp

lemma held_rows_update:
  assumes "i < length (rs_phase s)" "rs_phase t = (rs_phase s)[i := p]"
  shows "mset (held_rows t) + mset (held (rs_phase s ! i)) = mset (held_rows s) + mset (held p)"
  using held_update [OF assms(1), of p] assms(2) by (simp add: held_rows_def)

text \<open>Two lists of rows with the same elements are alike for the locks.\<close>

lemma same_rows:
  assumes "mset xs = mset ys"
  shows "set xs = set ys" "distinct (map ob_id xs) \<longleftrightarrow> distinct (map ob_id ys)"
  using assms mset_eq_setD [OF assms] mset_eq_imp_distinct_iff [of "map ob_id xs" "map ob_id ys"] by simp_all

lemma released:
  assumes "i < length (rs_phase s)" "rs_phase t = (rs_phase s)[i := Idle]"
  shows "mset (held_rows s) = mset (held_rows t @ held (rs_phase s ! i))"
  using held_rows_update [OF assms] by simp

lemma advanced:
  assumes "i < length (rs_phase s)" "rs_phase t = (rs_phase s)[i := p]" "held p = held (rs_phase s ! i)"
  shows "mset (held_rows t) = mset (held_rows s)"
  using held_rows_update [OF assms(1,2)] assms(3) by simp

lemma acquired:
  assumes "i < length (rs_phase s)" "rs_phase t = (rs_phase s)[i := p]" "rs_phase s ! i = Idle"
  shows "mset (held_rows t) = mset (held_rows s @ held p)"
  using held_rows_update [OF assms(1,2)] assms(3) by simp

lemma released_locks:
  assumes "i < length (rs_phase s)" "rs_phase t = (rs_phase s)[i := Idle]" "locks_ok s"
  shows "set (held_rows t) \<subseteq> set (held_rows s)" "distinct (map ob_id (held_rows t))"
    "ob_id ` set (held_rows t) \<inter> ob_id ` set (held (rs_phase s ! i)) = {}"
    "set (held (rs_phase s ! i)) \<subseteq> set (held_rows s)"
proof -
  note m = same_rows [OF released [OF assms(1,2)]]
  show "set (held_rows t) \<subseteq> set (held_rows s)" "set (held (rs_phase s ! i)) \<subseteq> set (held_rows s)" using m(1) by auto
  have "distinct (map ob_id (held_rows t @ held (rs_phase s ! i)))" using m(2) assms(3) by (simp add: locks_ok_def)
  then show "distinct (map ob_id (held_rows t))" "ob_id ` set (held_rows t) \<inter> ob_id ` set (held (rs_phase s ! i)) = {}"
    by auto
qed

lemma pushed_ok_update:
  assumes "pushed_ok s" "rs_phase t = (rs_phase s)[i := p]" "set (rs_log s) \<subseteq> set (rs_log t)"
    "entry_of ` set (pushed_rows p) \<subseteq> set (rs_log t)"
  shows "pushed_ok t"
  unfolding pushed_ok_def
proof
  fix q assume "q \<in> set (rs_phase t)"
  then have "q = p \<or> q \<in> set (rs_phase s)" using assms(2) set_update_subset_insert [of "rs_phase s" i p] by auto
  then show "entry_of ` set (pushed_rows q) \<subseteq> set (rs_log t)"
  proof
    assume "q \<in> set (rs_phase s)"
    then have "entry_of ` set (pushed_rows q) \<subseteq> set (rs_log s)" using assms(1) by (simp add: pushed_ok_def)
    with assms(3) show ?thesis by (rule order_trans [rotated])
  qed (use assms(4) in simp)
qed

lemma distinct_map_append:
  "distinct (map f xs) \<Longrightarrow> distinct (map f ys) \<Longrightarrow> (\<And>y. y \<in> set ys \<Longrightarrow> f y \<notin> f ` set xs) \<Longrightarrow> distinct (map f (xs @ ys))"
proof -
  assume d: "distinct (map f xs)" "distinct (map f ys)" and n: "\<And>y. y \<in> set ys \<Longrightarrow> f y \<notin> f ` set xs"
  have "f ` set xs \<inter> f ` set ys = {}"
  proof (rule equals0I)
    fix z assume "z \<in> f ` set xs \<inter> f ` set ys"
    then obtain y where "y \<in> set ys" "z = f y" "z \<in> f ` set xs" by blast
    with n [of y] show False by simp
  qed
  with d show ?thesis by simp
qed

lemma pushed_ok_mem:
  "pushed_ok s \<Longrightarrow> i < length (rs_phase s) \<Longrightarrow> rs_phase s ! i = Pushed rows \<Longrightarrow> entry_of ` set rows \<subseteq> set (rs_log s)"
proof -
  assume p: "pushed_ok s" and i: "i < length (rs_phase s)" "rs_phase s ! i = Pushed rows"
  then have "Pushed rows \<in> set (rs_phase s)" using nth_mem by metis
  with p have "entry_of ` set (pushed_rows (Pushed rows)) \<subseteq> set (rs_log s)" unfolding pushed_ok_def by (rule bspec)
  then show ?thesis by simp
qed

lemma mark_published_ids [simp]: "map ob_id (mark_published now ids obs) = map ob_id obs"
  by (simp add: mark_published_def)

lemma mark_published_entry: "r \<in> set (mark_published now ids obs) \<Longrightarrow> \<exists>x \<in> set obs. entry_of x = entry_of r"
  by (auto simp: mark_published_def)

lemma none_lost_mono:
  "none_lost s \<Longrightarrow> rs_rows t = rs_rows s \<Longrightarrow> set (rs_log s) \<subseteq> set (rs_log t) \<Longrightarrow> outbox (rs_db t) = outbox (rs_db s) \<Longrightarrow> none_lost t"
  unfolding none_lost_def by (metis subset_iff)

lemma table_ok_same: "table_ok s \<Longrightarrow> rs_rows t = rs_rows s \<Longrightarrow> outbox (rs_db t) = outbox (rs_db s) \<Longrightarrow> table_ok t"
  by (simp add: table_ok_def)

text \<open>One lemma per step.\<close>

lemma produce_inv:
  assumes inv: "relay_inv s" and d: "distinct (map ob_id rows)"
    and fresh: "\<forall>r \<in> set rows. published_at r = None \<and> ob_id r \<notin> ob_id ` set (rs_rows s)"
    and d': "outbox d' = outbox (rs_db s) @ rows"
  shows "relay_inv (s\<lparr>rs_db := d', rs_rows := rs_rows s @ rows\<rparr>)" (is "relay_inv ?t")
proof -
  have t: "table_ok s" using inv by (simp add: relay_inv_def)
  have old: "ob_id r \<in> ob_id ` set (rs_rows s)" if "r \<in> set (outbox (rs_db s))" for r
    using t that entry_of_id unfolding table_ok_def by (metis imageI)
  have "distinct (map ob_id (rs_rows s @ rows))" using t d fresh by (intro distinct_map_append) (auto simp: table_ok_def)
  moreover have "distinct (map ob_id (outbox (rs_db s) @ rows))"
  proof (rule distinct_map_append)
    show "ob_id y \<notin> ob_id ` set (outbox (rs_db s))" if "y \<in> set rows" for y
      using fresh that old by (metis imageE)
  qed (use t d in \<open>simp_all add: table_ok_def\<close>)
  moreover have "\<forall>r \<in> set (outbox (rs_db s) @ rows). \<exists>r0 \<in> set (rs_rows s @ rows). entry_of r0 = entry_of r"
    using t by (auto simp: table_ok_def)
  ultimately have "table_ok ?t" using d' by (simp add: table_ok_def)
  moreover have "locks_ok ?t" using inv d' by (auto simp: relay_inv_def locks_ok_def held_rows_def)
  moreover have "pushed_ok ?t" using inv by (simp add: relay_inv_def pushed_ok_def)
  moreover have "none_lost ?t" using inv fresh d' by (fastforce simp: relay_inv_def none_lost_def)
  ultimately show ?thesis by (simp add: relay_inv_def)
qed

lemma select_inv:
  assumes inv: "relay_inv s" and i: "i < length (rs_phase s)" "rs_phase s ! i = Idle"
    and rows: "rows = select_batch n (locked_ids s) (outbox (rs_db s))"
  shows "relay_inv (s\<lparr>rs_phase := (rs_phase s)[i := Selected rows]\<rparr>)" (is "relay_inv ?t")
proof -
  have t: "table_ok s" and l: "locks_ok s" using inv by (simp_all add: relay_inv_def)
  have sub: "set rows \<subseteq> {r \<in> set (outbox (rs_db s)). published_at r = None \<and> ob_id r \<notin> set (locked_ids s)}"
    unfolding rows by (rule select_batch_props)
  have "distinct (map ob_id rows)" unfolding rows using t by (intro select_batch_props) (simp add: table_ok_def)
  then have "distinct (map ob_id (held_rows s @ rows))"
    using l sub by (intro distinct_map_append) (auto simp: locks_ok_def locked_ids_def)
  moreover have m: "mset (held_rows ?t) = mset (held_rows s @ rows)"
    using acquired [OF i(1), of ?t "Selected rows"] i(2) by simp
  ultimately have "locks_ok ?t" using l sub same_rows [OF m] by (auto simp: locks_ok_def)
  moreover have "pushed_ok ?t"
    by (rule pushed_ok_update [where s = s and i = i and p = "Selected rows"]) (use inv in \<open>simp_all add: relay_inv_def\<close>)
  ultimately show ?thesis using inv by (simp add: relay_inv_def table_ok_def none_lost_def)
qed

lemma push_inv:
  assumes inv: "relay_inv s" and i: "i < length (rs_phase s)" "rs_phase s ! i = Selected rows"
  shows "relay_inv (s\<lparr>rs_phase := (rs_phase s)[i := Pushed rows], rs_log := rs_log s @ map entry_of rows\<rparr>)"
    (is "relay_inv ?t")
proof -
  have m: "mset (held_rows ?t) = mset (held_rows s)" using advanced [OF i(1), of ?t "Pushed rows"] i(2) by simp
  have "locks_ok ?t" using inv same_rows [OF m] by (simp add: relay_inv_def locks_ok_def)
  moreover have "pushed_ok ?t"
    by (rule pushed_ok_update [where s = s and i = i and p = "Pushed rows"]) (use inv in \<open>simp_all add: relay_inv_def\<close>)
  moreover have "none_lost ?t" by (rule none_lost_mono [of s]) (use inv in \<open>simp_all add: relay_inv_def\<close>)
  moreover have "table_ok ?t" by (rule table_ok_same [of s]) (use inv in \<open>simp_all add: relay_inv_def\<close>)
  ultimately show ?thesis by (simp add: relay_inv_def)
qed

lemma mark_inv:
  assumes inv: "relay_inv s" and i: "i < length (rs_phase s)" "rs_phase s ! i = Pushed rows"
  shows "relay_inv (s\<lparr>rs_phase := (rs_phase s)[i := Idle],
      rs_db := (rs_db s)\<lparr>outbox := mark_published now (map ob_id rows) (outbox (rs_db s))\<rparr>\<rparr>)" (is "relay_inv ?t")
proof -
  have t: "table_ok s" and l: "locks_ok s" and p: "pushed_ok s" and n: "none_lost s"
    using inv by (simp_all add: relay_inv_def)
  let ?obs = "outbox (rs_db s)"
  have "table_ok ?t" using t mark_published_entry [of _ now "map ob_id rows" ?obs]
    by (simp add: table_ok_def) metis
  moreover have "locks_ok ?t"
  proof -
    note rl = released_locks [OF i(1) _ l, of ?t]
    have "r \<in> set (mark_published now (map ob_id rows) ?obs) \<and> published_at r = None" if "r \<in> set (held_rows ?t)" for r
    proof -
      have "r \<in> set ?obs" "published_at r = None" using that rl(1) l by (auto simp: locks_ok_def)
      moreover have "ob_id r \<notin> ob_id ` set rows" using that rl(3) i(2) by auto
      ultimately show ?thesis by (auto simp: mark_published_def image_iff)
    qed
    with rl(2) show ?thesis by (simp add: locks_ok_def)
  qed
  moreover have "pushed_ok ?t" by (rule pushed_ok_update [OF p]) auto
  moreover have "none_lost ?t" unfolding none_lost_def
  proof
    fix r0 assume "r0 \<in> set (rs_rows ?t)"
    with n consider "entry_of r0 \<in> set (rs_log s)"
      | r where "r \<in> set ?obs" "entry_of r = entry_of r0" "published_at r = None"
      by (auto simp: none_lost_def)
    then show "entry_of r0 \<in> set (rs_log ?t) \<or> (\<exists>r \<in> set (outbox (rs_db ?t)). entry_of r = entry_of r0 \<and> published_at r = None)"
    proof cases
      case (2 r)
      show ?thesis
      proof (cases "ob_id r \<in> ob_id ` set rows")
        case True
        then obtain x where x: "x \<in> set rows" "ob_id x = ob_id r" by auto
        have "x \<in> set ?obs" using l x(1) released_locks(4) [OF i(1) _ l, of ?t] i(2) by (auto simp: locks_ok_def)
        then have "x = r" using t 2(1) x(2) distinct_map_eq [of ob_id ?obs x r] by (simp add: table_ok_def)
        then show ?thesis using pushed_ok_mem [OF p i] x(1) 2(2) by auto
      next
        case False
        then show ?thesis using 2 by (auto simp: mark_published_def image_iff intro!: bexI [of _ r])
      qed
    qed simp
  qed
  ultimately show ?thesis by (simp add: relay_inv_def)
qed

lemma sweep_inv:
  assumes inv: "relay_inv s"
  shows "relay_inv (s\<lparr>rs_db := sweep cutoff (rs_db s)\<rparr>)" (is "relay_inv ?t")
proof -
  have sub: "set (outbox (rs_db ?t)) \<subseteq> set (outbox (rs_db s))" by (auto simp: sweep_def)
  have keep: "r \<in> set (outbox (rs_db ?t))" if "r \<in> set (outbox (rs_db s))" "published_at r = None" for r
    using that by (simp add: sweep_def)
  have "distinct (map ob_id (outbox (rs_db ?t)))"
    using inv by (simp add: relay_inv_def table_ok_def sweep_def distinct_map_filter)
  then have "table_ok ?t" using inv sub by (auto simp: relay_inv_def table_ok_def)
  moreover have "locks_ok ?t" using inv keep by (simp add: relay_inv_def locks_ok_def held_rows_def)
  moreover have "none_lost ?t" using inv keep unfolding relay_inv_def none_lost_def by fastforce
  ultimately show ?thesis using inv by (simp add: relay_inv_def pushed_ok_def)
qed

lemma release_inv:
  assumes inv: "relay_inv s" and i: "i < length (rs_phase s)"
    and t: "t = s\<lparr>rs_phase := (rs_phase s)[i := Idle], rs_log := rs_log s @ es\<rparr>"
  shows "relay_inv t"
proof -
  have l: "locks_ok s" using inv by (simp add: relay_inv_def)
  have ph: "rs_phase t = (rs_phase s)[i := Idle]" by (simp add: t)
  note rl = released_locks [OF i ph l]
  have "locks_ok t" using rl l by (auto simp: locks_ok_def t)
  moreover have "pushed_ok t"
    by (rule pushed_ok_update [where s = s and i = i and p = Idle]) (use inv in \<open>auto simp: relay_inv_def t\<close>)
  moreover have "none_lost t" by (rule none_lost_mono [of s]) (use inv in \<open>auto simp: relay_inv_def t\<close>)
  moreover have "table_ok t" by (rule table_ok_same [of s]) (use inv in \<open>simp_all add: relay_inv_def t\<close>)
  ultimately show ?thesis by (simp add: relay_inv_def)
qed

lemma relay_step_inv: "relay_inv s \<Longrightarrow> relay_step faults n s t \<Longrightarrow> relay_inv t"
proof (erule relay_stepE)
  fix i rows k
  assume "relay_inv s" "i < length (rs_phase s)"
    "t = s\<lparr>rs_phase := (rs_phase s)[i := Idle], rs_log := rs_log s @ take k (map entry_of rows)\<rparr>"
  then show "relay_inv t" by (rule release_inv)
next
  fix i assume a: "relay_inv s" "i < length (rs_phase s)" "t = s\<lparr>rs_phase := (rs_phase s)[i := Idle]\<rparr>"
  show "relay_inv t" by (rule release_inv [OF a(1,2), of _ "[]"]) (simp add: a(3))
qed (auto intro: produce_inv select_inv push_inv mark_inv sweep_inv)

lemma relay_start_inv: "relay_inv (relay_start m)"
  by (auto simp: relay_inv_def relay_start_def table_ok_def locks_ok_def pushed_ok_def none_lost_def held_rows_def
      empty_db_def)

definition relay_safe :: "relays \<Rightarrow> bool" where
  "relay_safe s \<longleftrightarrow> none_lost s \<and>
     (\<forall>r \<in> set (outbox (rs_db s)). published_at r \<noteq> None \<longrightarrow> entry_of r \<in> set (rs_log s)) \<and>
     (\<forall>i j. i < length (rs_phase s) \<longrightarrow> j < length (rs_phase s) \<longrightarrow> i \<noteq> j \<longrightarrow>
        set (held (rs_phase s ! i)) \<inter> set (held (rs_phase s ! j)) = {})"

lemma relay_inv_safe: "relay_inv s \<Longrightarrow> relay_safe s"
proof -
  assume inv: "relay_inv s"
  then have t: "table_ok s" and l: "locks_ok s" and n: "none_lost s" by (simp_all add: relay_inv_def)
  have "entry_of r \<in> set (rs_log s)" if r: "r \<in> set (outbox (rs_db s))" "published_at r \<noteq> None" for r
  proof -
    obtain r0 where r0: "r0 \<in> set (rs_rows s)" "entry_of r0 = entry_of r" using t r(1) by (auto simp: table_ok_def)
    have "x = r" if "x \<in> set (outbox (rs_db s))" "entry_of x = entry_of r" for x
      using t that(1) r(1) entry_of_id [OF that(2)] distinct_map_eq [of ob_id "outbox (rs_db s)" x r]
      by (simp add: table_ok_def)
    with n r0 r(2) show ?thesis unfolding none_lost_def by metis
  qed
  moreover have "set (held (rs_phase s ! i)) \<inter> set (held (rs_phase s ! j)) = {}"
    if ij: "i < length (rs_phase s)" "j < length (rs_phase s)" "i \<noteq> j" for i j
  proof -
    let ?t = "s\<lparr>rs_phase := (rs_phase s)[i := Idle]\<rparr>"
    have "rs_phase s ! j = (rs_phase s)[i := Idle] ! j" using ij(3) by simp
    also have "\<dots> \<in> set ((rs_phase s)[i := Idle])" using ij(2) by (intro nth_mem) simp
    finally have "set (held (rs_phase s ! j)) \<subseteq> set (held_rows ?t)" by (auto simp: held_rows_def)
    then show ?thesis using released_locks(3) [OF ij(1) _ l, of ?t] by auto
  qed
  ultimately show ?thesis using n by (simp add: relay_safe_def)
qed

interpretation relay_system: safe_system "\<lambda>s. s = relay_start m" "relay_step faults n" relay_inv relay_safe
  for m faults n
proof unfold_locales
  show "s = relay_start m \<Longrightarrow> relay_inv s" for s by (simp add: relay_start_inv)
  show "relay_inv s \<Longrightarrow> relay_step faults n s t \<Longrightarrow> relay_inv t" for s t by (rule relay_step_inv)
  show "relay_inv s \<Longrightarrow> relay_safe s" for s by (rule relay_inv_safe)
qed

section \<open>Without faults: exactly once\<close>

definition pushed_all :: "relays \<Rightarrow> outbox_row list" where
  "pushed_all s = concat (map pushed_rows (rs_phase s))"

text \<open>No row was pushed twice; a pushed row that is not marked yet is in the hands of one replica.\<close>

definition once_inv :: "relays \<Rightarrow> bool" where
  "once_inv s \<longleftrightarrow> relay_inv s \<and> distinct (map fst (rs_log s)) \<and>
     fst ` set (rs_log s) \<subseteq> ob_id ` set (rs_rows s) \<and>
     (\<forall>r \<in> set (outbox (rs_db s)). published_at r = None \<and> ob_id r \<in> fst ` set (rs_log s) \<longrightarrow> r \<in> set (pushed_all s))"

lemma other_phase:
  assumes "q \<in> set ps" "i < length ps" "q \<noteq> ps ! i"
  shows "q \<in> set (ps[i := x])"
proof -
  obtain j where j: "j < length ps" "ps ! j = q" using assms(1) by (meson in_set_conv_nth)
  then have "i \<noteq> j" using assms(3) by auto
  then have "ps[i := x] ! j = q" using j(2) by simp
  moreover have "ps[i := x] ! j \<in> set (ps[i := x])" by (rule nth_mem) (simp add: j(1))
  ultimately show ?thesis by simp
qed

lemma pushed_by_other:
  assumes "r \<in> set (pushed_all s)" "i < length (rs_phase s)" "r \<notin> set (pushed_rows (rs_phase s ! i))"
  obtains q where "q \<in> set ((rs_phase s)[i := x])" "r \<in> set (pushed_rows q)"
proof -
  obtain q where q: "q \<in> set (rs_phase s)" "r \<in> set (pushed_rows q)"
    using assms(1) unfolding pushed_all_def by auto
  with assms(3) have "q \<noteq> rs_phase s ! i" by auto
  from other_phase [OF q(1) assms(2) this] q(2) show ?thesis by (rule that)
qed

lemma pushed_elsewhere:
  assumes "r \<in> set (pushed_all s)" "i < length (rs_phase s)" "r \<notin> set (pushed_rows (rs_phase s ! i))"
    "rs_phase t = (rs_phase s)[i := p]"
  shows "r \<in> set (pushed_all t)"
  by (rule pushed_by_other [OF assms(1-3), of p]) (use assms(4) in \<open>auto simp: pushed_all_def\<close>)

lemma pushed_rows_held: "r \<in> set (pushed_rows q) \<Longrightarrow> r \<in> set (held q)"
  by (cases q) auto

lemma pushed_held_elsewhere:
  assumes "r \<in> set (pushed_all s)" "i < length (rs_phase s)" "r \<notin> set (pushed_rows (rs_phase s ! i))"
  shows "r \<in> set (held_rows (s\<lparr>rs_phase := (rs_phase s)[i := Idle]\<rparr>))"
  by (rule pushed_by_other [OF assms, of Idle]) (auto simp: held_rows_def dest: pushed_rows_held)

lemma pushed_all_new: "i < length (rs_phase s) \<Longrightarrow> rs_phase t = (rs_phase s)[i := Pushed rows] \<Longrightarrow> set rows \<subseteq> set (pushed_all t)"
  using set_update_memI [of i "rs_phase s" "Pushed rows"] by (auto simp: pushed_all_def)

lemma once_push:
  assumes o: "once_inv s" and i: "i < length (rs_phase s)" "rs_phase s ! i = Selected rows"
  shows "once_inv (s\<lparr>rs_phase := (rs_phase s)[i := Pushed rows], rs_log := rs_log s @ map entry_of rows\<rparr>)"
    (is "once_inv ?t")
proof -
  have inv: "relay_inv s" and l: "locks_ok s" and t: "table_ok s" using o by (simp_all add: once_inv_def relay_inv_def)
  let ?r = "s\<lparr>rs_phase := (rs_phase s)[i := Idle]\<rparr>"
  note rl = released_locks [OF i(1) _ l, of ?r]
  have rows: "r \<in> set (outbox (rs_db s)) \<and> published_at r = None" if "r \<in> set rows" for r
    using rl(4) i(2) l that by (auto simp: locks_ok_def)
  have fresh: "ob_id r \<notin> fst ` set (rs_log s)" if r: "r \<in> set rows" for r
  proof
    assume "ob_id r \<in> fst ` set (rs_log s)"
    then have "r \<in> set (pushed_all s)" using o rows [OF r] by (simp add: once_inv_def)
    then have "r \<in> set (held_rows ?r)" using i by (intro pushed_held_elsewhere) simp_all
    then show False using rl(3) i(2) r by auto
  qed
  have "distinct (map ob_id (held (rs_phase s ! i)))"
    using same_rows(2) [OF released [OF i(1), of ?r]] l by (simp add: locks_ok_def)
  then have "distinct (map fst (map entry_of rows))" using i(2) by (simp add: entry_of_def comp_def)
  then have "distinct (map fst (rs_log s @ map entry_of rows))"
  proof (intro distinct_map_append)
    fix y assume "y \<in> set (map entry_of rows)"
    then obtain x where "x \<in> set rows" "fst y = ob_id x" by (auto simp: entry_of_def)
    then show "fst y \<notin> fst ` set (rs_log s)" using fresh [of x] by simp
  qed (use o in \<open>simp_all add: once_inv_def\<close>)
  moreover have "fst ` set (rs_log ?t) \<subseteq> ob_id ` set (rs_rows ?t)"
  proof -
    have "ob_id r \<in> ob_id ` set (rs_rows s)" if "r \<in> set rows" for r
      using t rows [OF that] entry_of_id unfolding table_ok_def by (metis imageI)
    then show ?thesis using o by (auto simp: once_inv_def entry_of_def)
  qed
  moreover have "r \<in> set (pushed_all ?t)"
    if r: "r \<in> set (outbox (rs_db s))" "published_at r = None" "ob_id r \<in> fst ` set (rs_log ?t)" for r
  proof (cases "ob_id r \<in> fst ` set (rs_log s)")
    case True
    then have "r \<in> set (pushed_all s)" using o r by (simp add: once_inv_def)
    then show ?thesis using i by (intro pushed_elsewhere [of r s i ?t "Pushed rows"]) simp_all
  next
    case False
    with r(3) obtain x where x: "x \<in> set rows" "ob_id x = ob_id r" by (auto simp: entry_of_def)
    then have "x = r" using t rows [OF x(1)] r(1) distinct_map_eq [of ob_id "outbox (rs_db s)" x r]
      by (simp add: table_ok_def)
    with x pushed_all_new [OF i(1), of ?t rows] show ?thesis by auto
  qed
  ultimately show ?thesis using push_inv [OF inv i] unfolding once_inv_def by simp
qed

lemma once_mark:
  assumes o: "once_inv s" and i: "i < length (rs_phase s)" "rs_phase s ! i = Pushed rows"
  shows "once_inv (s\<lparr>rs_phase := (rs_phase s)[i := Idle],
      rs_db := (rs_db s)\<lparr>outbox := mark_published now (map ob_id rows) (outbox (rs_db s))\<rparr>\<rparr>)" (is "once_inv ?t")
proof -
  have inv: "relay_inv s" using o by (simp add: once_inv_def)
  have "r \<in> set (pushed_all ?t)"
    if r: "r \<in> set (outbox (rs_db ?t))" "published_at r = None" "ob_id r \<in> fst ` set (rs_log s)" for r
  proof -
    have ro: "r \<in> set (outbox (rs_db s))" and nr: "ob_id r \<notin> ob_id ` set rows"
      using r(1,2) by (auto simp: mark_published_def image_iff split: if_splits)
    then have "r \<in> set (pushed_all s)" using o r by (simp add: once_inv_def)
    then show ?thesis
      by (rule pushed_elsewhere [where i = i and p = Idle]) (use i nr in auto)
  qed
  then show ?thesis using o mark_inv [OF inv i, of now] unfolding once_inv_def by simp
qed

lemma once_step: "once_inv s \<Longrightarrow> relay_step False n s t \<Longrightarrow> once_inv t"
proof (erule relay_stepE)
  fix rows d'
  assume o: "once_inv s" and t: "t = s\<lparr>rs_db := d', rs_rows := rs_rows s @ rows\<rparr>" and d: "distinct (map ob_id rows)"
    and f: "\<forall>r \<in> set rows. published_at r = None \<and> ob_id r \<notin> ob_id ` set (rs_rows s)"
    and d': "outbox d' = outbox (rs_db s) @ rows"
  have "relay_inv t" unfolding t using o by (intro produce_inv [OF _ d f d']) (simp add: once_inv_def)
  moreover have "ob_id r \<notin> fst ` set (rs_log s)" if "r \<in> set rows" for r
    using f that o unfolding once_inv_def by blast
  ultimately show "once_inv t" using o d' by (auto simp: t once_inv_def pushed_all_def)
next
  fix i
  assume o: "once_inv s" and i: "i < length (rs_phase s)" "rs_phase s ! i = Idle"
    and t: "t = s\<lparr>rs_phase := (rs_phase s)[i := Selected (select_batch n (locked_ids s) (outbox (rs_db s)))]\<rparr>"
  have "relay_inv t" unfolding t using o by (intro select_inv [OF _ i refl]) (simp add: once_inv_def)
  moreover have "r \<in> set (pushed_all t)" if "r \<in> set (pushed_all s)" for r
    by (rule pushed_elsewhere [OF that i(1)]) (simp_all add: i t)
  ultimately show "once_inv t" using o by (auto simp: t once_inv_def)
next
  fix cutoff assume o: "once_inv s" and t: "t = s\<lparr>rs_db := sweep cutoff (rs_db s)\<rparr>"
  have "relay_inv t" unfolding t using o by (intro sweep_inv) (simp add: once_inv_def)
  then show "once_inv t" using o by (auto simp: t once_inv_def pushed_all_def sweep_def)
qed (auto intro: once_push once_mark)

interpretation calm_relays: step_system "\<lambda>s. s = relay_start m" "relay_step False n" once_inv for m n
proof unfold_locales
  show "s = relay_start m \<Longrightarrow> once_inv s" for s
    using relay_start_inv [of m] by (simp add: once_inv_def relay_start_def empty_db_def)
  show "once_inv s \<Longrightarrow> relay_step False n s t \<Longrightarrow> once_inv t" for s t by (rule once_step)
qed

section \<open>Draining a backlog\<close>

lemma insort_key_map: "(\<And>x. f (g x) = f x) \<Longrightarrow> insort_key f (g x) (map g xs) = map g (insort_key f x xs)"
  by (induction xs) auto

lemma sort_key_map: "(\<And>x. f (g x) = f x) \<Longrightarrow> sort_key f (map g xs) = map g (sort_key f xs)"
  by (induction xs) (auto simp: insort_key_map)

text \<open>Taking the first \<open>n\<close> of the elements with a property leaves the rest, where keys are unique.\<close>

lemma filter_taken:
  assumes d: "distinct (map key xs)"
  shows "filter (\<lambda>x. P x \<and> key x \<notin> key ` set (take n (filter P xs))) xs = drop n (filter P xs)"
proof -
  let ?U = "filter P xs"
  have dU: "distinct (map key (take n ?U @ drop n ?U))" using distinct_map_filter [OF d, of P] by simp
  then have dis: "key ` set (take n ?U) \<inter> key ` set (drop n ?U) = {}" unfolding map_append distinct_append set_map by blast
  have "filter (\<lambda>x. P x \<and> key x \<notin> key ` set (take n ?U)) xs = filter (\<lambda>x. key x \<notin> key ` set (take n ?U)) ?U"
    by (simp add: conj_commute)
  also have "\<dots> = filter (\<lambda>x. key x \<notin> key ` set (take n ?U)) (take n ?U) @ filter (\<lambda>x. key x \<notin> key ` set (take n ?U)) (drop n ?U)"
    using filter_append [of "\<lambda>x. key x \<notin> key ` set (take n ?U)" "take n ?U" "drop n ?U"] by simp
  also have "filter (\<lambda>x. key x \<notin> key ` set (take n ?U)) (take n ?U) = []" by (auto simp: filter_empty_conv)
  also have "filter (\<lambda>x. key x \<notin> key ` set (take n ?U)) (drop n ?U) = drop n ?U"
    using dis by (auto simp: filter_id_conv)
  finally show ?thesis by simp
qed

text \<open>The rows waiting, in the order of their ids.\<close>

definition waiting :: "outbox_row list \<Rightarrow> outbox_row list" where
  "waiting obs = filter (\<lambda>r. published_at r = None) (sort_key ob_id obs)"

lemma select_waiting: "select_batch n [] obs = take n (waiting obs)"
  by (simp add: select_batch_def waiting_def)

lemma waiting_backlog: "backlog d = length (waiting (outbox d))"
  by (simp add: backlog_def waiting_def filter_sort)

lemma unpublished_map_marked:
  "filter (\<lambda>r. published_at r = None) (map (\<lambda>r. if ob_id r \<in> ids then r\<lparr>published_at := Some now\<rparr> else r) rs) =
     filter (\<lambda>r. published_at r = None \<and> ob_id r \<notin> ids) rs"
  by (induction rs) auto

lemma waiting_marked:
  assumes "distinct (map ob_id obs)"
  shows "waiting (mark_published now (map ob_id (take n (waiting obs))) obs) = drop n (waiting obs)"
proof -
  let ?ids = "ob_id ` set (take n (waiting obs))" and ?S = "sort_key ob_id obs"
  let ?g = "\<lambda>r. if ob_id r \<in> ?ids then r\<lparr>published_at := Some now\<rparr> else r"
  have g: "ob_id (?g r) = ob_id r" for r by simp
  have "sort_key ob_id (map ?g obs) = map ?g ?S" by (rule sort_key_map) (rule g)
  then have "waiting (mark_published now (map ob_id (take n (waiting obs))) obs) = filter (\<lambda>r. published_at r = None) (map ?g ?S)"
    by (simp add: waiting_def mark_published_def)
  also have "\<dots> = filter (\<lambda>r. published_at r = None \<and> ob_id r \<notin> ?ids) ?S" by (rule unpublished_map_marked)
  also have "\<dots> = drop n (waiting obs)"
    using filter_taken [of ob_id ?S "\<lambda>r. published_at r = None" n] assms by (simp add: waiting_def distinct_map)
  finally show ?thesis .
qed

text \<open>\<open>k\<close> cycles in a row, none of them failing, with no other replica at work.\<close>

fun drain :: "nat \<Rightarrow> datetime \<Rightarrow> nat \<Rightarrow> db \<Rightarrow> db \<times> (pystr \<times> pystr) list" where
  "drain n now 0 d = (d, [])"
| "drain n now (Suc k) d =
     (case publish_batch n [] now Published d of (_, d1, cmds) \<Rightarrow>
        (case drain n now k d1 of (d2, cmds') \<Rightarrow> (d2, cmds @ cmds')))"

lemma publish_batch_ok:
  assumes "distinct (map ob_id (outbox d))" "0 < n"
  shows "\<exists>d'. publish_batch n [] now Published d =
      (Inr (min n (backlog d)), d', map command_of (take n (waiting (outbox d)))) \<and>
    waiting (outbox d') = drop n (waiting (outbox d)) \<and> distinct (map ob_id (outbox d'))"
proof (cases "take n (waiting (outbox d)) = []")
  case True
  with assms(2) have "waiting (outbox d) = []" by simp
  with assms show ?thesis by (simp add: publish_batch_def select_waiting waiting_backlog)
next
  case False
  have "length (take n (waiting (outbox d))) = min n (backlog d)" by (simp add: waiting_backlog)
  with False assms(1) waiting_marked [OF assms(1), of now n] show ?thesis
    by (simp add: publish_batch_def select_waiting Let_def)
qed

lemma drain_all:
  "distinct (map ob_id (outbox d)) \<Longrightarrow> 0 < n \<Longrightarrow> backlog d \<le> k * n \<Longrightarrow>
     backlog (fst (drain n now k d)) = 0 \<and> snd (drain n now k d) = map command_of (waiting (outbox d))"
proof (induction k arbitrary: d)
  case (Suc k)
  obtain d' where p: "publish_batch n [] now Published d =
      (Inr (min n (backlog d)), d', map command_of (take n (waiting (outbox d))))"
    and w: "waiting (outbox d') = drop n (waiting (outbox d))" and d': "distinct (map ob_id (outbox d'))"
    using publish_batch_ok [OF Suc.prems(1,2), of now] by (elim exE conjE)
  have "backlog d' \<le> k * n" using Suc.prems(3) w by (simp add: waiting_backlog)
  from Suc.IH [OF d' Suc.prems(2) this] show ?case
    by (simp add: p w split_def flip: map_append)
qed (simp add: waiting_backlog)

section \<open>The loop\<close>

text \<open>A run of the loop over the outcomes of its cycles.\<close>

type_synonym cycle_input = "real \<times> (exn + nat) \<times> (exn + nat) \<times> (exn + unit)"

definition run_cycles :: "real \<Rightarrow> nat \<Rightarrow> cycle_input list \<Rightarrow> loop_state \<Rightarrow> loop_state" where
  "run_cycles poll n ins l = fold (\<lambda>(now, pub, back, swp) l. fst (relay_cycle poll n now pub back swp l)) ins l"

lemma run_cycles_simps [simp]:
  "run_cycles poll n [] l = l"
  "run_cycles poll n ((now, pub, back, swp) # ins) l = run_cycles poll n ins (fst (relay_cycle poll n now pub back swp l))"
  by (simp_all add: run_cycles_def)

lemma relay_cycle_delay:
  "delay (fst (relay_cycle poll n now pub back swp l)) = poll \<or>
   delay (fst (relay_cycle poll n now pub back swp l)) = min (delay l * 2) 5"
  by (auto simp: relay_cycle_def cycle_failed_def Let_def split: sum.splits)

lemma relay_cycle_error: "delay (fst (relay_cycle poll n now (Inl e) back swp l)) = min (delay l * 2) 5"
  by (simp add: relay_cycle_def cycle_failed_def Let_def)

lemma min_doubled: "min (min (a * 2) 5 * 2 ^ k) 5 = min (a * (2 * 2 ^ k)) (5 :: real)"
proof (cases "a * 2 \<le> 5")
  case False
  have "5 * 1 \<le> 5 * (2 :: real) ^ k" by (rule mult_left_mono) simp_all
  then have m: "(5 :: real) \<le> 5 * 2 ^ k" by simp
  from False have "5 * 2 ^ k \<le> a * 2 * 2 ^ k" by (intro mult_right_mono) simp_all
  from order_trans [OF m this] have "5 \<le> a * (2 * 2 ^ k)" by (simp only: mult.assoc)
  from min_absorb2 [OF this] min_absorb2 [OF m] min_absorb2 [of 5 "a * 2"] False show ?thesis by simp
qed (simp add: min_def mult.assoc)

subsection \<open>The wake-up event\<close>

datatype relay_pc = At_start | Before_select | After_select | Sleeping | Waiting

text \<open>
  Where the loop stands, the event, commits whose \<open>notify\<close> is still to come, and whether rows were
  committed since the last select that did not stop at its limit.
\<close>

record wake_state =
  pc :: relay_pc
  flag :: bool
  owed :: nat
  unseen :: bool

inductive wake_step :: "wake_state \<Rightarrow> wake_state \<Rightarrow> bool" where
  commits: "wake_step s (s\<lparr>unseen := True, owed := owed s + 1\<rparr>)"
| notifies: "owed s = Suc k \<Longrightarrow> wake_step s (s\<lparr>owed := k, flag := True\<rparr>)"
| clears: "pc s = At_start \<Longrightarrow> wake_step s (s\<lparr>pc := Before_select, flag := False\<rparr>)"
| selects: "pc s = Before_select \<Longrightarrow> wake_step s (s\<lparr>pc := After_select, unseen := False\<rparr>)"
| fills: "pc s = Before_select \<Longrightarrow> wake_step s (s\<lparr>pc := At_start\<rparr>)"
| fails: "pc s \<in> {Before_select, After_select} \<Longrightarrow> wake_step s (s\<lparr>pc := Sleeping\<rparr>)"
| sleeps: "pc s = Sleeping \<Longrightarrow> wake_step s (s\<lparr>pc := At_start\<rparr>)"
| parks: "pc s = After_select \<Longrightarrow> wake_step s (s\<lparr>pc := Waiting\<rparr>)"
| wakes: "pc s = Waiting \<Longrightarrow> wake_step s (s\<lparr>pc := At_start\<rparr>)"

inductive_cases wake_stepE: "wake_step s t"

definition wake_start :: wake_state where
  "wake_start = \<lparr>pc = At_start, flag = False, owed = 0, unseen = False\<rparr>"

definition wake_inv :: "wake_state \<Rightarrow> bool" where
  "wake_inv s \<longleftrightarrow> (unseen s \<longrightarrow> flag s \<or> 0 < owed s \<or> pc s \<in> {At_start, Before_select, Sleeping})"

interpretation wake_system: step_system "\<lambda>s. s = wake_start" wake_step wake_inv
proof unfold_locales
  show "s = wake_start \<Longrightarrow> wake_inv s" for s by (simp add: wake_inv_def wake_start_def)
  show "wake_inv s \<Longrightarrow> wake_step s t \<Longrightarrow> wake_inv t" for s t
    by (erule wake_stepE) (auto simp: wake_inv_def)
qed

section \<open>Properties of the relay\<close>

text \<open>
  C6. No committed event is lost: whatever the replicas do, with failing pushes, failing commits,
  crashes and retention sweeps, every outbox row ever committed has been pushed to Redis or is still
  in the table waiting to be published.
\<close>

theorem no_event_lost:
  assumes "(relay_step faults n)\<^sup>*\<^sup>* (relay_start m) s" "r0 \<in> set (rs_rows s)"
  shows "(ob_id r0, command_of r0) \<in> set (rs_log s) \<or>
    (\<exists>r \<in> set (outbox (rs_db s)). ob_id r = ob_id r0 \<and> command_of r = command_of r0 \<and> published_at r = None)"
  using relay_system.reachable_safe [OF refl assms(1)] assms(2)
  by (fastforce simp: relay_safe_def none_lost_def entry_of_def)

text \<open>
  A row is marked published only after Redis executed its command, and no two replicas hold the
  same row at the same time.
\<close>

theorem marked_rows_were_pushed:
  assumes "(relay_step faults n)\<^sup>*\<^sup>* (relay_start m) s"
  shows "(\<forall>r \<in> set (outbox (rs_db s)). published_at r \<noteq> None \<longrightarrow> (ob_id r, command_of r) \<in> set (rs_log s)) \<and>
    (\<forall>i j. i < length (rs_phase s) \<longrightarrow> j < length (rs_phase s) \<longrightarrow> i \<noteq> j \<longrightarrow>
       set (held (rs_phase s ! i)) \<inter> set (held (rs_phase s ! j)) = {})"
  using relay_system.reachable_safe [OF refl assms] by (simp add: relay_safe_def entry_of_def)

text \<open>
  C36. Duplicates come from faults alone: as long as no push fails half-way and no transaction is
  aborted, any number of replicas working at once push each row at most once.
\<close>

theorem pushed_once_without_faults:
  assumes "(relay_step False n)\<^sup>*\<^sup>* (relay_start m) s"
  shows "distinct (map fst (rs_log s))"
  using calm_relays.reachable_inv [OF refl assms] by (simp add: once_inv_def)

text \<open>
  C26. A backlog drains: with batches of \<open>n > 0\<close> rows, as many cycles as the backlog needs publish every
  waiting row exactly once in the order of the ids and leave nothing waiting.
\<close>

theorem backlog_drains:
  assumes "distinct (map ob_id (outbox d))" "0 < n" "backlog d \<le> k * n"
  shows "backlog (fst (drain n now k d)) = 0 \<and>
    snd (drain n now k d) = map command_of (filter (\<lambda>r. published_at r = None) (sort_key ob_id (outbox d)))"
  using drain_all [OF assms] by (simp add: waiting_def)

text \<open>
  One call of \<open>publish_batch\<close> on an idle replica is a run of the replicated system: whatever way it
  ends, there are steps to a state with the same tables and the same commands appended to the log.
\<close>

theorem publish_batch_is_a_run:
  assumes "i < length (rs_phase s)" "rs_phase s ! i = Idle"
    "publish_batch n (locked_ids s) now fin (rs_db s) = (res, d', cmds)"
  shows "\<exists>t. (relay_step True n)\<^sup>*\<^sup>* s t \<and> rs_db t = d' \<and> map snd (rs_log t) = map snd (rs_log s) @ cmds \<and>
    rs_phase t = rs_phase s"
proof -
  let ?rows = "select_batch n (locked_ids s) (outbox (rs_db s))"
  let ?s1 = "s\<lparr>rs_phase := (rs_phase s)[i := Selected ?rows]\<rparr>"
  let ?s2 = "?s1\<lparr>rs_phase := (rs_phase ?s1)[i := Pushed ?rows], rs_log := rs_log ?s1 @ map entry_of ?rows\<rparr>"
  have s1: "relay_step True n s ?s1" using assms(1,2) by (rule relay_step.select) simp
  have i1: "i < length (rs_phase ?s1)" "rs_phase ?s1 ! i = Selected ?rows" using assms(1) by simp_all
  have s2: "relay_step True n ?s1 ?s2" by (rule relay_step.push [OF i1])
  have i2: "i < length (rs_phase ?s2)" "rs_phase ?s2 ! i = Pushed ?rows" using assms(1) by simp_all
  have idle: "(rs_phase s)[i := Idle] = rs_phase s" using list_update_id [of "rs_phase s" i] assms(2) by simp
  have snds: "map (snd \<circ> entry_of) xs = map command_of xs" for xs by (simp add: entry_of_def)
  show ?thesis
  proof (cases "?rows = []")
    case True
    with assms(3) show ?thesis by (intro exI [of _ s]) (auto simp: publish_batch_def)
  next
    case False
    show ?thesis
    proof (cases fin)
      case Published
      let ?t = "?s2\<lparr>rs_phase := (rs_phase ?s2)[i := Idle],
        rs_db := (rs_db ?s2)\<lparr>outbox := mark_published now (map ob_id ?rows) (outbox (rs_db ?s2))\<rparr>\<rparr>"
      have "(relay_step True n)\<^sup>*\<^sup>* s ?t" by (rule three_steps [where R = "relay_step True n", OF s1 s2], rule relay_step.mark [OF i2])
      then show ?thesis using assms(3) False Published idle
        by (intro exI [of _ ?t]) (auto simp: publish_batch_def Let_def snds)
    next
      case (Redis_fails k)
      let ?t = "?s1\<lparr>rs_phase := (rs_phase ?s1)[i := Idle], rs_log := rs_log ?s1 @ take k (map entry_of ?rows)\<rparr>"
      have "(relay_step True n)\<^sup>*\<^sup>* s ?t" by (rule two_steps [where R = "relay_step True n", OF s1], rule relay_step.push_fails [OF TrueI i1])
      then show ?thesis using assms(3) False Redis_fails idle
        by (intro exI [of _ ?t]) (auto simp: publish_batch_def Let_def snds take_map [symmetric])
    next
      case Commit_fails
      let ?t = "?s2\<lparr>rs_phase := (rs_phase ?s2)[i := Idle]\<rparr>"
      have "(relay_step True n)\<^sup>*\<^sup>* s ?t" by (rule three_steps [where R = "relay_step True n", OF s1 s2], rule relay_step.abort [OF TrueI i2(1)])
      then show ?thesis using assms(3) False Commit_fails idle
        by (intro exI [of _ ?t]) (auto simp: publish_batch_def Let_def snds)
    qed
  qed
qed

text \<open>
  C40. The backoff is exponential and bounded: after \<open>k\<close> failing cycles in a row the relay sleeps
  \<open>min (delay * 2^k) 5\<close> seconds, in any run the delay stays between the poll interval (or 5 seconds, the
  smaller) and the larger of the two, and a cycle that publishes resets it.
\<close>

theorem relay_backoff:
  assumes "0 < poll"
  shows "min poll 5 \<le> delay (run_cycles poll n ins (loop_start poll)) \<and>
    delay (run_cycles poll n ins (loop_start poll)) \<le> max poll 5 \<and>
    (delay l \<le> 5 \<longrightarrow> delay (run_cycles poll n (map (\<lambda>(now, e). (now, Inl e, Inr 0, Inr ())) errs) l) =
       min (delay l * 2 ^ length errs) 5) \<and>
    (snd (relay_cycle poll n now pub bl swp l) \<in> {Again, Wait_wake poll} \<longrightarrow>
       delay (fst (relay_cycle poll n now pub bl swp l)) = poll)"
proof (intro conjI impI)
  have "min poll 5 \<le> delay (run_cycles poll n ins l) \<and> delay (run_cycles poll n ins l) \<le> max poll 5"
    if "min poll 5 \<le> delay l \<and> delay l \<le> max poll 5" for l
    using that
  proof (induction ins arbitrary: l)
    case (Cons x ins)
    obtain now pub bl swp where x: "x = (now, pub, bl, swp)" by (cases x)
    have "min poll 5 \<le> delay (fst (relay_cycle poll n now pub bl swp l)) \<and>
        delay (fst (relay_cycle poll n now pub bl swp l)) \<le> max poll 5"
      using relay_cycle_delay [of poll n now pub bl swp l] Cons.prems assms by (auto simp: min_def max_def)
    from Cons.IH [OF this] x show ?case by simp
  qed simp
  from this [of "loop_start poll"]
  show "min poll 5 \<le> delay (run_cycles poll n ins (loop_start poll))"
    "delay (run_cycles poll n ins (loop_start poll)) \<le> max poll 5" by (simp_all add: loop_start_def)
  show "delay l \<le> 5 \<Longrightarrow> delay (run_cycles poll n (map (\<lambda>(now, e). (now, Inl e, Inr 0, Inr ())) errs) l) =
       min (delay l * 2 ^ length errs) 5"
  proof (induction errs arbitrary: l)
    case (Cons x errs)
    obtain now e where x: "x = (now, e)" by (cases x)
    have d: "delay (fst (relay_cycle poll n now (Inl e) (Inr 0) (Inr ()) l)) = min (delay l * 2) 5" by (rule relay_cycle_error)
    show ?case using Cons.IH [of "fst (relay_cycle poll n now (Inl e) (Inr 0) (Inr ()) l)"]
      by (simp add: d x min_doubled)
  qed simp
  show "snd (relay_cycle poll n now pub bl swp l) \<in> {Again, Wait_wake poll} \<Longrightarrow>
      delay (fst (relay_cycle poll n now pub bl swp l)) = poll"
    by (auto simp: relay_cycle_def cycle_failed_def Let_def split: sum.splits if_splits)
qed

text \<open>
  No wake-up is lost: a relay that is parked with its event clear, while no \<open>notify\<close> is pending, has
  no row committed on this replica that its last select could not see.
\<close>

theorem parked_relay_saw_everything:
  assumes "wake_step\<^sup>*\<^sup>* wake_start s" "pc s = Waiting" "\<not> flag s" "owed s = 0"
  shows "\<not> unseen s"
  using wake_system.reachable_inv [OF refl assms(1)] assms(2-4) by (auto simp: wake_inv_def)

section \<open>Witnesses\<close>

definition row1 :: outbox_row where
  "row1 = \<lparr>ob_id = 1, topic = lit ''user:bob'', payload = JObj [],
     ob_created_at = \<lparr>dt_year = 2026, dt_month = 9, dt_day = 10, dt_hour = 12, dt_minute = 0, dt_second = 0,
       dt_micro = 0, dt_offset = Some 0\<rparr>, published_at = None\<rparr>"

definition one_row :: db where
  "one_row = empty_db\<lparr>outbox := [row1]\<rparr>"

text \<open>Two replicas, one row committed, selected and pushed by the first replica.\<close>

definition two_relays :: "phase \<Rightarrow> (nat \<times> pystr \<times> pystr) list \<Rightarrow> relays" where
  "two_relays p es = \<lparr>rs_db = one_row, rs_phase = [p, Idle], rs_log = es, rs_rows = [row1]\<rparr>"

lemma row1_simps [simp]: "ob_id row1 = 1" "published_at row1 = None"
  by (simp_all add: row1_def)

lemma select_one_row: "select_batch 10 [] [row1] = [row1]"
  by (simp add: select_batch_def)

lemma two_relays_run:
  "(relay_step faults 10)\<^sup>*\<^sup>* (relay_start 2) (two_relays Idle [])"
  "(relay_step faults 10)\<^sup>*\<^sup>* (relay_start 2) (two_relays (Pushed [row1]) [entry_of row1])"
proof -
  have "relay_step faults 10 (relay_start 2)
      ((relay_start 2)\<lparr>rs_db := one_row, rs_rows := rs_rows (relay_start 2) @ [row1]\<rparr>)"
    by (rule relay_step.produce) (simp_all add: relay_start_def one_row_def empty_db_def)
  then have "relay_step faults 10 (relay_start 2) (two_relays Idle [])"
    by (simp add: relay_start_def two_relays_def numeral_2_eq_2)
  then show s1: "(relay_step faults 10)\<^sup>*\<^sup>* (relay_start 2) (two_relays Idle [])" by (rule r_into_rtranclp)
  have "relay_step faults 10 (two_relays Idle [])
      ((two_relays Idle [])\<lparr>rs_phase := (rs_phase (two_relays Idle []))[0 := Selected [row1]]\<rparr>)"
    by (rule relay_step.select)
      (simp_all add: two_relays_def locked_ids_def held_rows_def one_row_def select_one_row)
  then have s2: "relay_step faults 10 (two_relays Idle []) (two_relays (Selected [row1]) [])"
    by (simp add: two_relays_def)
  have "relay_step faults 10 (two_relays (Selected [row1]) [])
      ((two_relays (Selected [row1]) [])\<lparr>rs_phase := (rs_phase (two_relays (Selected [row1]) []))[0 := Pushed [row1]],
         rs_log := rs_log (two_relays (Selected [row1]) []) @ map entry_of [row1]\<rparr>)"
    by (rule relay_step.push) (simp_all add: two_relays_def)
  then have "relay_step faults 10 (two_relays (Selected [row1]) []) (two_relays (Pushed [row1]) [entry_of row1])"
    by (simp add: two_relays_def)
  with s1 s2 show "(relay_step faults 10)\<^sup>*\<^sup>* (relay_start 2) (two_relays (Pushed [row1]) [entry_of row1])"
    by (meson rtranclp.rtrancl_into_rtrancl)
qed

theorem no_event_lost_witness:
  "(1, command_of row1) \<in> set (rs_log (two_relays Idle [])) \<or>
   (\<exists>r \<in> set (outbox (rs_db (two_relays Idle []))). ob_id r = 1 \<and> command_of r = command_of row1 \<and> published_at r = None)"
  using no_event_lost [OF two_relays_run(1) [of True], of row1] by (simp add: two_relays_def)

theorem marked_rows_were_pushed_witness:
  "set (held (rs_phase (two_relays (Pushed [row1]) [entry_of row1]) ! 0)) \<inter>
   set (held (rs_phase (two_relays (Pushed [row1]) [entry_of row1]) ! 1)) = {}"
  using marked_rows_were_pushed [OF two_relays_run(2) [of True]] by (simp add: two_relays_def)

theorem pushed_once_without_faults_witness:
  "rs_log (two_relays (Pushed [row1]) [entry_of row1]) = [(1, command_of row1)] \<and>
   distinct (map fst (rs_log (two_relays (Pushed [row1]) [entry_of row1])))"
  using pushed_once_without_faults [OF two_relays_run(2)] by (simp add: two_relays_def entry_of_def)

theorem backlog_drains_witness:
  "backlog (fst (drain 10 (ob_created_at row1) 1 one_row)) = 0 \<and> snd (drain 10 (ob_created_at row1) 1 one_row) = [command_of row1]"
  using backlog_drains [of one_row 10 1 "ob_created_at row1"] by (simp add: one_row_def backlog_def)

theorem publish_batch_is_a_run_witness:
  "\<exists>t. (relay_step True 10)\<^sup>*\<^sup>* (two_relays Idle []) t \<and> map snd (rs_log t) = [command_of row1] \<and> rs_db t = one_row"
proof -
  have p: "publish_batch 10 (locked_ids (two_relays Idle [])) (ob_created_at row1) Commit_fails (rs_db (two_relays Idle [])) =
      (Inl OperationalError, one_row, [command_of row1])"
    by (simp add: publish_batch_def two_relays_def locked_ids_def held_rows_def one_row_def select_one_row)
  from publish_batch_is_a_run [OF _ _ p, of 0] show ?thesis by (auto simp: two_relays_def)
qed

theorem relay_backoff_witness:
  "delay (run_cycles (1 / 2) 200 [(0, Inl RedisError, Inr 0, Inr ()), (1, Inl RedisError, Inr 0, Inr ())] (loop_start (1 / 2))) = 2"
  using relay_backoff [of "1 / 2" 200 "[]" "loop_start (1 / 2)" "[(0, RedisError), (1, RedisError)]"]
  by (simp add: loop_start_def)

theorem parked_relay_saw_everything_witness:
  "wake_step\<^sup>*\<^sup>* wake_start \<lparr>pc = Waiting, flag = False, owed = 0, unseen = False\<rparr> \<and>
   \<not> unseen \<lparr>pc = Waiting, flag = False, owed = 0, unseen = False\<rparr>"
proof -
  let ?s = "\<lambda>p. \<lparr>pc = p, flag = False, owed = 0, unseen = False\<rparr>"
  have "wake_step (?s At_start) (?s Before_select)" using wake_step.clears [of "?s At_start"] by simp
  moreover have "wake_step (?s Before_select) (?s After_select)" using wake_step.selects [of "?s Before_select"] by simp
  moreover have "wake_step (?s After_select) (?s Waiting)" using wake_step.parks [of "?s After_select"] by simp
  ultimately have "wake_step\<^sup>*\<^sup>* wake_start (?s Waiting)"
    unfolding wake_start_def by (meson converse_rtranclp_into_rtranclp r_into_rtranclp)
  with parked_relay_saw_everything [OF this] show ?thesis by simp
qed

end
