(* ===== verification/Auth.thy ===== *)
theory Auth
  imports Config Errors Schemas
begin

text \<open>
  \<^verbatim>\<open>app/auth.py\<close> and \<^verbatim>\<open>app/tokens.py\<close>: minting and verifying bearer tokens, the current user of a
  request and the token of a WebSocket. The JWT library is a parameter: \<open>jwt.encode\<close>, \<open>jwt.decode\<close>
  and the signing key of a token, with the checks its documentation lists as a named hypothesis.
\<close>

section \<open>The JWT library\<close>

text \<open>The key of a verification: the shared secret or a key of the identity provider.\<close>

datatype 'k jwt_key = Secret pystr | Jwk 'k

record jwt_options =
  opt_algorithms :: "pystr list"
  opt_audience :: "pystr option"
  opt_issuer :: "pystr option"
  opt_leeway :: int
  opt_require :: "pystr list"
  opt_verify_aud :: bool

text \<open>
  \<open>jl_encode claims secret algorithm\<close>; \<open>jl_decode now token key options\<close>, where \<open>now\<close> is the clock the
  library reads and \<open>Inl\<close> carries the text of a \<open>PyJWTError\<close>; \<open>jl_signing_key token\<close>.
\<close>

record 'k jwt_lib =
  jl_encode :: "(pystr \<times> json) list \<Rightarrow> pystr \<Rightarrow> pystr \<Rightarrow> pystr"
  jl_decode :: "int \<Rightarrow> pystr \<Rightarrow> 'k jwt_key \<Rightarrow> jwt_options \<Rightarrow> pystr + (pystr \<times> json) list"
  jl_signing_key :: "pystr \<Rightarrow> pystr + 'k"

section \<open>Verification\<close>

text \<open>
  \<open>USER_ID_PATTERN.match\<close>: the pattern of \<open>UserId\<close>, but in Python's \<open>re\<close> the final \<open>$\<close> also matches
  before a newline at the end of the text.
\<close>

definition user_id_match :: "pystr \<Rightarrow> bool" where
  "user_id_match s \<longleftrightarrow> user_id_ok s \<or> (s \<noteq> [] \<and> last s = 10 \<and> user_id_ok (butlast s))"

definition WS_SUBPROTOCOL :: pystr where
  "WS_SUBPROTOCOL = lit ''bearer''"

text \<open>Whether the verifier has a JWKS client, and the key and algorithms for a token.\<close>

definition has_jwk_client :: "settings \<Rightarrow> bool" where
  "has_jwk_client s \<longleftrightarrow> auth_mode_of s = Jwks \<and> jwks_url s \<noteq> None \<and> jwks_url s \<noteq> Some []"

definition key_and_algorithms :: "'k jwt_lib \<Rightarrow> settings \<Rightarrow> pystr \<Rightarrow> pystr + 'k jwt_key \<times> pystr list" where
  "key_and_algorithms lib s token =
     (if \<not> has_jwk_client s then Inr (Secret (jwt_secret s), [lit ''HS256''])
      else case jl_signing_key lib token of
        Inl e \<Rightarrow> Inl e
      | Inr k \<Rightarrow> Inr (Jwk k, jwt_algorithms s))"

definition decode_options :: "settings \<Rightarrow> pystr list \<Rightarrow> jwt_options" where
  "decode_options s algorithms =
     \<lparr>opt_algorithms = algorithms, opt_audience = jwt_audience s, opt_issuer = jwt_issuer s,
      opt_leeway = jwt_leeway_seconds s, opt_require = [lit ''exp''], opt_verify_aud = jwt_audience s \<noteq> None\<rparr>"

definition invalid_token :: "pystr \<Rightarrow> exn" where
  "invalid_token message = AppError 401 (lit ''invalid_token'') message"

definition verify :: "'k jwt_lib \<Rightarrow> int \<Rightarrow> settings \<Rightarrow> pystr \<Rightarrow> exn + pystr" where
  "verify lib now s token =
     (case key_and_algorithms lib s token of
        Inl e \<Rightarrow> Inl (invalid_token (lit ''Token rejected: '' @ e))
      | Inr (key, algorithms) \<Rightarrow>
          (case jl_decode lib now token key (decode_options s algorithms) of
             Inl e \<Rightarrow> Inl (invalid_token (lit ''Token rejected: '' @ e))
           | Inr claims \<Rightarrow>
               (case dict_get (jwt_user_claim s) claims of
                  Some (JStr user_id) \<Rightarrow>
                    if user_id_match user_id then Inr user_id
                    else Inl (invalid_token (lit ''Claim '' @ [39] @ jwt_user_claim s @ [39] @ lit '' is not a user id''))
                | _ \<Rightarrow> Inl (invalid_token (lit ''Claim '' @ [39] @ jwt_user_claim s @ [39] @ lit '' is not a user id'')))))"

text \<open>\<open>get_current_user\<close>: the bearer credentials of a request, where it has any.\<close>

definition get_current_user :: "'k jwt_lib \<Rightarrow> int \<Rightarrow> settings \<Rightarrow> pystr option \<Rightarrow> exn + pystr" where
  "get_current_user lib now s credentials =
     (case credentials of
        None \<Rightarrow> Inl (AppError 401 (lit ''unauthorized'') (lit ''Missing bearer token''))
      | Some token \<Rightarrow> verify lib now s token)"

text \<open>
  \<open>websocket_token\<close> of the \<open>Sec-WebSocket-Protocol\<close> header and the \<open>token\<close> query parameter: the token
  and the subprotocol to echo.
\<close>

definition websocket_token :: "pystr option \<Rightarrow> pystr option \<Rightarrow> pystr option \<times> pystr option" where
  "websocket_token header query =
     (let protocols = map py_strip (py_split 44 (case header of None \<Rightarrow> [] | Some h \<Rightarrow> h))
      in if 2 \<le> length protocols \<and> protocols ! 0 = WS_SUBPROTOCOL \<and> protocols ! 1 \<noteq> []
         then (Some (protocols ! 1), Some WS_SUBPROTOCOL)
         else (query, None))"

section \<open>Minting\<close>

definition given_text :: "pystr option \<Rightarrow> bool" where
  "given_text x \<longleftrightarrow> x \<noteq> None \<and> x \<noteq> Some []"

definition mint_claims ::
  "int \<Rightarrow> pystr \<Rightarrow> int \<Rightarrow> pystr \<Rightarrow> pystr option \<Rightarrow> pystr option \<Rightarrow> (pystr \<times> json) list"
where
  "mint_claims now user_id ttl user_claim issuer audience =
     (let claims = dict_of [(user_claim, JStr user_id), (lit ''iat'', JInt now), (lit ''exp'', JInt (now + ttl))];
          claims = (if given_text issuer then dict_set (lit ''iss'') (JStr (the issuer)) claims else claims)
      in if given_text audience then dict_set (lit ''aud'') (JStr (the audience)) claims else claims)"

definition mint_token ::
  "'k jwt_lib \<Rightarrow> int \<Rightarrow> pystr \<Rightarrow> pystr \<Rightarrow> int \<Rightarrow> pystr \<Rightarrow> pystr option \<Rightarrow> pystr option \<Rightarrow> pystr"
where
  "mint_token lib now user_id secret ttl user_claim issuer audience =
     jl_encode lib (mint_claims now user_id ttl user_claim issuer audience) secret (lit ''HS256'')"

text \<open>
  \<open>main\<close> of \<^verbatim>\<open>tools/mint_token.py\<close>: the lines it prints for the users and the lifetime of its command line,
  with the settings the environment gives; \<open>clock i\<close> is the time of the \<open>i\<close>-th token. \<open>Inl\<close>: the settings are
  refused.
\<close>

definition mint_main :: "'k jwt_lib \<Rightarrow> (nat \<Rightarrow> int) \<Rightarrow> settings \<Rightarrow> pystr list \<Rightarrow> int option \<Rightarrow> pystr + pystr list" where
  "mint_main lib clock env users ttl =
     (case check_auth (env\<lparr>auth_mode_of := Hs256\<rparr>) of
        Inl e \<Rightarrow> Inl e
      | Inr s \<Rightarrow>
          Inr (map (\<lambda>(i, user). user @ [9] @
                 mint_token lib (clock i) user (jwt_secret s) (case ttl of None \<Rightarrow> 12 * 3600 | Some t \<Rightarrow> t)
                   (jwt_user_claim s) (jwt_issuer s) (jwt_audience s))
               (enumerate 0 (if users = [] then [lit ''alice'', lit ''bob''] else users))))"

section \<open>What the library documents\<close>

text \<open>
  The checks of \<open>jwt.decode\<close> on the claims of a token with a good signature: required claims are
  present, the token has not expired, was not issued in the future and has no start time, the issuer
  and the audience are the expected ones, \<open>sub\<close> and \<open>jti\<close> are text.
\<close>

definition text_claim :: "(pystr \<times> json) list \<Rightarrow> pystr \<Rightarrow> bool" where
  "text_claim claims k \<longleftrightarrow> (case dict_get k claims of None \<Rightarrow> True | Some (JStr _) \<Rightarrow> True | _ \<Rightarrow> False)"

definition claims_accepted :: "int \<Rightarrow> jwt_options \<Rightarrow> (pystr \<times> json) list \<Rightarrow> bool" where
  "claims_accepted now opts claims \<longleftrightarrow>
     (\<forall>k \<in> set (opt_require opts). dict_get k claims \<noteq> None \<and> dict_get k claims \<noteq> Some JNull) \<and>
     (case dict_get (lit ''exp'') claims of Some (JInt e) \<Rightarrow> now - opt_leeway opts < e | None \<Rightarrow> True | _ \<Rightarrow> False) \<and>
     (case dict_get (lit ''iat'') claims of Some (JInt i) \<Rightarrow> i \<le> now + opt_leeway opts | None \<Rightarrow> True | _ \<Rightarrow> False) \<and>
     dict_get (lit ''nbf'') claims = None \<and>
     (case opt_issuer opts of None \<Rightarrow> True | Some i \<Rightarrow> dict_get (lit ''iss'') claims = Some (JStr i)) \<and>
     (opt_verify_aud opts \<longrightarrow>
        (case opt_audience opts of None \<Rightarrow> dict_get (lit ''aud'') claims = None
         | Some a \<Rightarrow> dict_get (lit ''aud'') claims = Some (JStr a))) \<and>
     text_claim claims (lit ''sub'') \<and> text_claim claims (lit ''jti'')"

text \<open>
  A token signed with the given secret decodes, under the same secret and with its algorithm among the
  expected ones, to the claims it was made from whenever they pass the checks. PyJWT documents this of a
  secret it takes as an HMAC key; a text in the format of a PEM or SSH key it refuses.
\<close>

definition jwt_lawful :: "'k jwt_lib \<Rightarrow> pystr \<Rightarrow> bool" where
  "jwt_lawful lib secret \<longleftrightarrow> (\<forall>claims now opts.
     wf_json (JObj claims) \<and> lit ''HS256'' \<in> set (opt_algorithms opts) \<and> claims_accepted now opts claims \<longrightarrow>
     jl_decode lib now (jl_encode lib claims secret (lit ''HS256'')) (Secret secret) opts = Inr claims)"

section \<open>Lemmas\<close>

declare dict_get_set [simp]

lemma dict_get_list [simp]: "dict_get k [] = None" "dict_get k ((k', v) # d) = (if k = k' then Some v else dict_get k d)"
  by (simp_all add: dict_get_def)

lemma dict_set_keys: "fst ` set (dict_set k v d) = insert k (fst ` set d)"
  by (induction k v d rule: dict_set.induct) (auto simp: insert_commute)

lemma dict_set_distinct: "distinct (map fst d) \<Longrightarrow> distinct (map fst (dict_set k v d))"
  by (induction d) (auto simp: dict_set_keys)

lemma dict_set_wf:
  assumes "wf_json (JObj d)" "scalars k" "wf_json v"
  shows "wf_json (JObj (dict_set k v d))"
proof -
  have "set (dict_set k v d) \<subseteq> insert (k, v) (set d)" by (induction d) (auto split: if_splits)
  then show ?thesis using assms dict_set_distinct [of d k v] by fastforce
qed

text \<open>The claims a token must not use for the user: the ones with a meaning of their own.\<close>

definition reserved_claims :: "pystr set" where
  "reserved_claims = {lit ''exp'', lit ''iat'', lit ''nbf'', lit ''iss'', lit ''aud''}"

lemma mint_claims_get:
  fixes now ttl u claim iss aud
  defines "c \<equiv> mint_claims now u ttl claim iss aud"
  assumes "claim \<notin> reserved_claims"
  shows "dict_get claim c = Some (JStr u)" "dict_get (lit ''iat'') c = Some (JInt now)"
    "dict_get (lit ''exp'') c = Some (JInt (now + ttl))" "dict_get (lit ''nbf'') c = None"
    "dict_get (lit ''iss'') c = (if given_text iss then Some (JStr (the iss)) else None)"
    "dict_get (lit ''aud'') c = (if given_text aud then Some (JStr (the aud)) else None)"
    "k \<in> {lit ''sub'', lit ''jti''} \<Longrightarrow> text_claim c k"
  using assms(2)
  by (auto simp: c_def mint_claims_def Let_def dict_of_def reserved_claims_def text_claim_def)

lemma mint_claims_wf:
  assumes "scalars u" "scalars claim" "\<forall>i. iss = Some i \<longrightarrow> scalars i" "\<forall>a. aud = Some a \<longrightarrow> scalars a"
  shows "wf_json (JObj (mint_claims now u ttl claim iss aud))"
proof -
  have l: "scalars (lit ''iat'')" "scalars (lit ''exp'')" "scalars (lit ''iss'')" "scalars (lit ''aud'')"
    by (simp_all add: scalars_def scalar_def lit_Cons)
  have n: "wf_json (JObj [])" by simp
  show ?thesis
    unfolding mint_claims_def Let_def dict_of_def
    by (auto simp del: wf_json.simps(4) dict_set.simps simp: given_text_def assms l intro!: dict_set_wf n)
qed

lemma user_id_ok_scalars: "user_id_ok u \<Longrightarrow> scalars u"
  by (auto simp: user_id_ok_def user_id_char_def scalars_def scalar_def)


lemma minted_verifies:
  assumes "jwt_lawful lib (jwt_secret s)" "\<not> has_jwk_client s" "user_id_ok u" "jwt_user_claim s \<notin> reserved_claims"
    "wf_json (JObj (mint_claims t0 u ttl (jwt_user_claim s) (jwt_issuer s) (jwt_audience s)))"
    "jwt_issuer s \<noteq> Some []" "jwt_audience s \<noteq> Some []"
    "t0 \<le> now + jwt_leeway_seconds s" "now < t0 + ttl + jwt_leeway_seconds s"
  shows "verify lib now s (mint_token lib t0 u (jwt_secret s) ttl (jwt_user_claim s) (jwt_issuer s) (jwt_audience s)) = Inr u"
proof -
  let ?c = "mint_claims t0 u ttl (jwt_user_claim s) (jwt_issuer s) (jwt_audience s)"
  note g = mint_claims_get [OF assms(4), where now = t0 and u = u and ttl = ttl and iss = "jwt_issuer s" and aud = "jwt_audience s"]
  have "claims_accepted now (decode_options s [lit ''HS256'']) ?c"
    using assms(6-9) g by (auto simp: claims_accepted_def decode_options_def given_text_def split: option.splits)
  with assms(1,5) have "jl_decode lib now (jl_encode lib ?c (jwt_secret s) (lit ''HS256'')) (Secret (jwt_secret s))
      (decode_options s [lit ''HS256'']) = Inr ?c"
    unfolding jwt_lawful_def by (simp add: decode_options_def)
  then show ?thesis using assms(2,3) g(1)
    by (simp add: verify_def key_and_algorithms_def mint_token_def user_id_match_def)
qed

lemma py_split_no_sep: "c \<notin> set s \<Longrightarrow> py_split c s = [s]"
  by (induction s) auto

lemma websocket_token_bearer:
  assumes "t \<noteq> []" "44 \<notin> set t" "py_strip t = t"
  shows "websocket_token (Some (lit ''bearer, '' @ t)) q = (Some t, Some WS_SUBPROTOCOL)"
proof -
  have sp: "py_split 44 (lit ''bearer, '' @ t) = [lit ''bearer'', 32 # t]"
    using py_split_no_sep [OF assms(2)] by (simp add: lit_Cons)
  have "dropWhile py_space (32 # t) = dropWhile py_space t" by (simp add: py_space_def)
  then have "py_strip (32 # t) = t" using assms(3) by (simp add: py_strip_def strip_where_def)
  moreover have "py_strip (lit ''bearer'') = lit ''bearer''"
    by (simp add: py_strip_def strip_where_def lit_Cons py_space_def)
  ultimately show ?thesis using assms(1) by (simp add: websocket_token_def sp WS_SUBPROTOCOL_def Let_def)
qed

section \<open>Properties\<close>

text \<open>
  C20. A minted token authenticates its user: from the moment it was made until it expires, a token
  minted with the configured claim, issuer and audience is accepted as a bearer header, as the query
  parameter and as the subprotocol of a WebSocket, and yields the user it was made for.
\<close>

theorem minted_token_authenticates:
  assumes "jwt_lawful lib (jwt_secret s)" "\<not> has_jwk_client s" "user_id_ok u" "jwt_user_claim s \<notin> reserved_claims"
    "scalars (jwt_user_claim s)" "\<forall>i. jwt_issuer s = Some i \<longrightarrow> i \<noteq> [] \<and> scalars i"
    "\<forall>a. jwt_audience s = Some a \<longrightarrow> a \<noteq> [] \<and> scalars a"
    "0 \<le> jwt_leeway_seconds s" "t0 \<le> now" "now < t0 + ttl"
    "t = mint_token lib t0 u (jwt_secret s) ttl (jwt_user_claim s) (jwt_issuer s) (jwt_audience s)"
  shows "get_current_user lib now s (Some t) = Inr u \<and> websocket_token None (Some t) = (Some t, None) \<and>
    (t \<noteq> [] \<and> 44 \<notin> set t \<and> py_strip t = t \<longrightarrow>
       websocket_token (Some (lit ''bearer, '' @ t)) None = (Some t, Some WS_SUBPROTOCOL))"
proof -
  have "wf_json (JObj (mint_claims t0 u ttl (jwt_user_claim s) (jwt_issuer s) (jwt_audience s)))"
    using assms(3,5,6,7) by (intro mint_claims_wf) (simp_all add: user_id_ok_scalars)
  then have "verify lib now s t = Inr u"
    unfolding assms(11) using assms(1-4,6-10) by (intro minted_verifies) auto
  then show ?thesis
    using websocket_token_bearer [of t None]
    by (simp add: get_current_user_def websocket_token_def WS_SUBPROTOCOL_def py_strip_nil lit_Cons)
qed

text \<open>
  Whom a token authenticates: a verified user is the text of the configured claim of a token the
  library accepted with exactly the configured checks, and is a user id, possibly followed by one
  newline; every rejection is a 401 \<open>invalid_token\<close>.
\<close>

theorem verified_user_is_claim:
  "case verify lib now s token of
     Inr u \<Rightarrow> (\<exists>key algorithms claims. key_and_algorithms lib s token = Inr (key, algorithms) \<and>
         jl_decode lib now token key (decode_options s algorithms) = Inr claims \<and>
         dict_get (jwt_user_claim s) claims = Some (JStr u) \<and> (\<exists>v. user_id_ok v \<and> (u = v \<or> u = v @ [10])))
   | Inl e \<Rightarrow> (\<exists>m. e = AppError 401 (lit ''invalid_token'') m)"
proof -
  have nl: "\<exists>v. user_id_ok v \<and> (u = v \<or> u = v @ [10])" if "user_id_match u" for u
    using that unfolding user_id_match_def by (metis append_butlast_last_id)
  show ?thesis
    unfolding verify_def invalid_token_def by (auto split: sum.splits option.splits json.splits simp: nl)
qed

text \<open>
  Every line the tool prints is a user id, a tab and a token that authenticates that user until it
  expires, on a server with the same settings.
\<close>

theorem printed_tokens_authenticate:
  assumes "jwt_lawful lib (jwt_secret s)" "mint_main lib clock env users ttl = Inr lines" "i < length users" "user_id_ok (users ! i)"
    and s: "s = env\<lparr>auth_mode_of := Hs256\<rparr>" "jwt_user_claim s \<notin> reserved_claims" "scalars (jwt_user_claim s)"
      "\<forall>x. jwt_issuer s = Some x \<longrightarrow> x \<noteq> [] \<and> scalars x" "\<forall>a. jwt_audience s = Some a \<longrightarrow> a \<noteq> [] \<and> scalars a"
      "0 \<le> jwt_leeway_seconds s" "clock i \<le> now" "now < clock i + (case ttl of None \<Rightarrow> 12 * 3600 | Some t \<Rightarrow> t)"
  shows "32 \<le> length (jwt_secret s) \<and> length lines = length users \<and>
    (\<exists>token. lines ! i = users ! i @ [9] @ token \<and> verify lib now s token = Inr (users ! i))"
proof -
  let ?ttl = "case ttl of None \<Rightarrow> 12 * 3600 | Some t \<Rightarrow> t"
  let ?token = "mint_token lib (clock i) (users ! i) (jwt_secret s) ?ttl (jwt_user_claim s) (jwt_issuer s) (jwt_audience s)"
  have l: "lines = map (\<lambda>(i, user). user @ [9] @ mint_token lib (clock i) user (jwt_secret s) ?ttl
      (jwt_user_claim s) (jwt_issuer s) (jwt_audience s)) (enumerate 0 users)" "32 \<le> length (jwt_secret s)"
    using assms(2,3) s(1) by (auto simp: mint_main_def check_auth_def split: if_splits)
  have "wf_json (JObj (mint_claims (clock i) (users ! i) ?ttl (jwt_user_claim s) (jwt_issuer s) (jwt_audience s)))"
    using assms(4) s by (intro mint_claims_wf) (simp_all add: user_id_ok_scalars)
  then have "verify lib now s ?token = Inr (users ! i)"
    using assms(1,4) s by (intro minted_verifies) (auto simp: has_jwk_client_def)
  moreover have "lines ! i = users ! i @ [9] @ ?token" using assms(3) by (simp add: l(1) nth_enumerate_eq)
  ultimately show ?thesis using l by simp
qed

text \<open>
  A user id with a newline at its end passes the verification (\<open>$\<close> of \<open>re.match\<close> matches before
  it), and no request can name that user as recipient: schemas reject the id.
\<close>

theorem newline_user_authenticates:
  assumes "key_and_algorithms lib s token = Inr (key, algorithms)"
    "jl_decode lib now token key (decode_options s algorithms) = Inr claims"
    "dict_get (jwt_user_claim s) claims = Some (JStr (u @ [10]))" "user_id_ok u"
  shows "verify lib now s token = Inr (u @ [10]) \<and>
    (req_recipient_id r = u @ [10] \<longrightarrow> validate_send r = None)"
  using assms by (auto simp: verify_def user_id_match_def validate_send_def user_id_ok_def user_id_char_def)

section \<open>Witnesses\<close>

text \<open>A library that satisfies the documentation: the token is the secret and the claims as text.\<close>

definition plain_jwt :: "unit jwt_lib" where
  "plain_jwt = \<lparr>jl_encode = (\<lambda>claims secret alg. secret @ dumps True (JObj claims)),
     jl_decode = (\<lambda>now token key opts.
       case key of
         Secret secret \<Rightarrow>
           (if prefix secret token then
              (case loads (drop (length secret) token) of
                 Some (JObj claims) \<Rightarrow> if claims_accepted now opts claims then Inr claims else Inl (lit ''rejected'')
               | _ \<Rightarrow> Inl (lit ''malformed''))
            else Inl (lit ''signature''))
       | Jwk _ \<Rightarrow> Inl (lit ''key'')),
     jl_signing_key = (\<lambda>token. Inr ())\<rparr>"

lemma plain_jwt_lawful: "jwt_lawful plain_jwt secret"
  unfolding jwt_lawful_def plain_jwt_def by (auto simp: loads_dumps simp del: wf_json.simps dumps.simps)

lemma default_auth [simp]:
  "\<not> has_jwk_client (default_settings h)" "jwt_user_claim (default_settings h) = lit ''sub''"
  "jwt_issuer (default_settings h) = None" "jwt_audience (default_settings h) = None"
  "jwt_leeway_seconds (default_settings h) = 30" "jwt_secret (default_settings h) = []"
  by (simp_all add: has_jwk_client_def default_settings_def)

lemma sub_claim: "lit ''sub'' \<notin> reserved_claims" "scalars (lit ''sub'')"
  by (simp_all add: reserved_claims_def scalars_def scalar_def lit_Cons)

theorem minted_token_authenticates_witness:
  "get_current_user plain_jwt 1000 (default_settings [])
     (Some (mint_token plain_jwt 900 (lit ''bob'') [] 3600 (lit ''sub'') None None)) = Inr (lit ''bob'')"
proof -
  have b: "user_id_ok (lit ''bob'')" by (simp add: user_id_ok_def user_id_char_def lit_Cons)
  from minted_token_authenticates [OF plain_jwt_lawful, of "default_settings []" "lit ''bob''" 900 1000 3600] b sub_claim
  show ?thesis by simp
qed

theorem newline_user_authenticates_witness:
  "verify plain_jwt 1000 (default_settings [])
     (jl_encode plain_jwt [(lit ''sub'', JStr (lit ''bob'' @ [10])), (lit ''exp'', JInt 2000)] [] (lit ''HS256'')) =
   Inr (lit ''bob'' @ [10])"
proof -
  let ?c = "[(lit ''sub'', JStr (lit ''bob'' @ [10])), (lit ''exp'', JInt 2000)]"
  let ?t = "jl_encode plain_jwt ?c [] (lit ''HS256'')"
  have k: "key_and_algorithms plain_jwt (default_settings []) ?t = Inr (Secret [], [lit ''HS256''])"
    by (simp add: key_and_algorithms_def)
  have w: "wf_json (JObj ?c)" by (simp add: scalars_def scalar_def lit_Cons)
  have a: "claims_accepted 1000 (decode_options (default_settings []) [lit ''HS256'']) ?c"
    by (simp add: claims_accepted_def decode_options_def dict_get_def text_claim_def)
  have d: "jl_decode plain_jwt 1000 ?t (Secret []) (decode_options (default_settings []) [lit ''HS256'']) = Inr ?c"
    using plain_jwt_lawful w a unfolding jwt_lawful_def by (simp add: decode_options_def del: wf_json.simps)
  have b: "user_id_ok (lit ''bob'')" by (simp add: user_id_ok_def user_id_char_def lit_Cons)
  from newline_user_authenticates [OF k d _ b] show ?thesis by (simp add: dict_get_def)
qed

end
