(* ===== verification/Api.thy ===== *)
theory Api
  imports Chat Auth
begin

text \<open>
  \<^verbatim>\<open>app/api/v1.py\<close> and \<^verbatim>\<open>app/api/deps.py\<close>: the REST endpoints over the chat service, one request in
  a database session of its own, with their status codes, and the presigning of uploads.
\<close>

section \<open>Statuses and query parameters\<close>

text \<open>The keys of \<open>_ERRORS\<close>: the error statuses every endpoint declares.\<close>

definition ERRORS :: "int list" where
  "ERRORS = [400, 401, 404, 409, 413, 415, 422, 503]"

text \<open>
  \<open>Annotated[int, Query(ge=1, le=hi)] = 50\<close> and \<open>Query(max_length=200)\<close>: the value and the validation
  errors, \<open>msg name\<close> being the text pydantic gives for the parameter \<open>name\<close>. The errors of all
  parameters of a request are raised together.
\<close>

definition limit_value :: "int option \<Rightarrow> int" where
  "limit_value limit = (case limit of None \<Rightarrow> 50 | Some n \<Rightarrow> n)"

definition query_limit :: "(pystr \<Rightarrow> pystr) \<Rightarrow> int \<Rightarrow> int option \<Rightarrow> verr list" where
  "query_limit msg hi limit =
     (if 1 \<le> limit_value limit \<and> limit_value limit \<le> hi then []
      else [\<lparr>verr_loc = [lit ''query'', lit ''limit''], verr_msg = msg (lit ''limit'')\<rparr>])"

definition query_cursor :: "(pystr \<Rightarrow> pystr) \<Rightarrow> pystr \<Rightarrow> pystr option \<Rightarrow> verr list" where
  "query_cursor msg name v =
     (if opt_all (\<lambda>c. length c \<le> 200) v then [] else [\<lparr>verr_loc = [lit ''query'', name], verr_msg = msg name\<rparr>])"

section \<open>Endpoints\<close>

text \<open>What an endpoint returns: its status and the response model.\<close>

datatype reply =
  MessageReply message_out
| ConversationsReply "conversation_out list"
| PageReply message_page
| ReadReply read_result
| PresignReply presign_response

definition api_send_message ::
  "world \<Rightarrow> settings \<Rightarrow> pystr \<Rightarrow> send_request \<Rightarrow> sess \<Rightarrow> (exn + int \<times> reply) \<times> sess"
where
  "api_send_message w S user r s =
     (case send_message w S user r s of
        (Inl e, s') \<Rightarrow> (Inl e, s')
      | (Inr (m, created), s') \<Rightarrow> (Inr (if created then 201 else 200, MessageReply m), s'))"

definition api_mark_delivered ::
  "world \<Rightarrow> settings \<Rightarrow> pystr \<Rightarrow> uuid \<Rightarrow> sess \<Rightarrow> (exn + int \<times> reply) \<times> sess"
where
  "api_mark_delivered w S user mid s =
     (case mark_delivered w S user mid s of
        (Inl e, s') \<Rightarrow> (Inl e, s') | (Inr m, s') \<Rightarrow> (Inr (200, MessageReply m), s'))"

definition api_list_conversations ::
  "world \<Rightarrow> settings \<Rightarrow> (pystr \<Rightarrow> pystr) \<Rightarrow> pystr \<Rightarrow> int option \<Rightarrow> sess \<Rightarrow> exn + int \<times> reply"
where
  "api_list_conversations w S msg user limit s =
     (let errs = query_limit msg 100 limit
      in if errs \<noteq> [] then Inl (RequestValidationError errs)
         else Inr (200, ConversationsReply (list_conversations w S user (nat (limit_value limit)) (work s))))"

definition api_list_messages ::
  "world \<Rightarrow> settings \<Rightarrow> (pystr \<Rightarrow> pystr) \<Rightarrow> pystr \<Rightarrow> uuid \<Rightarrow> int option \<Rightarrow> pystr option \<Rightarrow> pystr option \<Rightarrow> sess \<Rightarrow>
     exn + int \<times> reply"
where
  "api_list_messages w S msg user cid limit before after s =
     (let errs = query_limit msg 200 limit @ query_cursor msg (lit ''before'') before @ query_cursor msg (lit ''after'') after
      in if errs \<noteq> [] then Inl (RequestValidationError errs)
         else map_sum id (\<lambda>p. (200, PageReply p)) (list_messages w S user cid (nat (limit_value limit)) before after s))"

definition api_mark_read ::
  "world \<Rightarrow> pystr \<Rightarrow> uuid \<Rightarrow> uuid \<Rightarrow> sess \<Rightarrow> (exn + int \<times> reply) \<times> sess"
where
  "api_mark_read w user cid up_to s =
     (case mark_read w user cid up_to s of
        (Inl e, s') \<Rightarrow> (Inl e, s') | (Inr r, s') \<Rightarrow> (Inr (200, ReadReply r), s'))"

subsection \<open>Presigned uploads\<close>

definition EXTENSIONS :: "(pystr \<times> pystr) list" where
  "EXTENSIONS = [(lit ''image/jpeg'', lit ''.jpg''), (lit ''image/png'', lit ''.png''), (lit ''image/gif'', lit ''.gif''),
     (lit ''image/webp'', lit ''.webp''), (lit ''application/pdf'', lit ''.pdf'')]"

definition content_type_of :: "pystr \<Rightarrow> pystr" where
  "content_type_of raw = py_lower (py_strip (hd (py_split1 59 raw)))"

definition attachment_key_for :: "pystr \<Rightarrow> uuid \<Rightarrow> pystr \<Rightarrow> pystr" where
  "attachment_key_for user i content_type =
     lit ''u/'' @ user @ lit ''/'' @ uuid_str i @
       (case map_of EXTENSIONS content_type of None \<Rightarrow> [] | Some e \<Rightarrow> e)"

text \<open>
  \<open>sign_post\<close> is what \<open>generate_presigned_post\<close> returns for a policy: the URL and the form fields;
  \<open>i\<close> is the fresh UUIDv7.
\<close>

definition presign_attachment ::
  "settings \<Rightarrow> (post_policy \<Rightarrow> pystr \<times> (pystr \<times> pystr) list) \<Rightarrow> uuid \<Rightarrow> pystr \<Rightarrow> presign_request \<Rightarrow>
     exn + presign_response"
where
  "presign_attachment S sign_post i user req =
     (let content_type = content_type_of (pre_content_type req)
      in if content_type \<notin> set (attachment_allowed_mime S)
         then Inl (AppError 415 (lit ''unsupported_media_type'')
                (lit ''Allowed types: '' @ py_join (lit '', '') (attachment_allowed_mime S)))
         else if attachment_max_bytes S < pre_size req
         then Inl (AppError 413 (lit ''payload_too_large'')
                (lit ''Limit is '' @ int_str (attachment_max_bytes S) @ lit '' bytes''))
         else
           let key = attachment_key_for user i content_type;
               post = sign_post (presign_upload S key content_type)
           in Inr \<lparr>ps_url = fst post, ps_fields = snd post, ps_key = key,
                   ps_expires_in = presign_expiry_seconds S, ps_max_bytes = attachment_max_bytes S\<rparr>)"

text \<open>\<open>demo_token\<close>: a token of the shared secret for one of the two demo users.\<close>

definition demo_token :: "'k jwt_lib \<Rightarrow> int \<Rightarrow> settings \<Rightarrow> pystr \<Rightarrow> token_out option" where
  "demo_token lib now S user =
     (if user \<notin> {lit ''alice'', lit ''bob''} then None
      else
        let ttl = 12 * 3600
        in Some \<lparr>tok_access_token = mint_token lib now user (jwt_secret S) ttl (jwt_user_claim S) (jwt_issuer S) (jwt_audience S),
                 tok_token_type = lit ''bearer'', tok_user_id = user, tok_expires_in = ttl\<rparr>)"

section \<open>Calls\<close>

text \<open>
  The authenticated calls as data, one constructor per endpoint of the router, each served in a session
  on the committed tables: the answer, the tables and how often the relay was woken (\<open>on_commit\<close> of
  \<open>build_service\<close>). The id of an upload is a UUIDv7 of the world's clock and random bits.
\<close>

datatype call =
  Post_message send_request
| Post_delivered uuid
| Get_conversations "int option"
| Get_messages uuid "int option" "pystr option" "pystr option"
| Post_read uuid uuid
| Post_presign presign_request

definition run_call ::
  "world \<Rightarrow> settings \<Rightarrow> (pystr \<Rightarrow> pystr) \<Rightarrow> pystr \<Rightarrow> call \<Rightarrow> db \<Rightarrow> (exn + int \<times> reply) \<times> db \<times> nat"
where
  "run_call w S msg user c d =
     (let s = begin_session d;
          (res, s') = (case c of
             Post_message r \<Rightarrow> api_send_message w S user r s
           | Post_delivered mid \<Rightarrow> api_mark_delivered w S user mid s
           | Get_conversations limit \<Rightarrow> (api_list_conversations w S msg user limit s, s)
           | Get_messages cid limit before after \<Rightarrow> (api_list_messages w S msg user cid limit before after s, s)
           | Post_read cid up_to \<Rightarrow> api_mark_read w user cid up_to s
           | Post_presign req \<Rightarrow>
               (map_sum id (\<lambda>p. (200, PresignReply p))
                  (presign_attachment S (w_sign_post w) (uuid7 (w_msg_ms w) (w_msg_rand w)) user req), s))
      in (res, committed s', notified s'))"

text \<open>\<open>POST /v1/messages\<close> with the authentication and validation FastAPI runs first.\<close>

definition post_messages ::
  "'k jwt_lib \<Rightarrow> int \<Rightarrow> world \<Rightarrow> settings \<Rightarrow> pystr option \<Rightarrow> verr list \<Rightarrow> send_request \<Rightarrow> db \<Rightarrow>
     (exn + int \<times> reply) \<times> db \<times> nat"
where
  "post_messages lib now w S credentials errs raw d =
     (case get_current_user lib now S credentials of
        Inl e \<Rightarrow> (Inl e, d, 0)
      | Inr user \<Rightarrow>
          (case validate_send raw of
             None \<Rightarrow> (Inl (RequestValidationError errs), d, 0)
           | Some r \<Rightarrow> run_call w S (\<lambda>_. []) user (Post_message r) d))"

end
