(* ===== verification/Http.thy ===== *)
theory Http
  imports Errors Config
begin

text \<open>
  Around the endpoints: the request-context middleware (\<^verbatim>\<open>app/middleware.py\<close>), the liveness and
  readiness checks (\<^verbatim>\<open>app/api/ops.py\<close>), the structured log line (\<^verbatim>\<open>app/logging.py\<close>) and what
  \<^verbatim>\<open>app/main.py\<close> puts together.
\<close>

section \<open>Request ids\<close>

definition request_id_char :: "codepoint \<Rightarrow> bool" where
  "request_id_char c \<longleftrightarrow> (65 \<le> c \<and> c \<le> 90) \<or> (97 \<le> c \<and> c \<le> 122) \<or> (48 \<le> c \<and> c \<le> 57) \<or> c \<in> {46, 95, 45}"

definition request_id_ok :: "pystr \<Rightarrow> bool" where
  "request_id_ok s \<longleftrightarrow> 1 \<le> length s \<and> length s \<le> 128 \<and> (\<forall>c \<in> set s. request_id_char c)"

text \<open>\<open>_VALID_REQUEST_ID.match\<close>; the final \<open>$\<close> also matches before a newline at the end.\<close>

definition valid_request_id :: "pystr \<Rightarrow> bool" where
  "valid_request_id s \<longleftrightarrow> request_id_ok s \<or> (s \<noteq> [] \<and> last s = 10 \<and> request_id_ok (butlast s))"

text \<open>The id of a request: the \<open>x-request-id\<close> header where it is well-formed, else a fresh one.\<close>

definition request_id_of :: "pystr option \<Rightarrow> pystr \<Rightarrow> pystr" where
  "request_id_of header fresh =
     (let incoming = (case header of None \<Rightarrow> [] | Some h \<Rightarrow> h)
      in if valid_request_id incoming then incoming else fresh)"

section \<open>The middleware\<close>

datatype asgi_message = Response_start int "(pystr \<times> pystr) list" | Response_body json

text \<open>\<open>MutableHeaders.__setitem__\<close>: the first header of that name is replaced, further ones go.\<close>

definition set_header :: "pystr \<Rightarrow> pystr \<Rightarrow> (pystr \<times> pystr) list \<Rightarrow> (pystr \<times> pystr) list" where
  "set_header k v hs =
     (if k \<in> fst ` set hs
      then takeWhile (\<lambda>h. fst h \<noteq> k) hs @ (k, v) # filter (\<lambda>h. fst h \<noteq> k) (dropWhile (\<lambda>h. fst h \<noteq> k) hs)
      else hs @ [(k, v)])"

text \<open>The variables of \<open>_http\<close> and what was sent to the client.\<close>

record http_state =
  hs_status :: int
  hs_started :: bool
  hs_sent :: "asgi_message list"

definition REQUEST_ID_HEADER :: pystr where
  "REQUEST_ID_HEADER = lit ''x-request-id''"

definition send_wrapper :: "pystr \<Rightarrow> asgi_message \<Rightarrow> http_state \<Rightarrow> http_state" where
  "send_wrapper rid m h =
     (case m of
        Response_start st hs \<Rightarrow>
          h\<lparr>hs_status := st, hs_started := True, hs_sent := hs_sent h @ [Response_start st (set_header REQUEST_ID_HEADER rid hs)]\<rparr>
      | Response_body b \<Rightarrow> h\<lparr>hs_sent := hs_sent h @ [m]\<rparr>)"

definition QUIET_PATHS :: "pystr list" where
  "QUIET_PATHS = [lit ''/healthz'', lit ''/readyz'', lit ''/metrics'']"

text \<open>A \<open>JSONResponse\<close> as messages; \<open>headers\<close> gives its content headers.\<close>

definition json_response :: "(json \<Rightarrow> (pystr \<times> pystr) list) \<Rightarrow> response \<Rightarrow> asgi_message list" where
  "json_response headers r = [Response_start (fst r) (headers (snd r)), Response_body (snd r)]"

text \<open>
  \<open>_http\<close> around an application that sends the messages \<open>out\<close> and then returns or raises: the state
  at the end, the exception raised on, and the labels of the request counter.
\<close>

definition run_http ::
  "(json \<Rightarrow> (pystr \<times> pystr) list) \<Rightarrow> pystr \<Rightarrow> pystr \<Rightarrow> pystr option \<Rightarrow> asgi_message list \<times> exn option \<Rightarrow>
     http_state \<times> exn option \<times> (pystr \<times> pystr \<times> int)"
where
  "run_http headers rid http_method route app =
     (let h0 = \<lparr>hs_status = 500, hs_started = False, hs_sent = []\<rparr>;
          h1 = fold (send_wrapper rid) (fst app) h0;
          (h2, raised) = (case snd app of
             None \<Rightarrow> (h1, None)
           | Some e \<Rightarrow>
               if hs_started h1 then (h1, Some e)
               else (fold (send_wrapper rid)
                       (json_response headers (error_response (Some rid) 500 (lit ''internal_error'') (lit ''Internal server error'')))
                       h1, None))
      in (h2, raised, (http_method, (case route of None \<Rightarrow> lit ''unmatched'' | Some p \<Rightarrow> p), hs_status h2)))"

definition log_is_debug :: "pystr \<Rightarrow> bool" where
  "log_is_debug path \<longleftrightarrow> path \<in> set QUIET_PATHS"

text \<open>An endpoint under the handlers of \<open>install_error_handlers\<close>.\<close>

definition endpoint_app ::
  "(json \<Rightarrow> (pystr \<times> pystr) list) \<Rightarrow> pystr \<Rightarrow> exn + response \<Rightarrow> asgi_message list \<times> exn option"
where
  "endpoint_app headers rid res =
     (case res of
        Inr r \<Rightarrow> (json_response headers r, None)
      | Inl e \<Rightarrow> (case handle_exn (Some rid) e of
                   Some r \<Rightarrow> (json_response headers r, None)
                 | None \<Rightarrow> ([], Some e)))"

section \<open>Health\<close>

definition healthz :: response where
  "healthz = (200, JObj [(lit ''status'', JStr (lit ''ok''))])"

text \<open>A probe ends well, or with an exception of the named class (\<open>TimeoutError\<close> after two seconds).\<close>

definition check_text :: "pystr option \<Rightarrow> pystr" where
  "check_text failure = (case failure of None \<Rightarrow> lit ''ok'' | Some t \<Rightarrow> lit ''error: '' @ t)"

text \<open>\<open>readyz\<close>, with the probes in the order they finished.\<close>

definition readyz :: "settings \<Rightarrow> (pystr \<times> pystr option) list \<Rightarrow> response" where
  "readyz S finished =
     (let checks = map (\<lambda>(name, failure). (name, JStr (check_text failure))) finished;
          ready = (\<forall>(name, v) \<in> set checks. v = JStr (lit ''ok''))
      in (if ready then 200 else 503,
          JObj [(lit ''status'', JStr (if ready then lit ''ok'' else lit ''unavailable'')),
                (lit ''replica'', JStr (replica_id S)), (lit ''checks'', JObj checks)]))"

section \<open>Logging\<close>

text \<open>The attributes of a standard log record, which the formatter does not copy.\<close>

definition RESERVED :: "pystr list" where
  "RESERVED = map lit [''name'', ''msg'', ''args'', ''levelname'', ''levelno'', ''pathname'', ''filename'', ''module'',
     ''exc_info'', ''exc_text'', ''stack_info'', ''lineno'', ''funcName'', ''created'', ''msecs'', ''relativeCreated'',
     ''thread'', ''threadName'', ''processName'', ''process'', ''taskName'', ''message'', ''asctime'']"

text \<open>A record: its time and level as text, the logger, the message, all attributes, the traceback.\<close>

record log_record =
  lr_ts :: pystr
  lr_level :: pystr
  lr_logger :: pystr
  lr_message :: pystr
  lr_attrs :: "(pystr \<times> json) list"
  lr_exc :: "pystr option"

definition log_payload :: "pystr option \<Rightarrow> log_record \<Rightarrow> (pystr \<times> json) list" where
  "log_payload request_id r =
     (let p = [(lit ''ts'', JStr (lr_ts r)), (lit ''level'', JStr (py_lower (lr_level r))),
               (lit ''logger'', JStr (lr_logger r)), (lit ''msg'', JStr (lr_message r))];
          p = (case request_id of Some i \<Rightarrow> if i \<noteq> [] then dict_set (lit ''request_id'') (JStr i) p else p | None \<Rightarrow> p);
          p = foldl (\<lambda>p (k, v). dict_set k v p) p
                (filter (\<lambda>(k, v). k \<notin> set RESERVED \<and> \<not> prefix [95] k) (lr_attrs r))
      in case lr_exc r of None \<Rightarrow> p | Some t \<Rightarrow> dict_set (lit ''exc'') (JStr t) p)"

definition log_format :: "pystr option \<Rightarrow> log_record \<Rightarrow> pystr" where
  "log_format request_id r = dumps False (JObj (log_payload request_id r))"

section \<open>The application\<close>

text \<open>The routers and mounts of \<open>create_app\<close>.\<close>

datatype part = Ops_router | V1_router | Ws_router | Demo_router | Demo_files | Demo_redirect

definition create_app :: "settings \<Rightarrow> bool \<Rightarrow> part list" where
  "create_app S demo_dir_exists =
     [Ops_router, V1_router, Ws_router] @
     (if demo_enabled S \<and> auth_mode_of S = Hs256
      then Demo_router # (if demo_dir_exists then [Demo_files, Demo_redirect] else []) else [])"

section \<open>Lemmas\<close>

lemma set_header_one: "filter (\<lambda>h. fst h = k) (set_header k v hs) = [(k, v)]"
proof -
  have t: "filter (\<lambda>h. fst h = k) (takeWhile (\<lambda>h. fst h \<noteq> k) xs) = []" for xs :: "('a \<times> 'b) list" and k
    by (induction xs) auto
  have f: "filter (\<lambda>h. fst h = k) xs = [] \<longleftrightarrow> k \<notin> fst ` set xs" for xs :: "('a \<times> 'b) list" and k
    by (auto simp: filter_empty_conv)
  show ?thesis by (simp add: set_header_def t f)
qed

definition carries :: "pystr \<Rightarrow> asgi_message \<Rightarrow> bool" where
  "carries rid m \<longleftrightarrow> (case m of Response_start st hs \<Rightarrow> filter (\<lambda>h. fst h = REQUEST_ID_HEADER) hs = [(REQUEST_ID_HEADER, rid)]
     | Response_body b \<Rightarrow> True)"

lemma send_wrapper_carries: "\<forall>m \<in> set (hs_sent h). carries rid m \<Longrightarrow> \<forall>m \<in> set (hs_sent (send_wrapper rid m h)). carries rid m"
  by (auto simp: send_wrapper_def carries_def set_header_one split: asgi_message.splits)

lemma fold_send_carries:
  "\<forall>m \<in> set (hs_sent h). carries rid m \<Longrightarrow> \<forall>m \<in> set (hs_sent (fold (send_wrapper rid) ms h)). carries rid m"
proof (induction ms arbitrary: h)
  case (Cons m ms)
  from Cons.IH [OF send_wrapper_carries [OF Cons.prems]] show ?case by simp
qed simp

lemma run_http_json_response:
  "run_http headers rid m route (json_response headers r, None) =
     (\<lparr>hs_status = fst r, hs_started = True,
       hs_sent = [Response_start (fst r) (set_header REQUEST_ID_HEADER rid (headers (snd r))), Response_body (snd r)]\<rparr>,
      None, (m, (case route of None \<Rightarrow> lit ''unmatched'' | Some p \<Rightarrow> p), fst r))"
  by (simp add: run_http_def json_response_def send_wrapper_def Let_def)

lemma run_http_raises:
  "run_http headers rid m route ([], Some e) =
     (let r = error_response (Some rid) 500 (lit ''internal_error'') (lit ''Internal server error'')
      in run_http headers rid m route (json_response headers r, None))"
  by (simp add: run_http_def json_response_def send_wrapper_def Let_def)

lemma hex4_printable: "10 \<notin> set (hex4 n)"
proof -
  have "hex_char d \<noteq> 10" for d by (simp add: hex_char_def)
  then show ?thesis unfolding hex4_def set_map by (metis imageE)
qed

lemma u_escape_printable: "10 \<notin> set (u_escape n)"
  using hex4_printable by (simp add: u_escape_def)

lemma esc_char_printable: "10 \<notin> set (esc_char a c)"
  by (simp add: esc_char_def u_escape_printable)

lemma py_join_mem: "x \<in> set (py_join sep ps) \<Longrightarrow> x \<in> set sep \<or> (\<exists>p \<in> set ps. x \<in> set p)"
  by (induction sep ps rule: py_join.induct) auto

lemma set_takeWhile_digits: "x \<in> set (takeWhile is_digit s) \<Longrightarrow> 48 \<le> x"
  by (auto simp: is_digit_def dest: set_takeWhileD)

lemma number_parts:
  "10 \<notin> set (fst (int_part s))" "10 \<notin> set (fst (frac_part s))" "10 \<notin> set (fst (exp_part s))"
proof -
  show "10 \<notin> set (fst (int_part s))" using set_takeWhile_digits [of 10] by (auto simp: int_part_def)
  show "10 \<notin> set (fst (frac_part s))" using set_takeWhile_digits [of 10] by (auto simp: frac_part_def)
  show "10 \<notin> set (fst (exp_part s))"
    using set_takeWhile_digits [of 10] by (auto simp: exp_part_def Let_def split: if_splits)
qed

lemma float_printable:
  assumes "parse_num t = Some (JFloat t, [])"
  shows "10 \<notin> set t"
proof -
  let ?s = "if t \<noteq> [] \<and> hd t = 45 then tl t else t"
  have eq: "(if t \<noteq> [] \<and> hd t = 45 then [45] else []) @ fst (int_part ?s) @ fst (frac_part (snd (int_part ?s))) @
      fst (exp_part (snd (frac_part (snd (int_part ?s))))) = t" (is "?r = t")
    using assms by (auto simp: parse_num_def Let_def split_def split: if_splits)
  have "10 \<notin> set ?r" by (simp add: number_parts)
  then show ?thesis by (simp only: eq) simp
qed

lemma dumps_str_printable: "10 \<notin> set (dumps_str a s)"
  using esc_char_printable by (auto simp: dumps_str_def)

lemma int_str_printable: "10 \<notin> set (int_str i)"
  using nat_str_digit [of 10] by (auto simp: int_str_def)

lemma dumps_printable: "wf_json j \<Longrightarrow> 10 \<notin> set (dumps a j)"
proof (induction j)
  case (JArr xs)
  then show ?case by (auto dest!: py_join_mem)
next
  case (JObj ps)
  then show ?case by (fastforce simp: dumps_str_printable dest!: py_join_mem)
qed (auto simp: lit_Cons int_str_printable float_printable dumps_str_printable simp del: int_str_def)

lemma log_extras_get:
  "k \<notin> fst ` set attrs \<Longrightarrow> map_of (foldl (\<lambda>p (k, v). dict_set k v p) p attrs) k = map_of p k"
proof (induction attrs arbitrary: p)
  case (Cons a attrs)
  have "map_of (dict_set k' v p) k = map_of p k" if "k' \<noteq> k" for k' v
    using that by (induction p) auto
  with Cons show ?case by (cases a) auto
qed simp

section \<open>Properties\<close>

text \<open>
  C33. Every call of an endpoint is answered exactly once: whatever it returns or raises, the client gets
  one response, with one \<open>x-request-id\<close> header holding the request's id; an error has the uniform body
  with that id, an exception no handler covers is a 500, nothing is raised on, and the counter has the
  status that was sent.
\<close>

theorem every_call_is_answered_once:
  "\<exists>hs r. run_http headers rid meth route (endpoint_app headers rid res) =
      (\<lparr>hs_status = fst r, hs_started = True, hs_sent = [Response_start (fst r) hs, Response_body (snd r)]\<rparr>, None,
       (meth, (case route of None \<Rightarrow> lit ''unmatched'' | Some p \<Rightarrow> p), fst r)) \<and>
     filter (\<lambda>h. fst h = REQUEST_ID_HEADER) hs = [(REQUEST_ID_HEADER, rid)] \<and>
     (case res of Inr r' \<Rightarrow> r = r'
      | Inl e \<Rightarrow> (\<exists>c m. snd r = error_body (Some rid) c m) \<and>
          fst r = (case handle_exn (Some rid) e of None \<Rightarrow> 500 | Some r' \<Rightarrow> fst r'))"
proof -
  let ?r = "case res of Inr r \<Rightarrow> r
    | Inl e \<Rightarrow> (case handle_exn (Some rid) e of Some r \<Rightarrow> r
        | None \<Rightarrow> error_response (Some rid) 500 (lit ''internal_error'') (lit ''Internal server error''))"
  have run: "run_http headers rid meth route (endpoint_app headers rid res) =
      run_http headers rid meth route (json_response headers ?r, None)"
    by (auto simp: endpoint_app_def run_http_raises Let_def split: sum.splits option.splits)
  have err: "case res of Inr r' \<Rightarrow> ?r = r'
      | Inl e \<Rightarrow> (\<exists>c m. snd ?r = error_body (Some rid) c m) \<and>
          fst ?r = (case handle_exn (Some rid) e of None \<Rightarrow> 500 | Some r' \<Rightarrow> fst r')"
    using handle_exn_uniform [of "Some rid"]
    by (auto simp: uniform_error_def error_response_def split: sum.splits option.splits)
  show ?thesis
    by (rule exI [of _ "set_header REQUEST_ID_HEADER rid (headers (snd ?r))"], rule exI [of _ ?r])
      (use err in \<open>simp add: run run_http_json_response set_header_one\<close>)
qed

text \<open>
  Every response that is started carries the request id: for any application, well-behaved or not,
  each response start the client sees has exactly one \<open>x-request-id\<close> header, and an exception is
  raised on only after a response was started.
\<close>

theorem responses_carry_request_id:
  "case run_http headers rid meth route (out, failure) of (h, raised, label) \<Rightarrow>
     (\<forall>m \<in> set (hs_sent h). case m of
        Response_start st hs \<Rightarrow> filter (\<lambda>p. fst p = REQUEST_ID_HEADER) hs = [(REQUEST_ID_HEADER, rid)]
      | Response_body b \<Rightarrow> True) \<and>
     (raised \<noteq> None \<longrightarrow> raised = failure \<and> hs_started h)"
proof -
  let ?h0 = "\<lparr>hs_status = 500, hs_started = False, hs_sent = []\<rparr>"
  have "\<forall>m \<in> set (hs_sent (fold (send_wrapper rid) ms ?h0)). carries rid m" for ms
    by (rule fold_send_carries) simp
  moreover from this have "\<forall>m \<in> set (hs_sent (fold (send_wrapper rid) ms' (fold (send_wrapper rid) ms ?h0))). carries rid m" for ms ms'
    by (rule fold_send_carries)
  ultimately show ?thesis
    unfolding run_http_def Let_def carries_def by (simp split: option.splits del: fold_simps)
qed

text \<open>
  C34. Log records cannot be forged or split: every formatted record is a single line that parses back to
  exactly its payload, whatever text the message and the attributes hold, and it carries the request's
  id unless an attribute of that name overrides it.
\<close>

theorem log_line_round_trip:
  assumes "wf_json (JObj (log_payload request_id r))"
  shows "10 \<notin> set (log_format request_id r) \<and>
    loads (log_format request_id r) = Some (JObj (log_payload request_id r)) \<and>
    (\<forall>i. request_id = Some i \<longrightarrow> i \<noteq> [] \<longrightarrow> lit ''request_id'' \<notin> fst ` set (lr_attrs r) \<longrightarrow>
       dict_get (lit ''request_id'') (log_payload request_id r) = Some (JStr i))"
proof (intro conjI allI impI)
  show "10 \<notin> set (log_format request_id r)" unfolding log_format_def by (rule dumps_printable [OF assms])
  show "loads (log_format request_id r) = Some (JObj (log_payload request_id r))"
    unfolding log_format_def by (rule loads_dumps [OF assms])
  fix i assume "request_id = Some i" "i \<noteq> []" "lit ''request_id'' \<notin> fst ` set (lr_attrs r)"
  moreover from this(3) have "lit ''request_id'' \<notin> fst ` set (filter (\<lambda>(k, v). k \<notin> set RESERVED \<and> \<not> prefix [95] k) (lr_attrs r))"
    by auto
  moreover have "map_of (dict_set (lit ''exc'') v p) (lit ''request_id'') = map_of p (lit ''request_id'')" for v and p :: "(pystr \<times> json) list"
    by (induction p) auto
  ultimately show "dict_get (lit ''request_id'') (log_payload request_id r) = Some (JStr i)"
    by (simp add: log_payload_def Let_def dict_get_def log_extras_get split: option.splits)
qed

theorem log_line_round_trip_witness:
  "loads (log_format (Some [114]) \<lparr>lr_ts = [], lr_level = lit ''INFO'', lr_logger = [], lr_message = [10],
     lr_attrs = [(lit ''args'', JNull), (lit ''user'', JStr [98])], lr_exc = None\<rparr>) =
   Some (JObj [(lit ''ts'', JStr []), (lit ''level'', JStr (lit ''info'')), (lit ''logger'', JStr []), (lit ''msg'', JStr [10]),
     (lit ''request_id'', JStr [114]), (lit ''user'', JStr [98])])"
proof -
  let ?r = "\<lparr>lr_ts = [], lr_level = lit ''INFO'', lr_logger = [], lr_message = [10],
     lr_attrs = [(lit ''args'', JNull), (lit ''user'', JStr [98])], lr_exc = None\<rparr>"
  have p: "log_payload (Some [114]) ?r = [(lit ''ts'', JStr []), (lit ''level'', JStr (lit ''info'')), (lit ''logger'', JStr []),
      (lit ''msg'', JStr [10]), (lit ''request_id'', JStr [114]), (lit ''user'', JStr [98])]"
    by (simp add: log_payload_def RESERVED_def py_lower_def) (simp add: lit_Cons)
  have w: "wf_json (JObj (log_payload (Some [114]) ?r))"
    unfolding p by (simp add: scalars_def scalar_def) (simp add: lit_Cons)
  from log_line_round_trip [OF w] p show ?thesis by simp
qed

end
