(* ===== verification/Api_Props.thy ===== *)
theory Api_Props
  imports Api Chat_Limits Http
begin

text \<open>
  What clients of the REST API rely on: every failing call has one uniform answer, with a declared
  status unless a library raised what no handler covers, and leaves the tables alone; and a presigned upload that respects its policy can be sent by
  its owner and by nobody else.
\<close>

section \<open>Statuses of errors\<close>

definition declared :: "exn \<Rightarrow> bool" where
  "declared e \<longleftrightarrow> (case handle_exn None e of None \<Rightarrow> False | Some r \<Rightarrow> fst r \<in> set ERRORS)"

lemma declared_simps [simp]:
  "declared (AppError st c m) \<longleftrightarrow> st \<in> set ERRORS" "declared (NotFoundError m)" "declared OperationalError"
  "declared DBAPIError" "declared (RequestValidationError es)"
  by (simp_all add: declared_def error_response_def dependency_down_def NotFoundError_def ERRORS_def
      validation_error_def Let_def)

lemma handle_exn_status: "handle_exn rid e = Some r \<Longrightarrow> \<exists>r'. handle_exn None e = Some r' \<and> fst r' = fst r"
  by (cases e) (auto simp: error_response_def http_error_def validation_error_def dependency_down_def Let_def)

lemma declared_answer:
  assumes "declared e"
  shows "\<exists>st c m. handle_exn rid e = Some (st, error_body rid c m) \<and> st \<in> set ERRORS"
proof -
  obtain r where r: "handle_exn None e = Some r" "fst r \<in> set ERRORS" using assms by (auto simp: declared_def split: option.splits)
  then obtain r' where r': "handle_exn rid e = Some r'" by (cases e) auto
  with handle_exn_status [OF r'] r have "fst r' \<in> set ERRORS" by auto
  with handle_exn_uniform [OF r'] r' show ?thesis unfolding uniform_error_def by (metis prod.collapse)
qed

lemma find_one_declared:
  "distinct (map client_key (messages d)) \<Longrightarrow> by_client_msg_id u cmid d = Inl e \<Longrightarrow> declared e"
proof -
  assume d: "distinct (map client_key (messages d))" and e: "by_client_msg_id u cmid d = Inl e"
  have "one_or_none (filter (\<lambda>m. sender_id m = u \<and> client_msg_id m = cmid) (messages d)) \<noteq> Inl x" for x
  proof (cases "\<exists>m \<in> set (messages d). client_key m = (u, cmid)")
    case True
    then obtain m where m: "m \<in> set (messages d)" "client_key m = (u, cmid)" by blast
    then have "filter (\<lambda>x. client_key x = client_key m) (messages d) = [m]" by (intro filter_eq_singleton [OF d])
    with m(2) show ?thesis by (simp add: client_key_def one_or_none_def)
  next
    case False
    then have "filter (\<lambda>m. sender_id m = u \<and> client_msg_id m = cmid) (messages d) = []"
      by (auto simp: filter_empty_conv client_key_def)
    then show ?thesis by (simp add: one_or_none_def)
  qed
  with e show "declared e" by (auto simp: by_client_msg_id_def split: if_splits)
qed

text \<open>
  Where an exception of a send comes from: the service itself, whose statuses are declared, the commit,
  or the object store asked about the attachment.
\<close>

definition accounted :: "world \<Rightarrow> pystr option \<Rightarrow> exn \<Rightarrow> bool" where
  "accounted w key e \<longleftrightarrow> declared e \<or> w_commit_error w = Some e \<or> (\<exists>k. key = Some k \<and> head (w_head w k) = Inl e)"

lemma accounted_declared [intro]: "declared e \<Longrightarrow> accounted w key e"
  by (simp add: accounted_def)

lemma check_attachment_accounted: "check_attachment w S u k = Inl e \<Longrightarrow> accounted w (Some k) e"
  by (auto simp: check_attachment_def accounted_def ERRORS_def split: if_splits sum.splits option.splits)

lemma commit_accounted: "commit w s = (Inl e, s') \<Longrightarrow> accounted w key e"
  using commit_raises [of w s e s'] by (auto simp: accounted_def)

lemma replay_declared: "replay w S m r s = (Inl e, s') \<Longrightarrow> declared e"
  by (cases rule: replay_cases [of m r w S s]) (auto simp: ERRORS_def)

lemma send_prepare_accounted:
  assumes "distinct (map client_key (messages (work s)))" "send_prepare w S u r s = (Inl e, s')"
  shows "accounted w (req_attachment_key r) e"
  using assms(2) find_one_declared [OF assms(1)] check_attachment_accounted [of w S u _ e] replay_declared
  by (auto simp: send_prepare_def ERRORS_def intro!: accounted_declared split: if_splits sum.splits option.splits prod.splits)

lemma send_conflict_declared:
  assumes "distinct (map client_key (messages (committed s)))" "send_conflict w S u r s = (Inl e, s')"
  shows "declared e"
  using assms(2) find_one_declared [of "work (rollback s)"] assms(1) replay_declared
  by (auto simp: send_conflict_def ERRORS_def Let_def rollback_def split: sum.splits option.splits prod.splits)

lemma send_insert_accounted:
  assumes inv: "db_inv (w_collate w) (committed s)" and c: "clean s" and ne: "req_recipient_id r \<noteq> u"
    and eq: "send_insert w S u r mime s = (Inl e, s')"
  shows "accounted w (req_attachment_key r) e"
proof -
  have ci: "convs_inv (w_collate w) (conversations (work s))" using inv c by (simp add: db_inv_def clean_def)
  obtain g s1 where g: "get_or_create_conversation w u (req_recipient_id r) s = (g, s1)" by fastforce
  show ?thesis
  proof (cases g)
    case (Inl e')
    with eq g have "e = e'" by (simp add: send_insert_def)
    with get_or_create_error [OF ci g [unfolded Inl]] show ?thesis by (auto intro!: accounted_declared)
  next
    case (Inr conv)
    then have "committed s1 = committed s" using get_or_create_ok [OF ci not_sym [OF ne]] g by (metis sess.select_convs(1) sess.surjective sess.update_convs(2))
    then have d: "distinct (map client_key (messages (committed s1)))" using inv by (simp add: db_inv_def msgs_inv_def)
    show ?thesis
      using eq g Inr send_conflict_declared [OF d] commit_accounted [of w _ e _ "req_attachment_key r"]
      by (auto simp: send_insert_def Let_def intro!: accounted_declared dest: messages_table.ins_error
          split: sum.splits bool.splits prod.splits)
  qed
qed

lemma send_message_accounted:
  assumes inv: "db_inv (w_collate w) d"
    and eq: "send_message w S u r (begin_session d) = (Inl e, s')"
  shows "accounted w (req_attachment_key r) e"
proof -
  obtain p s1 where p: "send_prepare w S u r (begin_session d) = (p, s1)" by fastforce
  have k: "distinct (map client_key (messages (work (begin_session d))))" using inv by (simp add: db_inv_def msgs_inv_def)
  show ?thesis
  proof (cases rule: send_prepare_cases [OF clean_begin p])
    case (1 e')
    with p eq send_prepare_accounted [OF k] show ?thesis by (auto simp: send_message_def)
  next
    case (2 m)
    with p eq show ?thesis by (simp add: send_message_def)
  next
    case (3 mime)
    with p eq have "send_insert w S u r mime (begin_session d) = (Inl e, s')" by (simp add: send_message_def)
    from send_insert_accounted [OF _ _ 3(3) this] inv show ?thesis by simp
  qed
qed

text \<open>Confirming a message of one's own: the one status no endpoint declares.\<close>

definition not_recipient :: exn where
  "not_recipient = AppError 403 (lit ''access_denied'') (lit ''Only the recipient can confirm delivery'')"

lemma mark_delivered_accounted:
  assumes inv: "db_inv (w_collate w) d" and eq: "mark_delivered w S u mid (begin_session d) = (Inl e, s')"
  shows "accounted w key e \<or> e = not_recipient"
proof -
  let ?p = "\<lambda>m. msg_id m = mid \<and> recipient_id m = u \<and> status m = sent"
  have d: "distinct (map msg_id (messages d))" using inv by (simp add: db_inv_def msgs_inv_def)
  have "filter ?p (messages d) = [] \<or> (\<exists>m. filter ?p (messages d) = [m])"
  proof (cases "\<exists>m \<in> set (messages d). ?p m")
    case True
    then obtain m where m: "m \<in> set (messages d)" "?p m" by blast
    have "filter ?p (messages d) = filter ?p (filter (\<lambda>x. msg_id x = msg_id m) (messages d))"
      unfolding filter_filter using m(2) by (intro filter_cong) auto
    also have "filter (\<lambda>x. msg_id x = msg_id m) (messages d) = [m]" by (rule filter_eq_singleton [OF d m(1)])
    finally show ?thesis using m(2) by simp
  qed (auto simp: filter_empty_conv)
  then have "one_or_none (map f (filter ?p (messages d))) \<noteq> Inl x" for f :: "message \<Rightarrow> message" and x
    by (elim disjE exE) (simp_all add: one_or_none_def)
  then show ?thesis
    using eq commit_accounted [of w _ e _ key]
    by (auto simp: mark_delivered_def pg_update_def Let_def not_recipient_def intro!: accounted_declared
        split: sum.splits option.splits if_splits prod.splits)
qed

lemma mark_read_accounted: "mark_read w u cid up_to s = (Inl e, s') \<Longrightarrow> accounted w key e"
  using commit_accounted [of w _ e _ key]
  by (auto simp: mark_read_def get_conversation_def Let_def intro!: accounted_declared split: sum.splits option.splits if_splits prod.splits)

lemma api_list_messages_error:
  assumes inv: "db_inv coll d" and eq: "api_list_messages w S msg u cid limit before after (begin_session d) = Inl e"
  shows "declared e"
proof (cases "query_limit msg 200 limit @ query_cursor msg (lit ''before'') before @ query_cursor msg (lit ''after'') after = []")
  case True
  then have n: "0 < nat (limit_value limit)" by (auto simp: query_limit_def split: if_splits)
  from True eq have "list_messages w S u cid (nat (limit_value limit)) before after (begin_session d) = Inl e"
    by (cases "list_messages w S u cid (nat (limit_value limit)) before after (begin_session d)") (auto simp: api_list_messages_def)
  from list_messages_errors [OF inv n this] show ?thesis by (auto simp: ERRORS_def)
next
  case False
  with eq show ?thesis by (auto simp: api_list_messages_def Let_def)
qed

lemma error_keeps_tables:
  assumes "db_inv (w_collate w) d" "run_call w S msg u c d = (Inl e, d', n)"
  shows "d' = d \<and> n = 0"
proof -
  have i: "db_inv (w_collate w) (committed (begin_session d))" using assms(1) by simp
  show ?thesis
  proof (cases c)
    case (Post_message r)
    then obtain s' where "send_message w S u r (begin_session d) = (Inl e, s')" "d' = committed s'" "n = notified s'"
      using assms(2) by (auto simp: run_call_def api_send_message_def Let_def split: prod.splits sum.splits)
    then show ?thesis using send_tx.op_error [OF clean_begin i] by (auto simp: ends_failed_def)
  next
    case (Post_delivered mid)
    then obtain s' where "mark_delivered w S u mid (begin_session d) = (Inl e, s')" "d' = committed s'" "n = notified s'"
      using assms(2) by (auto simp: run_call_def api_mark_delivered_def Let_def split: prod.splits sum.splits)
    then show ?thesis using deliver_tx.op_error [OF clean_begin i] by (auto simp: ends_failed_def)
  next
    case (Post_read cid up_to)
    then obtain s' where "mark_read w u cid up_to (begin_session d) = (Inl e, s')" "d' = committed s'" "n = notified s'"
      using assms(2) by (auto simp: run_call_def api_mark_read_def Let_def split: prod.splits sum.splits)
    then show ?thesis using read_tx.op_error [OF clean_begin i] by (auto simp: ends_failed_def)
  qed (use assms(2) in \<open>simp_all add: run_call_def Let_def\<close>)
qed

text \<open>
  The exceptions a call may raise that are not the service's own: those of the commit and, for a send with
  an attachment, of the object store. A library raises classes of its own, not the application's.
\<close>

definition from_library :: "world \<Rightarrow> call \<Rightarrow> exn \<Rightarrow> bool" where
  "from_library w c e \<longleftrightarrow> w_commit_error w = Some e \<or>
     (\<exists>r k. c = Post_message r \<and> req_attachment_key r = Some k \<and> head (w_head w k) = Inl e)"

fun library_class :: "exn \<Rightarrow> bool" where
  "library_class (AppError st c m) = False"
| "library_class (HTTPException st d) = False"
| "library_class (RequestValidationError es) = False"
| "library_class e = True"

lemma library_class_answer: "library_class e \<Longrightarrow> declared e \<or> handle_exn rid e = None"
  by (cases e) (simp_all add: declared_def dependency_down_def error_response_def ERRORS_def)

lemma call_error:
  assumes inv: "db_inv (w_collate w) d" and run: "run_call w S msg user c d = (Inl e, d', woken)"
  shows "declared e \<or> from_library w c e \<or> e = not_recipient \<and> (\<exists>mid. c = Post_delivered mid)"
proof (cases c)
  case (Post_message r)
  then obtain s' where "send_message w S user r (begin_session d) = (Inl e, s')"
    using run by (auto simp: run_call_def api_send_message_def Let_def split: prod.splits sum.splits)
  from send_message_accounted [OF inv this] Post_message show ?thesis by (auto simp: accounted_def from_library_def)
next
  case (Post_delivered mid)
  then obtain s' where "mark_delivered w S user mid (begin_session d) = (Inl e, s')"
    using run by (auto simp: run_call_def api_mark_delivered_def Let_def split: prod.splits sum.splits)
  from mark_delivered_accounted [OF inv this, of None] Post_delivered show ?thesis by (auto simp: accounted_def from_library_def)
next
  case (Get_conversations limit)
  then show ?thesis using run
    by (auto simp: run_call_def api_list_conversations_def query_limit_def Let_def split: if_splits)
next
  case (Get_messages cid limit before after)
  then show ?thesis using run api_list_messages_error [OF inv] by (auto simp: run_call_def Let_def)
next
  case (Post_read cid up_to)
  then obtain s' where "mark_read w user cid up_to (begin_session d) = (Inl e, s')"
    using run by (auto simp: run_call_def api_mark_read_def Let_def split: prod.splits sum.splits)
  from mark_read_accounted [OF this, of None] show ?thesis by (auto simp: accounted_def from_library_def)
next
  case (Post_presign req)
  then have "presign_attachment S (w_sign_post w) (uuid7 (w_msg_ms w) (w_msg_rand w)) user req = Inl e"
    using run by (cases "presign_attachment S (w_sign_post w) (uuid7 (w_msg_ms w) (w_msg_rand w)) user req")
      (auto simp: run_call_def Let_def)
  then show ?thesis by (auto simp: presign_attachment_def Let_def ERRORS_def split: if_splits)
qed

section \<open>Properties\<close>

text \<open>
  C19. Every failing REST call is answered, and once: on consistent tables, whatever a call raises becomes
  one response whose body has exactly a code, a message and the request id, and nothing is raised on. Its
  status is one the API declares, or 403 for confirming a message one did not receive, or 500
  \<open>internal_error\<close>, and that exactly where the commit or the object store raised an exception no handler
  covers. The tables are as before and the relay is not woken.
\<close>

theorem failing_calls_are_answered:
  assumes "db_inv (w_collate w) d" "\<forall>e. from_library w c e \<longrightarrow> library_class e"
    "run_call w S msg user c d = (Inl e, d', woken)"
  shows "d' = d \<and> woken = 0 \<and>
    (\<exists>st code message hs label. run_http headers rid meth route (endpoint_app headers rid (Inl e)) =
        (\<lparr>hs_status = st, hs_started = True,
          hs_sent = [Response_start st hs, Response_body (error_body (Some rid) code message)]\<rparr>, None, label) \<and>
      (if from_library w c e \<and> handle_exn (Some rid) e = None then st = 500 \<and> code = lit ''internal_error''
       else st \<in> set ERRORS \<or> st = 403 \<and> (\<exists>mid. c = Post_delivered mid)))"
proof -
  let ?r = "case handle_exn (Some rid) e of Some r \<Rightarrow> r
    | None \<Rightarrow> error_response (Some rid) 500 (lit ''internal_error'') (lit ''Internal server error'')"
  obtain st code message where r: "?r = (st, error_body (Some rid) code message)"
    using handle_exn_uniform [of "Some rid" e]
    by (cases "handle_exn (Some rid) e") (auto simp: uniform_error_def error_response_def prod_eq_iff)
  have "run_http headers rid meth route (endpoint_app headers rid (Inl e)) = run_http headers rid meth route (json_response headers ?r, None)"
    by (auto simp: endpoint_app_def run_http_raises Let_def split: option.splits)
  then have run: "\<exists>hs label. run_http headers rid meth route (endpoint_app headers rid (Inl e)) =
      (\<lparr>hs_status = st, hs_started = True, hs_sent = [Response_start st hs, Response_body (error_body (Some rid) code message)]\<rparr>, None, label)"
    unfolding r run_http_json_response by (simp del: ex_simps)
  have "if from_library w c e \<and> handle_exn (Some rid) e = None then st = 500 \<and> code = lit ''internal_error''
    else st \<in> set ERRORS \<or> st = 403 \<and> (\<exists>mid. c = Post_delivered mid)"
  proof (cases "declared e")
    case True
    then obtain st' c' m' where "handle_exn (Some rid) e = Some (st', error_body (Some rid) c' m')" "st' \<in> set ERRORS"
      using declared_answer by blast
    with r show ?thesis by simp
  next
    case False
    with call_error [OF assms(1,3)] have "from_library w c e \<or> e = not_recipient \<and> (\<exists>mid. c = Post_delivered mid)" by blast
    moreover have "handle_exn (Some rid) e = None" if "from_library w c e"
      using library_class_answer assms(2) that False by blast
    ultimately show ?thesis using r by (auto simp: error_response_def error_body_def not_recipient_def)
  qed
  with run error_keeps_tables [OF assms(1,3)] show ?thesis by blast
qed

lemma prefix_segment:
  assumes "x \<notin> set v" "x \<notin> set u" "prefix (v @ [x]) (u @ [x] @ r)"
  shows "v = u"
proof -
  obtain z where "u @ x # r = v @ x # z" using assms(3) by (auto simp: prefix_def)
  then have "takeWhile (\<lambda>y. y \<noteq> x) (u @ x # r) = takeWhile (\<lambda>y. y \<noteq> x) (v @ x # z)" by simp
  moreover have "takeWhile (\<lambda>y. y \<noteq> x) (a @ x # b) = a" if "x \<notin> set a" for a b
    using that by (subst takeWhile_append2) auto
  ultimately show ?thesis using assms(1,2) by simp
qed

lemma length_uuid_str [simp]: "length (uuid_str i) = 36"
  by (simp add: uuid_str_def Let_def)

lemma extension_length: "map_of EXTENSIONS ct = Some e \<Longrightarrow> length e \<le> 5"
  by (auto simp: EXTENSIONS_def lit_Cons split: if_splits)

lemma slash_free: "user_id_ok u \<Longrightarrow> 47 \<notin> set u"
  by (auto simp: user_id_ok_def user_id_char_def)

text \<open>
  C31. A presigned upload can be sent by its owner and by nobody else: whatever the upload policy lets
  into the bucket under the issued key is of an allowed type and size, the owner's send accepts it with
  that type, the key passes the schema of a send, and for every other user the key is refused.
\<close>

theorem presigned_upload_can_be_sent:
  assumes "presign_attachment S sign_post i user req = Inr resp" "user_id_ok user"
    "policy_allows (presign_upload S (ps_key resp) (content_type_of (pre_content_type req))) (ps_key resp) ct n"
    "w_head w (ps_key resp) = HeadMeta (Some n) (Some ct)"
  shows "check_attachment w S user (ps_key resp) = Inr ct \<and> ct \<in> set (attachment_allowed_mime S) \<and>
    1 \<le> n \<and> n \<le> attachment_max_bytes S \<and> 1 \<le> length (ps_key resp) \<and> length (ps_key resp) \<le> 512 \<and>
    (\<forall>v. user_id_ok v \<longrightarrow> v \<noteq> user \<longrightarrow> check_attachment w S v (ps_key resp) =
       Inl (AppError 422 (lit ''invalid_attachment'') (lit ''attachment_key was not issued to you'')))"
proof -
  let ?c = "content_type_of (pre_content_type req)"
  have k: "ps_key resp = attachment_key_for user i ?c" and c: "?c \<in> set (attachment_allowed_mime S)"
    using assms(1) by (auto simp: presign_attachment_def Let_def split: if_splits)
  have ct: "ct = ?c" "1 \<le> n" "n \<le> attachment_max_bytes S"
    using assms(3) by (auto simp: policy_allows_def presign_upload_def)
  obtain e where e: "ps_key resp = lit ''u/'' @ user @ lit ''/'' @ e"
    unfolding k attachment_key_for_def by blast
  have mine: "check_attachment w S user (ps_key resp) = Inr ct"
    using assms(4) ct c by (simp add: check_attachment_def e head_def)
  have "length (ps_key resp) \<le> 512"
    unfolding k attachment_key_for_def using assms(2) extension_length [of ?c]
    by (auto simp: user_id_ok_def lit_Cons split: option.splits)
  moreover have "\<not> prefix (lit ''u/'' @ v @ lit ''/'') (ps_key resp)" if "user_id_ok v" "v \<noteq> user" for v
    using prefix_segment [OF slash_free [OF that(1)] slash_free [OF assms(2)]] that(2) by (auto simp: e lit_Cons)
  ultimately show ?thesis using mine ct c by (auto simp: check_attachment_def e lit_Cons)
qed

section \<open>Witnesses\<close>

text \<open>A send whose commit raises a \<open>RuntimeError\<close>, as in the repository's test of the outbox.\<close>

definition exploding :: world where
  "exploding = (at_second 10)\<lparr>w_commit_error := Some RuntimeError\<rparr>"

lemma exploding_call:
  obtains d woken where "run_call exploding sample_settings (\<lambda>_. []) alice (Post_message hello) empty_db = (Inl RuntimeError, d, woken)"
proof -
  let ?m = "new_message (at_second 10) alice hello None (uuid7 10000 1)"
  have f: "w_graphemes exploding = w_graphemes (at_second 10)" "w_head exploding = w_head (at_second 10)"
    "w_sign exploding = w_sign (at_second 10)" by (simp_all add: exploding_def)
  have "send_prepare exploding S u r s = send_prepare (at_second 10) S u r s" for S u r s
    by (simp only: send_prepare_def replay_def to_out_def check_attachment_def f)
  moreover have "send_prepare (at_second 10) sample_settings alice hello (begin_session empty_db) =
      (Inr (Proceed None), begin_session empty_db)"
    by (rule send_prepare_ready) (simp add: begin_session_def hello_ready)
  ultimately have p: "send_prepare exploding sample_settings alice hello (begin_session empty_db) =
      (Inr (Proceed None), begin_session empty_db)" by simp
  have v: "varchar USER_ID_LENGTH alice" "varchar USER_ID_LENGTH bob" by (simp_all add: user_id_ok_varchar)
  have mm: "min alice bob = alice" "max alice bob = bob" by (simp_all add: min_def max_def less_imp_le)
  have g: "get_or_create_conversation exploding alice bob (begin_session empty_db) =
      (Inr hello_conversation, (begin_session empty_db)\<lparr>work := empty_db\<lparr>conversations := [hello_conversation]\<rparr>\<rparr>)"
    using v by (simp add: get_or_create_conversation_def mm pg_insert_def conversation_check_def empty_db_def
        exactly_one_def hello_conversation_def exploding_def at_second_def Let_def)
  have n: "new_message exploding alice hello None cid = new_message (at_second 10) alice hello None cid" for cid
    by (simp add: new_message_def exploding_def)
  have "message_check [hello_conversation] ?m"
    by (rule send_ready_message_check [OF hello_ready]) (simp_all add: hello_conversation_def)
  then have ins: "pg_insert (message_check [hello_conversation]) client_key msg_id ?m [] = Inr (True, [?m])"
    by (simp add: pg_insert_def)
  have t: "varchar 128 (user_topic alice)" "varchar 128 (user_topic bob)" using v by (simp_all add: user_topic_varchar)
  have e: "messages empty_db = []" "pending (begin_session empty_db) = []"
    by (simp_all add: empty_db_def begin_session_def)
  have ci: "conv_id hello_conversation = uuid7 10000 1" by (simp add: hello_conversation_def)
  have x: "w_commit_error exploding = Some RuntimeError" by (simp add: exploding_def)
  have "fst (send_message exploding sample_settings alice hello (begin_session empty_db)) = Inl RuntimeError"
    using t e by (simp add: send_message_def p send_insert_def g n ci ins Let_def commit_def enqueue_def x)
  then show ?thesis using that
    by (cases "send_message exploding sample_settings alice hello (begin_session empty_db)")
      (simp add: run_call_def api_send_message_def Let_def)
qed

theorem failing_calls_are_answered_witness:
  "\<exists>st code message hs label. run_call exploding sample_settings (\<lambda>_. []) alice (Post_message hello) empty_db = (Inl RuntimeError, empty_db, 0) \<and>
     run_http (\<lambda>_. []) [114] (lit ''POST'') None (endpoint_app (\<lambda>_. []) [114] (Inl RuntimeError)) =
       (\<lparr>hs_status = st, hs_started = True,
         hs_sent = [Response_start st hs, Response_body (error_body (Some [114]) code message)]\<rparr>, None, label) \<and>
     st = 500 \<and> code = lit ''internal_error''"
proof -
  obtain d woken where c: "run_call exploding sample_settings (\<lambda>_. []) alice (Post_message hello) empty_db = (Inl RuntimeError, d, woken)"
    by (rule exploding_call)
  have l: "from_library exploding (Post_message hello) e \<longleftrightarrow> e = RuntimeError" for e
    by (auto simp: from_library_def exploding_def hello_def)
  have i: "db_inv (w_collate exploding) empty_db" by (rule empty_db_inv)
  have l': "\<forall>e. from_library exploding (Post_message hello) e \<longrightarrow> library_class e" by (simp add: l)
  from failing_calls_are_answered [OF i l' c, of "\<lambda>_. []" "[114]" "lit ''POST''" None] c l show ?thesis by auto
qed

theorem presigned_upload_can_be_sent_witness:
  "\<exists>resp. presign_attachment sample_settings (\<lambda>p. ([], [])) 7 alice
       \<lparr>pre_filename = [120], pre_content_type = lit ''image/png; q=1'', pre_size = 10\<rparr> = Inr resp \<and>
     check_attachment ((at_second 10)\<lparr>w_head := \<lambda>_. HeadMeta (Some 10) (Some (lit ''image/png''))\<rparr>) sample_settings
       alice (ps_key resp) = Inr (lit ''image/png'')"
proof -
  let ?q = "\<lparr>pre_filename = [120], pre_content_type = lit ''image/png; q=1'', pre_size = 10\<rparr>"
  let ?w = "(at_second 10)\<lparr>w_head := \<lambda>_. HeadMeta (Some 10) (Some (lit ''image/png''))\<rparr>"
  have c: "content_type_of (lit ''image/png; q=1'') = lit ''image/png''"
    by (simp add: content_type_of_def py_split1_def py_strip_def strip_where_def py_lower_def py_space_def lit_Cons)
  have "lit ''image/png'' \<in> set (attachment_allowed_mime sample_settings)" "\<not> attachment_max_bytes sample_settings < 10"
    by (simp_all add: sample_settings_def default_settings_def DEFAULT_ALLOWED_MIME_def)
  then obtain resp where r: "presign_attachment sample_settings (\<lambda>p. ([], [])) 7 alice ?q = Inr resp"
    by (simp add: presign_attachment_def c Let_def)
  have a: "user_id_ok alice" by (simp add: alice_def user_id_ok_def user_id_char_def lit_Cons)
  have p: "policy_allows (presign_upload sample_settings (ps_key resp) (content_type_of (pre_content_type ?q))) (ps_key resp) (lit ''image/png'') 10"
    by (simp add: policy_allows_def presign_upload_def c sample_settings_def default_settings_def)
  from presigned_upload_can_be_sent [OF r a p, of ?w] r show ?thesis by simp
qed

end
