(* ===== verification/Ws.thy ===== *)
theory Ws
  imports Hub Auth Chat
begin

text \<open>
  \<^verbatim>\<open>app/api/ws.py\<close>: the WebSocket endpoint. Admission by token, the reader with its event handlers,
  the writer, and the heartbeat, over the state of one socket.
\<close>

definition CLOSE_UNAUTHORIZED :: int where
  "CLOSE_UNAUTHORIZED = 4401"

definition CLOSE_IDLE :: int where
  "CLOSE_IDLE = 4408"

section \<open>Admission\<close>

text \<open>
  How \<open>chat_socket\<close> begins, the subprotocol echoed first: closed with a code and a reason, ended by
  another exception, or admitted as a user.
\<close>

datatype admission = Rejected int pystr | Crashed exn | Admitted pystr

definition admit ::
  "'k jwt_lib \<Rightarrow> int \<Rightarrow> settings \<Rightarrow> pystr option \<Rightarrow> pystr option \<Rightarrow> pystr option \<times> admission"
where
  "admit lib now S header query =
     (let (token, subprotocol) = websocket_token header query
      in (subprotocol,
          if token = None \<or> token = Some [] then Rejected CLOSE_UNAUTHORIZED (lit ''missing token'')
          else case verify lib now S (the token) of
                 Inl (AppError st c m) \<Rightarrow> Rejected CLOSE_UNAUTHORIZED c
               | Inl e \<Rightarrow> Crashed e
               | Inr user_id \<Rightarrow> Admitted user_id))"

text \<open>
  \<open>chat_socket\<close> around its session: the connection (with identity \<open>i\<close>) is registered before, where the
  socket is admitted, and unregistered after (\<open>finally\<close>).
\<close>

definition chat_socket ::
  "'k jwt_lib \<Rightarrow> int \<Rightarrow> settings \<Rightarrow> pystr option \<Rightarrow> pystr option \<Rightarrow> nat \<Rightarrow> hub \<Rightarrow> admission \<times> conn option \<times> hub"
where
  "chat_socket lib now S header query i h =
     (case snd (admit lib now S header query) of
        Admitted user_id \<Rightarrow> (Admitted user_id, Some (new_conn i user_id), register (new_conn i user_id) h)
      | a \<Rightarrow> (a, None, h))"

definition chat_socket_ends :: "conn \<Rightarrow> hub \<Rightarrow> hub" where
  "chat_socket_ends c h = unregister c h"

section \<open>The socket\<close>

text \<open>
  A socket session: its connection, the cache of peers by conversation and the time of the last frame;
  and what its events change outside: the committed tables, the commands sent to Redis, and how often
  the relay was woken.
\<close>

record socket =
  s_conn :: conn
  s_peers :: "uuid \<Rightarrow> pystr option"
  last_seen :: real
  s_db :: db
  s_pushed :: "(pystr \<times> pystr) list"
  s_woken :: nat

definition queue_event :: "json \<Rightarrow> socket \<Rightarrow> socket" where
  "queue_event e s = s\<lparr>s_conn := send_nowait e (s_conn s)\<rparr>"

definition ws_error :: "pystr \<Rightarrow> pystr \<Rightarrow> json \<Rightarrow> socket \<Rightarrow> socket" where
  "ws_error c message ref =
     queue_event (JObj [(lit ''type'', JStr (lit ''error'')), (lit ''ref'', ref),
       (lit ''data'', JObj [(lit ''code'', JStr c), (lit ''message'', JStr message)])])"

text \<open>The first event; \<open>heartbeat\<close> is the JSON number of the heartbeat interval.\<close>

definition hello_event :: "settings \<Rightarrow> json \<Rightarrow> pystr \<Rightarrow> json" where
  "hello_event S heartbeat user =
     JObj [(lit ''type'', JStr (lit ''hello'')),
       (lit ''data'', JObj [(lit ''user_id'', JStr user), (lit ''replica'', JStr (replica_id S)),
          (lit ''heartbeat_seconds'', heartbeat)])]"

text \<open>The start of \<open>SocketSession.run\<close> for a new connection.\<close>

definition start_session :: "settings \<Rightarrow> json \<Rightarrow> real \<Rightarrow> nat \<Rightarrow> pystr \<Rightarrow> db \<Rightarrow> socket" where
  "start_session S heartbeat now i user d =
     queue_event (hello_event S heartbeat user)
       \<lparr>s_conn = new_conn i user, s_peers = (\<lambda>_. None), last_seen = now, s_db = d, s_pushed = [], s_woken = 0\<rparr>"

section \<open>Event handlers\<close>

text \<open>\<open>uuid.UUID(str(event[key]))\<close>.\<close>

definition uuid_field :: "pystr \<Rightarrow> (pystr \<times> json) list \<Rightarrow> exn + uuid" where
  "uuid_field key ev =
     (case dict_get key ev of
        None \<Rightarrow> Inl KeyError
      | Some v \<Rightarrow> (case uuid_parse (py_str v) of None \<Rightarrow> Inl ValueError | Some u \<Rightarrow> Inr u))"

definition ws_ack :: "world \<Rightarrow> settings \<Rightarrow> (pystr \<times> json) list \<Rightarrow> socket \<Rightarrow> (exn + unit) \<times> socket" where
  "ws_ack w S ev s =
     (case uuid_field (lit ''message_id'') ev of
        Inl e \<Rightarrow> (Inl e, s)
      | Inr mid \<Rightarrow>
          (case mark_delivered w S (c_user (s_conn s)) mid (begin_session (s_db s)) of
             (res, t) \<Rightarrow> (map_sum id (\<lambda>_. ()) res, s\<lparr>s_db := committed t, s_woken := s_woken s + notified t\<rparr>)))"

definition ws_read :: "world \<Rightarrow> (pystr \<times> json) list \<Rightarrow> socket \<Rightarrow> (exn + unit) \<times> socket" where
  "ws_read w ev s =
     (case uuid_field (lit ''conversation_id'') ev of
        Inl e \<Rightarrow> (Inl e, s)
      | Inr cid \<Rightarrow>
          (case uuid_field (lit ''up_to_message_id'') ev of
             Inl e \<Rightarrow> (Inl e, s)
           | Inr up_to \<Rightarrow>
               (case mark_read w (c_user (s_conn s)) cid up_to (begin_session (s_db s)) of
                  (res, t) \<Rightarrow> (map_sum id (\<lambda>_. ()) res, s\<lparr>s_db := committed t, s_woken := s_woken s + notified t\<rparr>))))"

definition typing_event :: "uuid \<Rightarrow> pystr \<Rightarrow> bool \<Rightarrow> json" where
  "typing_event cid user is_typing =
     JObj [(lit ''type'', JStr (lit ''typing'')),
       (lit ''data'', JObj [(lit ''conversation_id'', JStr (uuid_str cid)), (lit ''user_id'', JStr user),
          (lit ''is_typing'', JBool is_typing)])]"

text \<open>\<open>redis\<close> is the exception the publish raises, if any.\<close>

definition ws_typing :: "exn option \<Rightarrow> (pystr \<times> json) list \<Rightarrow> socket \<Rightarrow> (exn + unit) \<times> socket" where
  "ws_typing redis ev s =
     (case uuid_field (lit ''conversation_id'') ev of
        Inl e \<Rightarrow> (Inl e, s)
      | Inr cid \<Rightarrow>
          (let user = c_user (s_conn s);
               found = (case s_peers s cid of
                  Some p \<Rightarrow> Inr p
                | None \<Rightarrow> map_sum id (\<lambda>c. peer_of c user) (get_conversation user cid (begin_session (s_db s))))
           in case found of
                Inl e \<Rightarrow> (Inl e, s)
              | Inr peer \<Rightarrow>
                  let s1 = s\<lparr>s_peers := (s_peers s)(cid \<mapsto> peer)\<rparr>;
                      flag = (case dict_get (lit ''is_typing'') ev of None \<Rightarrow> True | Some v \<Rightarrow> truthy v)
                  in case redis of
                       Some e \<Rightarrow> (Inl e, s1)
                     | None \<Rightarrow> (Inr (), s1\<lparr>s_pushed := s_pushed s @ [publish peer (typing_event cid user flag)]\<rparr>)))"

text \<open>The \<open>except\<close> clauses of \<open>_guard\<close>: code and message of the reply, \<open>None\<close> for an exception they let through.\<close>

definition guard_reply :: "exn \<Rightarrow> (pystr \<times> pystr) option" where
  "guard_reply e =
     (case e of
        AppError st c m \<Rightarrow> Some (c, m)
      | KeyError \<Rightarrow> Some (lit ''bad_event'', lit ''Missing or invalid fields'')
      | TypeError \<Rightarrow> Some (lit ''bad_event'', lit ''Missing or invalid fields'')
      | ValueError \<Rightarrow> Some (lit ''bad_event'', lit ''Missing or invalid fields'')
      | _ \<Rightarrow> if is_sqlalchemy e \<or> e = RedisError \<or> is_oserror e
             then Some (lit ''service_unavailable'', lit ''Temporarily unavailable, retry'') else None)"

definition guard :: "json \<Rightarrow> (socket \<Rightarrow> (exn + unit) \<times> socket) \<Rightarrow> socket \<Rightarrow> (exn + unit) \<times> socket" where
  "guard ref act s =
     (case act s of
        (Inr _, s') \<Rightarrow> (Inr (), s')
      | (Inl e, s') \<Rightarrow>
          (case guard_reply e of
             Some (c, m) \<Rightarrow> (Inr (), ws_error c m ref s')
           | None \<Rightarrow> (Inl e, s')))"

text \<open>\<open>event.get(key)\<close> as a value, and \<open>_handle\<close>; \<open>py_repr\<close> is Python's \<open>repr\<close>.\<close>

definition get_or_null :: "pystr \<Rightarrow> (pystr \<times> json) list \<Rightarrow> json" where
  "get_or_null key ev = (case dict_get key ev of None \<Rightarrow> JNull | Some v \<Rightarrow> v)"

definition handle ::
  "(json \<Rightarrow> pystr) \<Rightarrow> world \<Rightarrow> settings \<Rightarrow> exn option \<Rightarrow> (pystr \<times> json) list \<Rightarrow> socket \<Rightarrow> (exn + unit) \<times> socket"
where
  "handle py_repr w S redis ev s =
     (let kind = get_or_null (lit ''type'') ev; ref = get_or_null (lit ''ref'') ev
      in if kind = JStr (lit ''ping'')
           then (Inr (), queue_event (JObj [(lit ''type'', JStr (lit ''pong'')), (lit ''ref'', ref)]) s)
         else if kind = JStr (lit ''pong'') then (Inr (), s)
         else if kind = JStr (lit ''ack'') then guard ref (ws_ack w S ev) s
         else if kind = JStr (lit ''read'') then guard ref (ws_read w ev) s
         else if kind = JStr (lit ''typing'') then guard ref (ws_typing redis ev) s
         else (Inr (), ws_error (lit ''unknown_event'') (lit ''Unsupported event type: '' @ py_repr kind) ref s))"

section \<open>Reader, writer, heartbeat\<close>

text \<open>What \<open>receive\<close> returns: a disconnect, or a frame with text or bytes.\<close>

datatype ws_message = Disconnect | Frame "pystr option" "bytes option"

definition raw_text :: "pystr option \<Rightarrow> bytes option \<Rightarrow> pystr" where
  "raw_text text bytes =
     (case text of
        Some t \<Rightarrow> if t \<noteq> [] then t else utf8_replace (case bytes of None \<Rightarrow> [] | Some b \<Rightarrow> b)
      | None \<Rightarrow> utf8_replace (case bytes of None \<Rightarrow> [] | Some b \<Rightarrow> b))"

text \<open>
  One turn of \<open>_reader\<close> at time \<open>now\<close>: \<open>Inr False\<close> when it returns, \<open>Inr True\<close> when it goes on, \<open>Inl\<close>
  when it raises.
\<close>

definition reader ::
  "(json \<Rightarrow> pystr) \<Rightarrow> world \<Rightarrow> settings \<Rightarrow> exn option \<Rightarrow> real \<Rightarrow> ws_message \<Rightarrow> socket \<Rightarrow> (exn + bool) \<times> socket"
where
  "reader py_repr w S redis now msg s =
     (case msg of
        Disconnect \<Rightarrow> (Inr False, s)
      | Frame text bytes \<Rightarrow>
          let s1 = s\<lparr>last_seen := now\<rparr>
          in case (case json_loads (w_spare w) (raw_text text bytes) of
                     Inr (JObj ev) \<Rightarrow> Inr ev | Inr _ \<Rightarrow> Inl ValueError | Inl e \<Rightarrow> Inl e) of
               Inr ev \<Rightarrow>
                 (case handle py_repr w S redis ev s1 of
                    (Inl e, s2) \<Rightarrow> (Inl e, s2) | (Inr _, s2) \<Rightarrow> (Inr True, s2))
             | Inl e \<Rightarrow>
                 if e = ValueError
                 then (Inr True, ws_error (lit ''bad_event'') (lit ''Events must be JSON objects'') JNull s1)
                 else (Inl e, s1))"

text \<open>One turn of \<open>_writer\<close>: the frame it writes; after a close it returns. \<open>None\<close>: nothing queued.\<close>

datatype ws_frame = Text_frame pystr | Close_frame int pystr

definition writer :: "socket \<Rightarrow> (ws_frame \<times> socket) option" where
  "writer s =
     (case next_event (s_conn s) of
        None \<Rightarrow> None
      | Some (Event e, c) \<Rightarrow> Some (Text_frame (dumps False e), s\<lparr>s_conn := c\<rparr>)
      | Some (CloseRequest n reason, c) \<Rightarrow> Some (Close_frame n reason, s\<lparr>s_conn := c\<rparr>))"

text \<open>
  One turn of \<open>_heartbeat\<close>, after its sleep, at time \<open>now\<close> (\<open>stamp\<close> is the JSON number of
  \<open>time.time()\<close>): whether the task goes on.
\<close>

definition heartbeat :: "settings \<Rightarrow> real \<Rightarrow> json \<Rightarrow> socket \<Rightarrow> bool \<times> socket" where
  "heartbeat S now stamp s =
     (if ws_idle_timeout_seconds S < now - last_seen s
      then (False, s\<lparr>s_conn := close CLOSE_IDLE (lit ''idle timeout'') (s_conn s)\<rparr>)
      else
        let s' = queue_event (JObj [(lit ''type'', JStr (lit ''ping'')), (lit ''ts'', stamp)]) s
        in (\<not> closing (s_conn s'), s'))"

section \<open>The session\<close>

text \<open>
  \<open>SocketSession.run\<close>: three tasks over one socket. The session has ended once one of them completes;
  then the others are cancelled and, unless a close frame was written or a write failed (\<open>lost\<close>: the
  socket is no longer connected), the socket is closed with the default code. An operation is one turn
  of a task, at the time given with it: other tasks may still take a turn between the end and \<open>Finish\<close>.
  \<open>Write ok\<close> says whether the transport takes the frame; the exception of a failed write ends the
  writer. \<open>Elsewhere\<close> is what other sessions commit meanwhile.
\<close>

record session =
  sock :: socket
  ended :: bool
  finished :: bool
  lost :: bool
  frames :: "ws_frame list"

datatype session_op = Receive world "exn option" ws_message | Beat json | Write bool | Finish | Elsewhere "db \<Rightarrow> db"

definition CLOSE_NORMAL :: int where
  "CLOSE_NORMAL = 1000"

definition is_close :: "ws_frame \<Rightarrow> bool" where
  "is_close f = (case f of Close_frame n r \<Rightarrow> True | Text_frame t \<Rightarrow> False)"

fun session_step :: "(json \<Rightarrow> pystr) \<Rightarrow> settings \<Rightarrow> real \<times> session_op \<Rightarrow> session \<Rightarrow> session" where
  "session_step py_repr S (now, Receive w redis msg) x =
     (if finished x then x
      else case reader py_repr w S redis now msg (sock x) of
        (Inr True, s) \<Rightarrow> x\<lparr>sock := s\<rparr>
      | (_, s) \<Rightarrow> x\<lparr>sock := s, ended := True\<rparr>)"
| "session_step py_repr S (now, Beat stamp) x =
     (if finished x then x
      else case heartbeat S now stamp (sock x) of
        (goes_on, s) \<Rightarrow> x\<lparr>sock := s, ended := ended x \<or> \<not> goes_on\<rparr>)"
| "session_step py_repr S (now, Write ok) x =
     (if finished x \<or> lost x \<or> (\<exists>f \<in> set (frames x). is_close f) then x
      else case writer (sock x) of
        None \<Rightarrow> x
      | Some (f, s) \<Rightarrow>
          if ok then x\<lparr>sock := s, ended := ended x \<or> is_close f, frames := frames x @ [f]\<rparr>
          else x\<lparr>sock := s, ended := True, lost := True\<rparr>)"
| "session_step py_repr S (now, Finish) x =
     (if \<not> ended x \<or> finished x then x
      else x\<lparr>finished := True,
             frames := (if lost x \<or> (\<exists>f \<in> set (frames x). is_close f) then frames x
                        else frames x @ [Close_frame CLOSE_NORMAL []])\<rparr>)"
| "session_step py_repr S (now, Elsewhere f) x = x\<lparr>sock := (sock x)\<lparr>s_db := f (s_db (sock x))\<rparr>\<rparr>"

definition run_session :: "(json \<Rightarrow> pystr) \<Rightarrow> settings \<Rightarrow> (real \<times> session_op) list \<Rightarrow> session \<Rightarrow> session" where
  "run_session py_repr S ops x = fold (session_step py_repr S) ops x"

definition open_session :: "socket \<Rightarrow> session" where
  "open_session s = \<lparr>sock = s, ended = False, finished = False, lost = False, frames = []\<rparr>"

end
