(* ===== verification/Ws_Props.thy ===== *)
theory Ws_Props
  imports Ws Chat_Limits
begin

text \<open>
  What a socket session guarantees: its events change the tables only as requests of its own user do,
  no frame of the client breaks the session unless it is nested too deep, typing notices reach the other member of a conversation
  and nobody else, an idle socket is closed in time, and every session ends with one close frame.
\<close>

section \<open>Frames of the fields\<close>

lemma queue_event_simps [simp]:
  "s_db (queue_event e s) = s_db s" "s_peers (queue_event e s) = s_peers s" "s_woken (queue_event e s) = s_woken s"
  "s_pushed (queue_event e s) = s_pushed s" "last_seen (queue_event e s) = last_seen s"
  "s_conn (queue_event e s) = send_nowait e (s_conn s)"
  by (simp_all add: queue_event_def)

lemma send_nowait_user [simp]: "c_user (send_nowait e c) = c_user c"
  by (simp add: send_nowait_def close_def)

lemma close_user [simp]: "c_user (close n r c) = c_user c"
  by (simp add: close_def)

section \<open>Events as requests\<close>

fun request_user :: "request \<Rightarrow> pystr" where
  "request_user (Send u r) = u"
| "request_user (Deliver u mid) = u"
| "request_user (Read_up_to u cid up_to) = u"

fun is_receipt :: "request \<Rightarrow> bool" where
  "is_receipt (Send u r) = False"
| "is_receipt (Deliver u mid) = True"
| "is_receipt (Read_up_to u cid up_to) = True"

text \<open>
  A turn of a handler: the user stays, the tables are those after no or one receipt of the user (its
  wake-ups counted), at most one event is queued for the client, and the time of the last frame stays.
\<close>

definition requests_of :: "settings \<Rightarrow> world \<Rightarrow> socket \<Rightarrow> socket \<Rightarrow> bool" where
  "requests_of S w s s' \<longleftrightarrow>
     (s_db s' = s_db s \<and> s_woken s' = s_woken s \<or>
      (\<exists>q n. request_user q = c_user (s_conn s) \<and> is_receipt q \<and> serve S (w, q) (s_db s) = (s_db s', n) \<and> s_woken s' = s_woken s + n))"

definition turn :: "settings \<Rightarrow> world \<Rightarrow> socket \<Rightarrow> socket \<Rightarrow> bool" where
  "turn S w s s' \<longleftrightarrow> requests_of S w s s' \<and> last_seen s' = last_seen s \<and>
     (s_conn s' = s_conn s \<or> (\<exists>e. s_conn s' = send_nowait e (s_conn s)))"

lemma turn_refl [simp]: "turn S w s s"
  by (simp add: turn_def requests_of_def)

lemma turn_queue [simp]: "turn S w s (queue_event e s)"
  by (auto simp: turn_def requests_of_def)

lemma turn_error [simp]: "turn S w s (ws_error c m ref s)"
  by (simp add: ws_error_def)

lemma turn_then_error:
  assumes "turn S w s s'" "s_conn s' = s_conn s"
  shows "turn S w s (ws_error c m ref s')"
  using assms by (auto simp: turn_def requests_of_def ws_error_def)

lemma serve_deliver: "serve S (w, Deliver u mid) d =
    (case mark_delivered w S u mid (begin_session d) of (res, t) \<Rightarrow> (committed t, notified t))"
  by (simp add: serve_def split_def Let_def)

lemma serve_read: "serve S (w, Read_up_to u cid up_to) d =
    (case mark_read w u cid up_to (begin_session d) of (res, t) \<Rightarrow> (committed t, notified t))"
  by (simp add: serve_def split_def Let_def)

text \<open>
  The three guarded handlers: a turn that queues nothing, with an exception the guard knows, or one that
  the commit or the publish raised.
\<close>

definition guarded :: "exn \<Rightarrow> bool" where
  "guarded e \<longleftrightarrow> guard_reply e \<noteq> None"

lemma guarded_simps [simp]:
  "guarded (AppError st c m)" "guarded (NotFoundError m)" "guarded KeyError" "guarded ValueError" "guarded TypeError"
  "guarded DBAPIError" "guarded OperationalError" "guarded NoResultFound" "guarded RedisError" "guarded OSError"
  "guarded ConnectionError"
  by (simp_all add: guarded_def guard_reply_def NotFoundError_def)

lemma uuid_field_guarded: "uuid_field k ev = Inl e \<Longrightarrow> guarded e"
  by (auto simp: uuid_field_def split: option.splits)

lemma guarded_classes: "is_sqlalchemy e \<or> e = RedisError \<or> is_oserror e \<Longrightarrow> guarded e"
  by (cases e) (simp_all add: guarded_def guard_reply_def)

definition raised_outside :: "world \<Rightarrow> exn option \<Rightarrow> exn \<Rightarrow> bool" where
  "raised_outside w redis e \<longleftrightarrow> w_commit_error w = Some e \<or> redis = Some e"

lemma commit_guarded: "commit w s = (Inl e, s') \<Longrightarrow> guarded e \<or> raised_outside w redis e"
  using commit_raises [of w s e s'] by (auto simp: raised_outside_def)

lemma one_or_none_guarded: "one_or_none rows = Inl e \<Longrightarrow> guarded e"
  by (auto simp: one_or_none_def split: list.splits)

lemma mark_delivered_guarded: "mark_delivered w S u mid s = (Inl e, s') \<Longrightarrow> guarded e \<or> raised_outside w redis e"
  using one_or_none_guarded commit_guarded [where redis = redis]
  by (auto simp: mark_delivered_def Let_def split: sum.splits option.splits if_splits prod.splits)

lemma get_conversation_guarded: "get_conversation u cid s = Inl e \<Longrightarrow> guarded e"
  by (auto simp: get_conversation_def split: option.splits if_splits)

lemma mark_read_guarded: "mark_read w u cid up_to s = (Inl e, s') \<Longrightarrow> guarded e \<or> raised_outside w redis e"
  using get_conversation_guarded commit_guarded [where redis = redis]
  by (auto simp: mark_read_def Let_def split: sum.splits option.splits if_splits prod.splits)

definition quiet_turn :: "settings \<Rightarrow> world \<Rightarrow> exn option \<Rightarrow> socket \<Rightarrow> (exn + unit) \<times> socket \<Rightarrow> bool" where
  "quiet_turn S w redis s r \<longleftrightarrow> turn S w s (snd r) \<and> s_conn (snd r) = s_conn s \<and> (\<forall>e. fst r = Inl e \<longrightarrow> guarded e \<or> raised_outside w redis e)"

lemma quiet_served:
  assumes "serve S (w, q) (s_db s) = (committed t, notified t)" "request_user q = c_user (s_conn s)" "is_receipt q"
    "\<And>e. res = Inl e \<Longrightarrow> guarded e \<or> raised_outside w redis e"
  shows "quiet_turn S w redis s (map_sum id (\<lambda>_. ()) res, s\<lparr>s_db := committed t, s_woken := s_woken s + notified t\<rparr>)"
  using assms unfolding quiet_turn_def turn_def requests_of_def by (cases res) auto

lemma quiet_ack: "quiet_turn S w redis s (ws_ack w S ev s)"
proof (cases "uuid_field (lit ''message_id'') ev")
  case (Inl e)
  then show ?thesis using uuid_field_guarded [OF Inl] by (simp add: ws_ack_def quiet_turn_def)
next
  case (Inr mid)
  obtain res t where m: "mark_delivered w S (c_user (s_conn s)) mid (begin_session (s_db s)) = (res, t)" by fastforce
  have "quiet_turn S w redis s (map_sum id (\<lambda>_. ()) res, s\<lparr>s_db := committed t, s_woken := s_woken s + notified t\<rparr>)"
    by (rule quiet_served [of _ _ "Deliver (c_user (s_conn s)) mid"])
      (use m mark_delivered_guarded [where redis = redis] in \<open>auto simp: serve_deliver\<close>)
  then show ?thesis by (simp add: ws_ack_def Inr m)
qed

lemma quiet_read: "quiet_turn S w redis s (ws_read w ev s)"
proof (cases "\<exists>cid up_to. uuid_field (lit ''conversation_id'') ev = Inr cid \<and> uuid_field (lit ''up_to_message_id'') ev = Inr up_to")
  case False
  then show ?thesis using uuid_field_guarded
    by (auto simp: ws_read_def quiet_turn_def split: sum.splits)
next
  case True
  then obtain cid up_to where f: "uuid_field (lit ''conversation_id'') ev = Inr cid"
    "uuid_field (lit ''up_to_message_id'') ev = Inr up_to" by blast
  obtain res t where m: "mark_read w (c_user (s_conn s)) cid up_to (begin_session (s_db s)) = (res, t)" by fastforce
  have "quiet_turn S w redis s (map_sum id (\<lambda>_. ()) res, s\<lparr>s_db := committed t, s_woken := s_woken s + notified t\<rparr>)"
    by (rule quiet_served [of _ _ "Read_up_to (c_user (s_conn s)) cid up_to"])
      (use m mark_read_guarded [where redis = redis] in \<open>auto simp: serve_read\<close>)
  then show ?thesis by (simp add: ws_read_def f m)
qed

lemma quiet_typing: "quiet_turn S w redis s (ws_typing redis ev s)"
  using uuid_field_guarded get_conversation_guarded
  by (auto simp: ws_typing_def quiet_turn_def turn_def requests_of_def raised_outside_def Let_def map_sum_def
      split: sum.splits option.splits)

text \<open>A turn that ends well, or with an exception from outside that the guard lets through.\<close>

definition ends_turn :: "world \<Rightarrow> exn option \<Rightarrow> exn + unit \<Rightarrow> bool" where
  "ends_turn w redis r \<longleftrightarrow> r = Inr () \<or> (\<exists>e. r = Inl e \<and> \<not> guarded e \<and> raised_outside w redis e)"

lemma ends_turn_ok [simp]: "ends_turn w redis (Inr ())"
  by (simp add: ends_turn_def)

lemma guard_turn:
  assumes "quiet_turn S w redis s (act s)"
  shows "ends_turn w redis (fst (guard ref act s)) \<and> turn S w s (snd (guard ref act s))"
proof (cases "act s")
  case (Pair r s')
  show ?thesis
  proof (cases r)
    case (Inl e)
    show ?thesis
    proof (cases "guard_reply e")
      case None
      then have "\<not> guarded e" by (simp add: guarded_def)
      then show ?thesis using assms Pair Inl None by (auto simp: guard_def quiet_turn_def ends_turn_def)
    next
      case (Some cm)
      then show ?thesis using assms Pair Inl turn_then_error [of S w s s']
        by (cases cm) (simp add: guard_def quiet_turn_def)
    qed
  qed (use assms Pair in \<open>simp add: guard_def quiet_turn_def\<close>)
qed

lemma handle_turn:
  "ends_turn w redis (fst (handle py_repr w S redis ev s)) \<and> turn S w s (snd (handle py_repr w S redis ev s))"
  using guard_turn [where act = "ws_ack w S ev", OF quiet_ack] guard_turn [where act = "ws_read w ev", OF quiet_read]
    guard_turn [where act = "ws_typing redis ev", OF quiet_typing]
  by (simp add: handle_def Let_def)

text \<open>What \<open>reader\<close> makes of a frame: the error of its text, or the handling of its event.\<close>

lemma reader_frame:
  fixes tx bs s now w
  defines "parsed \<equiv> json_loads (w_spare w) (raw_text tx bs)" and "s1 \<equiv> s\<lparr>last_seen := now\<rparr>"
  obtains (handled) ev r s2 where "parsed = Inr (JObj ev)" "handle py_repr w S redis ev s1 = (r, s2)"
      "reader py_repr w S redis now (Frame tx bs) s = (map_sum id (\<lambda>_. True) r, s2)"
  | (bad) "parsed \<noteq> Inl RuntimeError" "\<nexists>ev. parsed = Inr (JObj ev)"
      "reader py_repr w S redis now (Frame tx bs) s =
        (Inr True, ws_error (lit ''bad_event'') (lit ''Events must be JSON objects'') JNull s1)"
  | (deep) "parsed = Inl RuntimeError" "reader py_repr w S redis now (Frame tx bs) s = (Inl RuntimeError, s1)"
proof (cases "\<exists>ev. parsed = Inr (JObj ev)")
  case True
  then obtain ev where ev: "parsed = Inr (JObj ev)" by blast
  obtain r s2 where h: "handle py_repr w S redis ev s1 = (r, s2)" by fastforce
  show ?thesis by (rule handled [OF ev h]) (use ev h in \<open>(cases r; simp add: reader_def Let_def parsed_def s1_def)\<close>)
next
  case False
  note defs = reader_def Let_def parsed_def s1_def
  show ?thesis
  proof (cases parsed)
    case (Inl e)
    then show ?thesis using json_loads_error [of "w_spare w" "raw_text tx bs" e] False
      by (auto simp: parsed_def) (use bad deep Inl in \<open>simp_all add: defs\<close>)
  next
    case (Inr j)
    with False show ?thesis by (intro bad) (auto simp: defs split: json.splits)
  qed
qed

lemma reader_turn:
  "turn S w (if msg = Disconnect then s else s\<lparr>last_seen := now\<rparr>) (snd (reader py_repr w S redis now msg s))"
proof (cases msg)
  case (Frame tx bs)
  show ?thesis
  proof (cases rule: reader_frame [where py_repr = py_repr and w = w and S = S and redis = redis and now = now and tx = tx and bs = bs and s = s])
    case (handled ev r s2)
    then show ?thesis using handle_turn [of w redis py_repr S ev "s\<lparr>last_seen := now\<rparr>"] by (simp add: Frame)
  qed (simp_all add: Frame)
qed (simp add: reader_def)

section \<open>Steps of a session\<close>

lemma writer_fields:
  "writer s = Some (f, s') \<Longrightarrow> s_db s' = s_db s \<and> s_woken s' = s_woken s \<and> c_user (s_conn s') = c_user (s_conn s) \<and>
     s_peers s' = s_peers s \<and> s_pushed s' = s_pushed s \<and> last_seen s' = last_seen s"
  by (auto simp: writer_def next_event_def split: option.splits list.splits queue_item.splits prod.splits)

lemma heartbeat_fields:
  "heartbeat S now stamp s = (b, s') \<Longrightarrow> s_db s' = s_db s \<and> s_woken s' = s_woken s \<and> c_user (s_conn s') = c_user (s_conn s) \<and>
     s_peers s' = s_peers s \<and> s_pushed s' = s_pushed s \<and> last_seen s' = last_seen s"
  by (auto simp: heartbeat_def Let_def split: if_splits)

lemma write_step:
  fixes py_repr S
  defines "step now good x \<equiv> sock (session_step py_repr S (now, Write good) x)"
  shows "s_db (step now good x) = s_db (sock x)" "c_user (s_conn (step now good x)) = c_user (s_conn (sock x))"
    "s_peers (step now good x) = s_peers (sock x)" "s_pushed (step now good x) = s_pushed (sock x)"
    "last_seen (step now good x) = last_seen (sock x)"
proof -
  have "step now good x = sock x \<or> (\<exists>f. writer (sock x) = Some (f, step now good x))"
    by (cases "writer (sock x)") (auto simp: step_def)
  then show "s_db (step now good x) = s_db (sock x)" "c_user (s_conn (step now good x)) = c_user (s_conn (sock x))"
    "s_peers (step now good x) = s_peers (sock x)" "s_pushed (step now good x) = s_pushed (sock x)"
    "last_seen (step now good x) = last_seen (sock x)"
    using writer_fields [of "sock x"] by auto
qed

text \<open>
  The inputs of a run: worlds have one collation, and other sessions commit requests of the given set.
  Commits and publishes may raise anything.
\<close>

fun op_ok :: "settings \<Rightarrow> (pystr \<Rightarrow> pystr \<Rightarrow> bool) \<Rightarrow> (world \<times> request) set \<Rightarrow> session_op \<Rightarrow> bool" where
  "op_ok S coll others (Receive w redis msg) = (w_collate w = coll)"
| "op_ok S coll others (Elsewhere f) =
     (\<exists>qs. set qs \<subseteq> others \<and> (\<forall>q \<in> set qs. w_collate (fst q) = coll) \<and> f = serve_all S qs)"
| "op_ok S coll others _ = True"

text \<open>The socket after one step, seen as requests: none, one of its user's, or some of the others.\<close>

lemma serve_all_append [simp]: "serve_all S (qs @ rs) d = serve_all S rs (serve_all S qs d)"
  by (simp add: serve_all_def)

lemma step_requests:
  fixes x op S py_repr
  defines "s \<equiv> sock x" and "s' \<equiv> sock (session_step py_repr S op x)"
  assumes ok: "op_ok S coll others (snd op)"
  shows "c_user (s_conn s') = c_user (s_conn s) \<and> (\<exists>qs. s_db s' = serve_all S qs (s_db s) \<and>
    (\<forall>q \<in> set qs. w_collate (fst q) = coll \<and> (q \<in> others \<or> request_user (snd q) = c_user (s_conn s) \<and> is_receipt (snd q))))"
proof -
  obtain now o' where op: "op = (now, o')" by (cases op)
  have none: ?thesis if "c_user (s_conn s') = c_user (s_conn s)" "s_db s' = s_db s"
    using that by (intro conjI exI [of _ "[]"]) simp_all
  show ?thesis
  proof (cases o')
    case (Receive w redis msg)
    obtain r t where r: "reader py_repr w S redis now msg s = (r, t)" by fastforce
    have s': "s' = (if finished x then s else t)"
      using r op Receive by (auto simp: s_def s'_def split: sum.splits bool.splits)
    have "turn S w (if msg = Disconnect then s else s\<lparr>last_seen := now\<rparr>) t"
      using reader_turn [of S w msg s now py_repr redis] r by simp
    then have u: "c_user (s_conn t) = c_user (s_conn s)"
      and d: "s_db t = s_db s \<or> (\<exists>q n. request_user q = c_user (s_conn s) \<and> is_receipt q \<and> serve S (w, q) (s_db s) = (s_db t, n))"
      by (auto simp: turn_def requests_of_def split: if_splits)
    from d show ?thesis
    proof
      assume "\<exists>q n. request_user q = c_user (s_conn s) \<and> is_receipt q \<and> serve S (w, q) (s_db s) = (s_db t, n)"
      then obtain q n where q: "request_user q = c_user (s_conn s)" "is_receipt q" "serve S (w, q) (s_db s) = (s_db t, n)" by blast
      have "s_db t = serve_all S [(w, q)] (s_db s)" using q(3) by simp
      then have "\<not> finished x \<Longrightarrow> ?thesis" using u q(1,2) s' ok op Receive by (intro conjI exI [of _ "[(w, q)]"]) simp_all
      then show ?thesis using none s' by (cases "finished x") simp_all
    qed (use none u s' in auto)
  next
    case (Beat stamp)
    then show ?thesis using op heartbeat_fields [of S now stamp s]
      by (intro none) (auto simp: s_def s'_def split: prod.splits)
  next
    case (Write good)
    then show ?thesis using op by (intro none) (simp_all add: s_def s'_def write_step del: session_step.simps)
  next
    case Finish
    then show ?thesis using op by (intro none) (auto simp: s_def s'_def)
  next
    case (Elsewhere f)
    then show ?thesis using ok op by (auto simp: s_def s'_def)
  qed
qed

lemma run_session_simps [simp]:
  "run_session py_repr S [] x = x" "run_session py_repr S (op # ops) x = run_session py_repr S ops (session_step py_repr S op x)"
  by (simp_all add: run_session_def)

lemma run_session_append [simp]:
  "run_session py_repr S (ops @ ops') x = run_session py_repr S ops' (run_session py_repr S ops x)"
  by (simp add: run_session_def)

lemma run_requests:
  assumes "\<forall>op \<in> set ops. op_ok S coll others (snd op)"
  shows "c_user (s_conn (sock (run_session py_repr S ops x))) = c_user (s_conn (sock x)) \<and>
    (\<exists>qs. s_db (sock (run_session py_repr S ops x)) = serve_all S qs (s_db (sock x)) \<and>
      (\<forall>q \<in> set qs. w_collate (fst q) = coll \<and> (q \<in> others \<or> request_user (snd q) = c_user (s_conn (sock x)) \<and> is_receipt (snd q))))"
  using assms
proof (induction ops arbitrary: x)
  case Nil
  then show ?case by (auto intro!: exI [of _ "[]"])
next
  case (Cons op ops)
  let ?x = "session_step py_repr S op x"
  from step_requests [where x = x and py_repr = py_repr, of S coll others op] Cons.prems
  obtain qs where u: "c_user (s_conn (sock ?x)) = c_user (s_conn (sock x))" "s_db (sock ?x) = serve_all S qs (s_db (sock x))"
    "\<forall>q \<in> set qs. w_collate (fst q) = coll \<and> (q \<in> others \<or> request_user (snd q) = c_user (s_conn (sock x)) \<and> is_receipt (snd q))" by auto
  from Cons.IH [of ?x] Cons.prems u(1)
  obtain rs where "c_user (s_conn (sock (run_session py_repr S ops ?x))) = c_user (s_conn (sock x))"
    "s_db (sock (run_session py_repr S ops ?x)) = serve_all S rs (s_db (sock ?x))"
    "\<forall>q \<in> set rs. w_collate (fst q) = coll \<and> (q \<in> others \<or> request_user (snd q) = c_user (s_conn (sock x)) \<and> is_receipt (snd q))" by auto
  with u show ?case by (intro conjI exI [of _ "qs @ rs"]) auto
qed

section \<open>Close frames\<close>

definition frames_ok :: "session \<Rightarrow> bool" where
  "frames_ok x \<longleftrightarrow> (\<exists>fs. \<not> (\<exists>f \<in> set fs. is_close f) \<and>
     (frames x = fs \<and> (finished x \<longrightarrow> lost x) \<or> (\<exists>c. is_close c \<and> frames x = fs @ [c] \<and> ended x)))"

lemma frames_ok_step: "frames_ok x \<Longrightarrow> frames_ok (session_step py_repr S op x)"
proof -
  assume x: "frames_ok x"
  have same: "frames_ok y" if "frames y = frames x" "finished y = finished x" "lost x \<Longrightarrow> lost y" "ended x \<Longrightarrow> ended y" for y
    using x that by (auto simp: frames_ok_def)
  obtain now o' where op: "op = (now, o')" by (cases op)
  show ?thesis
  proof (cases o')
    case (Write good)
    show ?thesis
    proof (cases "finished x \<or> lost x \<or> (\<exists>f \<in> set (frames x). is_close f) \<or> writer (sock x) = None \<or> \<not> good")
      case True
      with op Write same show ?thesis by (auto split: option.splits)
    next
      case False
      then obtain f s where "writer (sock x) = Some (f, s)" "\<not> finished x" "\<not> (\<exists>f \<in> set (frames x). is_close f)" by auto
      with op Write False show ?thesis
        by (cases "is_close f") (auto simp: frames_ok_def intro: exI [of _ "frames x"] exI [of _ "frames x @ [f]"])
    qed
  next
    case Finish
    have "is_close (Close_frame CLOSE_NORMAL [])" by (simp add: is_close_def)
    with op Finish x show ?thesis
      by (auto simp: frames_ok_def)
  qed (use op same in \<open>auto split: sum.splits bool.splits prod.splits\<close>)
qed

lemma run_frames_ok: "frames_ok x \<Longrightarrow> frames_ok (run_session py_repr S ops x)"
  by (induction ops arbitrary: x) (simp_all add: frames_ok_step)

section \<open>The idle timeout\<close>

fun beat_times :: "(real \<times> session_op) list \<Rightarrow> real list" where
  "beat_times [] = []"
| "beat_times ((t, Beat stamp) # ops) = t # beat_times ops"
| "beat_times (_ # ops) = beat_times ops"

text \<open>Consecutive times, the first counted from \<open>a\<close>, are at most \<open>g\<close> apart.\<close>

fun gaps_within :: "real \<Rightarrow> real \<Rightarrow> real list \<Rightarrow> bool" where
  "gaps_within g a [] = True"
| "gaps_within g a (t # ts) = (t - a \<le> g \<and> gaps_within g t ts)"

lemma beat_in_window: "gaps_within g a ts \<Longrightarrow> a \<le> b \<Longrightarrow> \<exists>t \<in> set ts. b < t \<Longrightarrow> \<exists>t \<in> set ts. b < t \<and> t \<le> b + g"
proof (induction ts arbitrary: a)
  case (Cons t ts)
  show ?case
  proof (cases "b < t")
    case False
    with Cons show ?thesis by auto
  qed (use Cons.prems in auto)
qed simp

lemma beat_times_mem: "t \<in> set (beat_times ops) \<Longrightarrow> \<exists>stamp. (t, Beat stamp) \<in> set ops"
  by (induction ops rule: beat_times.induct) auto

definition silent :: "(real \<times> session_op) list \<Rightarrow> bool" where
  "silent ops \<longleftrightarrow> (\<forall>op \<in> set ops. case snd op of Receive w redis msg \<Rightarrow> False | _ \<Rightarrow> True)"

lemma silent_last_seen: "silent ops \<Longrightarrow> last_seen (sock (run_session py_repr S ops x)) = last_seen (sock x)"
proof (induction ops arbitrary: x)
  case (Cons op ops)
  obtain now o' where op: "op = (now, o')" by (cases op)
  have "last_seen (sock (session_step py_repr S op x)) = last_seen (sock x)"
    using Cons.prems op heartbeat_fields [of S now _ "sock x"] write_step(5) [of py_repr S now _ x]
    by (cases o') (auto simp: silent_def simp del: session_step.simps(3) split: prod.splits)
  moreover have "silent ops" using Cons.prems by (simp add: silent_def)
  ultimately show ?case using Cons.IH by simp
qed simp

lemma late_beat_ends:
  assumes "ws_idle_timeout_seconds S < t - last_seen (sock x)" "\<not> finished x"
  shows "ended (session_step py_repr S (t, Beat stamp) x)" "closing (s_conn (sock (session_step py_repr S (t, Beat stamp) x)))"
  using assms by (simp_all add: heartbeat_def close_def)

section \<open>Typing notices\<close>

definition member_conv :: "pystr \<Rightarrow> uuid \<Rightarrow> pystr \<Rightarrow> conversation list \<Rightarrow> bool" where
  "member_conv user cid peer cs \<longleftrightarrow> (\<exists>c \<in> set cs. conv_id c = cid \<and> user \<in> {user_a c, user_b c} \<and> peer = peer_of c user)"

definition notice_ok :: "pystr \<Rightarrow> conversation list \<Rightarrow> pystr \<times> pystr \<Rightarrow> bool" where
  "notice_ok user cs cmd \<longleftrightarrow> (\<exists>cid peer flag. member_conv user cid peer cs \<and> cmd = publish peer (typing_event cid user flag))"

definition typing_inv :: "(pystr \<Rightarrow> pystr \<Rightarrow> bool) \<Rightarrow> pystr \<Rightarrow> socket \<Rightarrow> bool" where
  "typing_inv coll user s \<longleftrightarrow> c_user (s_conn s) = user \<and> db_inv coll (s_db s) \<and>
     (\<forall>cid p. s_peers s cid = Some p \<longrightarrow> member_conv user cid p (conversations (s_db s))) \<and>
     (\<forall>cmd \<in> set (s_pushed s). notice_ok user (conversations (s_db s)) cmd)"

lemma member_conv_mono: "set cs \<subseteq> set cs' \<Longrightarrow> member_conv u cid p cs \<Longrightarrow> member_conv u cid p cs'"
  by (auto simp: member_conv_def)

lemma notice_ok_mono: "set cs \<subseteq> set cs' \<Longrightarrow> notice_ok u cs cmd \<Longrightarrow> notice_ok u cs' cmd"
  unfolding notice_ok_def using member_conv_mono by blast

lemma serve_conversations:
  assumes inv: "db_inv coll d" and w: "w_collate (fst q) = coll"
  shows "set (conversations d) \<subseteq> set (conversations (fst (serve S q d)))"
proof -
  obtain w c where q: "q = (w, c)" by (cases q)
  have i: "db_inv (w_collate w) (committed (begin_session d))" using inv w q by simp
  show ?thesis
  proof (cases c)
    case (Send u r)
    obtain x s' where x: "send_message w S u r (begin_session d) = (x, s')" by fastforce
    have "set (conversations d) \<subseteq> set (conversations (committed s'))"
      by (cases rule: send_message_cases [OF clean_begin i x])
        (auto simp: ends_replayed_def ends_failed_def ends_created_def)
    with x q Send show ?thesis by (simp add: serve_def)
  next
    case (Deliver u mid)
    obtain x s' where x: "mark_delivered w S u mid (begin_session d) = (x, s')" by fastforce
    have "conversations (committed s') = conversations d"
      by (cases rule: mark_delivered_cases [OF clean_begin i x]) (auto simp: ends_failed_def ends_delivered_def)
    with x q Deliver show ?thesis by (simp add: serve_def)
  next
    case (Read_up_to u cid up_to)
    obtain x s' where x: "mark_read w u cid up_to (begin_session d) = (x, s')" by fastforce
    have "conversations (committed s') = conversations d"
      by (cases rule: mark_read_cases [OF clean_begin i x]) (auto simp: ends_failed_def ends_read_def)
    with x q Read_up_to show ?thesis by (simp add: serve_def)
  qed
qed

lemma serve_all_conversations:
  "db_inv coll d \<Longrightarrow> \<forall>q \<in> set qs. w_collate (fst q) = coll \<Longrightarrow> set (conversations d) \<subseteq> set (conversations (serve_all S qs d))"
proof (induction qs arbitrary: d)
  case (Cons q qs)
  then have "db_inv coll (fst (serve S q d))" "set (conversations d) \<subseteq> set (conversations (fst (serve S q d)))"
    by (simp_all add: serve_inv serve_conversations)
  with Cons show ?case by auto
qed simp

lemma typing_inv_db:
  assumes "typing_inv coll user s" "\<forall>q \<in> set qs. w_collate (fst q) = coll"
    "c_user (s_conn s') = user" "s_db s' = serve_all S qs (s_db s)" "s_peers s' = s_peers s" "s_pushed s' = s_pushed s"
  shows "typing_inv coll user s'"
proof -
  have inv: "db_inv coll (s_db s)" using assms(1) by (simp add: typing_inv_def)
  note m = serve_all_conversations [OF inv assms(2), of S]
  show ?thesis using assms serve_all_inv [OF inv assms(2)] member_conv_mono [OF m] notice_ok_mono [OF m]
    by (simp add: typing_inv_def)
qed

text \<open>What a handler does to the cache and the commands: nothing, or what one typing event does.\<close>

definition typed :: "socket \<Rightarrow> socket \<Rightarrow> bool" where
  "typed s s' \<longleftrightarrow> s_db s' = s_db s \<and> (\<exists>cid peer flag.
     (s_peers s cid = Some peer \<or>
      (\<exists>c. get_conversation (c_user (s_conn s)) cid (begin_session (s_db s)) = Inr c \<and> peer = peer_of c (c_user (s_conn s)))) \<and>
     s_peers s' = (s_peers s)(cid \<mapsto> peer) \<and>
     (s_pushed s' = s_pushed s \<or> s_pushed s' = s_pushed s @ [publish peer (typing_event cid (c_user (s_conn s)) flag)]))"

lemma ws_typing_typed:
  "(s_peers (snd (ws_typing redis ev s)) = s_peers s \<and> s_pushed (snd (ws_typing redis ev s)) = s_pushed s) \<or>
     typed s (snd (ws_typing redis ev s))"
  by (auto simp: ws_typing_def typed_def Let_def map_sum_def split: sum.splits option.splits; metis)

lemma handle_typed:
  defines "keeps s s' \<equiv> s_peers s' = s_peers s \<and> s_pushed s' = s_pushed s"
  shows "keeps s (snd (handle py_repr w S redis ev s)) \<or> typed s (snd (handle py_repr w S redis ev s))"
proof -
  have g: "keeps s (snd (guard ref act s)) \<or> typed s (snd (guard ref act s))"
    if "keeps s (snd (act s)) \<or> typed s (snd (act s))" for ref act
    using that
    by (cases "act s") (auto simp: guard_def keeps_def typed_def ws_error_def split: sum.splits option.splits)
  have "keeps s (snd (ws_ack w S ev s))" "keeps s (snd (ws_read w ev s))"
    by (auto simp: keeps_def ws_ack_def ws_read_def split: sum.splits prod.splits)
  moreover have "keeps s (snd (ws_typing redis ev s)) \<or> typed s (snd (ws_typing redis ev s))"
    using ws_typing_typed unfolding keeps_def .
  moreover have "keeps s s" "keeps s (queue_event e s)" "keeps s (ws_error c m ref s)" for e c m ref
    by (simp_all add: keeps_def ws_error_def)
  ultimately show ?thesis
    unfolding handle_def Let_def by (simp add: g)
qed

lemma step_typed:
  "s_peers (sock (session_step py_repr S op x)) = s_peers (sock x) \<and> s_pushed (sock (session_step py_repr S op x)) = s_pushed (sock x) \<or>
   typed (sock x) (sock (session_step py_repr S op x))"
proof -
  obtain now o' where op: "op = (now, o')" by (cases op)
  show ?thesis
  proof (cases o')
    case (Receive w redis msg)
    obtain r t where r: "reader py_repr w S redis now msg (sock x) = (r, t)" by fastforce
    have "s_peers t = s_peers (sock x) \<and> s_pushed t = s_pushed (sock x) \<or> typed (sock x) t"
    proof (cases msg)
      case (Frame tx bs)
      let ?s = "(sock x)\<lparr>last_seen := now\<rparr>"
      show ?thesis
      proof (cases rule: reader_frame [where py_repr = py_repr and w = w and S = S and redis = redis and now = now and tx = tx and bs = bs and s = "sock x"])
        case (handled ev r' s2)
        then show ?thesis using r Frame handle_typed [where s = ?s and py_repr = py_repr and w = w and S = S and redis = redis and ev = ev]
          by (simp add: typed_def)
      qed (use r Frame in \<open>auto simp: ws_error_def\<close>)
    qed (use r in \<open>simp add: reader_def\<close>)
    then show ?thesis using r op Receive by (auto split: sum.splits bool.splits)
  next
    case (Beat stamp)
    then show ?thesis using op heartbeat_fields [of S now stamp "sock x"] by (auto split: prod.splits)
  next
    case (Write good)
    then show ?thesis using op by (simp add: write_step del: session_step.simps)
  qed (use op in auto)
qed

lemma typing_inv_step:
  assumes inv: "typing_inv coll user (sock x)" and op: "op_ok S coll others (snd op)"
  shows "typing_inv coll user (sock (session_step py_repr S op x))"
proof -
  let ?s = "sock x" and ?s' = "sock (session_step py_repr S op x)"
  obtain qs where qs: "c_user (s_conn ?s') = user" "s_db ?s' = serve_all S qs (s_db ?s)" "\<forall>q \<in> set qs. w_collate (fst q) = coll"
    using step_requests [where x = x and py_repr = py_repr, OF op] inv by (auto simp: typing_inv_def)
  from step_typed [of py_repr S op x] show ?thesis
  proof
    assume "s_peers ?s' = s_peers ?s \<and> s_pushed ?s' = s_pushed ?s"
    then show ?thesis using typing_inv_db [OF inv qs(3,1,2)] by simp
  next
    assume t: "typed ?s ?s'"
    then obtain cid peer flag where c: "s_peers ?s cid = Some peer \<or>
        (\<exists>c. get_conversation user cid (begin_session (s_db ?s)) = Inr c \<and> peer = peer_of c user)"
      "s_peers ?s' = (s_peers ?s)(cid \<mapsto> peer)"
      "s_pushed ?s' = s_pushed ?s \<or> s_pushed ?s' = s_pushed ?s @ [publish peer (typing_event cid user flag)]"
      using inv by (auto simp: typed_def typing_inv_def)
    have d: "s_db ?s' = s_db ?s" using t by (simp add: typed_def)
    have m: "member_conv user cid peer (conversations (s_db ?s))"
    proof (cases "s_peers ?s cid = Some peer")
      case True
      then show ?thesis using inv by (simp add: typing_inv_def)
    next
      case False
      then obtain c' where g: "get_conversation user cid (begin_session (s_db ?s)) = Inr c'" "peer = peer_of c' user" using c(1) by blast
      show ?thesis
        by (cases rule: get_conversation_cases [where u = user and cid = cid and s = "begin_session (s_db ?s)"])
          (use g in \<open>auto simp: member_conv_def begin_session_def\<close>)
    qed
    then have "notice_ok user (conversations (s_db ?s)) (publish peer (typing_event cid user flag))"
      by (auto simp: notice_ok_def)
    with m c(2,3) d qs(1) inv show ?thesis by (auto simp: typing_inv_def)
  qed
qed

lemma typing_inv_run:
  "typing_inv coll user (sock x) \<Longrightarrow> \<forall>op \<in> set ops. op_ok S coll others (snd op) \<Longrightarrow>
     typing_inv coll user (sock (run_session py_repr S ops x))"
proof (induction ops arbitrary: x)
  case (Cons op ops)
  then have "typing_inv coll user (sock (session_step py_repr S op x))" by (intro typing_inv_step [where others = others]) simp_all
  with Cons show ?case by simp
qed simp

section \<open>Properties\<close>

text \<open>
  C12. A socket can do no more than its user's receipts: through any run of a session, with any frames and
  any commits of other sessions in between, the tables are those after a sequence of requests each of
  which is one of the other sessions' or a receipt of the socket's own user, and they stay consistent.
\<close>

theorem socket_refines_requests:
  assumes "db_inv coll (s_db (sock x))" "\<forall>op \<in> set ops. op_ok S coll others (snd op)"
  shows "\<exists>qs. s_db (sock (run_session py_repr S ops x)) = serve_all S qs (s_db (sock x)) \<and>
    (\<forall>q \<in> set qs. q \<in> others \<or> request_user (snd q) = c_user (s_conn (sock x)) \<and> is_receipt (snd q)) \<and>
    db_inv coll (s_db (sock (run_session py_repr S ops x)))"
proof -
  obtain qs where "s_db (sock (run_session py_repr S ops x)) = serve_all S qs (s_db (sock x))"
    "\<forall>q \<in> set qs. w_collate (fst q) = coll \<and> (q \<in> others \<or> request_user (snd q) = c_user (s_conn (sock x)) \<and> is_receipt (snd q))"
    using run_requests [OF assms(2), of py_repr x] by blast
  then show ?thesis using serve_all_inv [OF assms(1), of qs S] by (intro exI [of _ qs]) auto
qed

text \<open>
  C29. The reader answers every frame but one that is nested too deep. Whatever a client sends short of a
  disconnect, and whatever the database, Redis or the operating system raise meanwhile, the frame counts
  as a sign of life and at most one event is queued in reply. The reader goes on, in particular after any
  text with at most 100 opening brackets; only where \<open>json.loads\<close> raises its \<open>RecursionError\<close>, as for
  any text that opens with more brackets than the interpreter takes, the exception ends it.
\<close>

theorem reader_survives_frames:
  assumes "\<forall>e. redis = Some e \<longrightarrow> e = RedisError \<or> is_oserror e"
    "\<forall>e. w_commit_error w = Some e \<longrightarrow> is_sqlalchemy e \<or> is_oserror e"
  shows "\<exists>r s'. reader py_repr w S redis now (Frame tx bs) s = (r, s') \<and> last_seen s' = now \<and>
    (s_conn s' = s_conn s \<or> (\<exists>e. s_conn s' = send_nowait e (s_conn s))) \<and>
    r = (if json_loads (w_spare w) (raw_text tx bs) = Inl RuntimeError then Inl RuntimeError else Inr True) \<and>
    (brackets (raw_text tx bs) \<le> 100 \<longrightarrow> r = Inr True) \<and>
    (\<forall>k rest. json_nesting (w_spare w) < k \<longrightarrow> raw_text tx bs = replicate k 91 @ rest \<longrightarrow>
       r = Inl RuntimeError \<and> s' = s\<lparr>last_seen := now\<rparr>)"
proof -
  have "guarded e" if "raised_outside w redis e" for e using that assms guarded_classes by (auto simp: raised_outside_def)
  then have ok: "r = Inr ()" if "ends_turn w redis r" for r using that by (auto simp: ends_turn_def)
  have few: "json_loads (w_spare w) (raw_text tx bs) \<noteq> Inl RuntimeError" if "brackets (raw_text tx bs) \<le> 100"
    using that by (intro json_loads_few) (simp add: json_nesting_def)
  note deep = json_loads_deep [of "w_spare w"]
  show ?thesis
  proof (cases rule: reader_frame [where py_repr = py_repr and w = w and S = S and redis = redis and now = now and tx = tx and bs = bs and s = s])
    case (handled ev r s2)
    have "r = Inr ()" "turn S w (s\<lparr>last_seen := now\<rparr>) s2" using handle_turn [of w redis py_repr S ev "s\<lparr>last_seen := now\<rparr>"] handled(2) ok by simp_all
    then show ?thesis using handled deep by (auto simp: turn_def)
  next
    case bad
    then show ?thesis using deep by (auto simp: ws_error_def)
  next
    case deep
    then show ?thesis using few by auto
  qed
qed

text \<open>
  C30. An idle socket is closed in time: with heartbeats at most \<open>g\<close> seconds apart and nothing received, a
  heartbeat within \<open>g\<close> seconds after the idle timeout has passed ends the session, and its connection
  is closing by then.
\<close>

theorem idle_socket_is_closed:
  assumes "silent ops" "gaps_within g (last_seen (sock x)) (beat_times ops)" "0 \<le> ws_idle_timeout_seconds S"
    "\<exists>t \<in> set (beat_times ops). last_seen (sock x) + ws_idle_timeout_seconds S < t"
    "\<not> finished (run_session py_repr S ops x)"
  shows "\<exists>pre t stamp post. ops = pre @ (t, Beat stamp) # post \<and>
    last_seen (sock x) + ws_idle_timeout_seconds S < t \<and> t \<le> last_seen (sock x) + ws_idle_timeout_seconds S + g \<and>
    ended (run_session py_repr S (pre @ [(t, Beat stamp)]) x) \<and>
    closing (s_conn (sock (run_session py_repr S (pre @ [(t, Beat stamp)]) x)))"
proof -
  let ?b = "last_seen (sock x) + ws_idle_timeout_seconds S"
  obtain t where t: "t \<in> set (beat_times ops)" "?b < t" "t \<le> ?b + g"
    using beat_in_window [OF assms(2) _ assms(4)] assms(3) by auto
  then obtain stamp pre post where ops: "ops = pre @ (t, Beat stamp) # post"
    using beat_times_mem split_list by metis
  let ?y = "run_session py_repr S pre x"
  have fin: "finished y \<Longrightarrow> finished (run_session py_repr S os y)" for os y
  proof (induction os arbitrary: y)
    case (Cons op os)
    have "finished (session_step py_repr S op y)"
      using Cons.prems by (cases "(py_repr, S, op, y)" rule: session_step.cases) auto
    with Cons.IH show ?case by simp
  qed simp
  have nf: "\<not> finished ?y" using fin [of ?y "(t, Beat stamp) # post"] assms(5) ops by auto
  have "silent pre" using assms(1) ops by (simp add: silent_def)
  then have "ws_idle_timeout_seconds S < t - last_seen (sock ?y)" using t(2) silent_last_seen [of pre py_repr S x] by simp
  from late_beat_ends [OF this nf] show ?thesis using ops t
    by (intro exI [of _ pre] exI [of _ t] exI [of _ stamp] exI [of _ post]) (simp del: session_step.simps)
qed

text \<open>
  C22. Typing notices reach the other member only: every notice a session publishes goes to the channel of
  the other member of a conversation its user belongs to, whatever the cache of peers holds by then.
\<close>

theorem typing_reaches_peer_only:
  assumes "db_inv coll d" "\<forall>op \<in> set ops. op_ok S coll others (snd op)"
    "y = run_session py_repr S ops (open_session (start_session S beat now i user d))" "(ch, tx) \<in> set (s_pushed (sock y))"
  shows "\<exists>c \<in> set (conversations (s_db (sock y))). user \<in> {user_a c, user_b c} \<and> peer_of c user \<in> {user_a c, user_b c} - {user} \<and>
    ch = user_channel (peer_of c user) \<and> (\<exists>flag. tx = dumps False (typing_event (conv_id c) user flag))"
proof -
  have "typing_inv coll user (sock (open_session (start_session S beat now i user d)))"
    using assms(1) by (simp add: typing_inv_def open_session_def start_session_def new_conn_def)
  from typing_inv_run [OF this assms(2)] have inv: "typing_inv coll user (sock y)" using assms(3) by simp
  then have "notice_ok user (conversations (s_db (sock y))) (ch, tx)" using assms(4) by (auto simp: typing_inv_def)
  then obtain c flag where c: "c \<in> set (conversations (s_db (sock y)))" "user \<in> {user_a c, user_b c}"
    "ch = user_channel (peer_of c user)" "tx = dumps False (typing_event (conv_id c) user flag)"
    by (auto simp: notice_ok_def member_conv_def publish_def)
  have "user_a c < user_b c" using inv c(1) by (simp add: typing_inv_def db_inv_def convs_inv_def)
  with c show ?thesis by (intro bexI [of _ c]) (auto simp: peer_of_def)
qed

text \<open>
  A session ends with one close frame: in any run of a new session at most one close frame is written
  and nothing after it, and a finished session has written one unless a write failed.
\<close>

theorem one_close_frame:
  assumes "y = run_session py_repr S ops (open_session s)"
  shows "\<exists>fs. (\<forall>f \<in> set fs. \<exists>tx. f = Text_frame tx) \<and>
    (frames y = fs \<and> (finished y \<longrightarrow> lost y) \<or> (\<exists>n reason. frames y = fs @ [Close_frame n reason] \<and> ended y))"
proof -
  have "frames_ok (open_session s)" by (simp add: frames_ok_def open_session_def)
  from run_frames_ok [OF this, of py_repr S ops] assms
  obtain fs where fs: "\<not> (\<exists>f \<in> set fs. is_close f)"
    "frames y = fs \<and> (finished y \<longrightarrow> lost y) \<or> (\<exists>c. is_close c \<and> frames y = fs @ [c] \<and> ended y)" by (auto simp: frames_ok_def)
  have "\<exists>tx. f = Text_frame tx" if "\<not> is_close f" for f using that by (cases f) (simp_all add: is_close_def)
  moreover have "\<exists>n reason. f = Close_frame n reason" if "is_close f" for f using that by (cases f) (simp_all add: is_close_def)
  ultimately show ?thesis using fs by (intro exI [of _ fs]) metis
qed

section \<open>Witnesses\<close>

lemma scalars_uuid_str [simp]: "scalars (uuid_str u)"
  by (auto simp: scalars_def scalar_def dest: uuid_str_range)

text \<open>Bob's session on the tables of the first message.\<close>

definition bobs_socket :: socket where
  "bobs_socket = start_session sample_settings (JInt 20) 0 1 bob hello_db"

lemma bobs_fields [simp]:
  "s_db bobs_socket = hello_db" "c_user (s_conn bobs_socket) = bob" "s_peers bobs_socket = (\<lambda>_. None)"
  "s_pushed bobs_socket = []" "last_seen bobs_socket = 0"
  by (simp_all add: bobs_socket_def start_session_def new_conn_def)

lemma hello_db_inv: "db_inv (<) hello_db"
  by (rule hello_sent)

definition typing_frame :: ws_message where
  "typing_frame = Frame (Some (dumps False (JObj [(lit ''type'', JStr (lit ''typing'')),
     (lit ''conversation_id'', JStr (uuid_str (uuid7 10000 1)))]))) None"

lemma typing_frame_result:
  "reader py_repr (at_second 20) sample_settings None 5 typing_frame bobs_socket =
     (Inr True, bobs_socket\<lparr>last_seen := 5, s_peers := [uuid7 10000 1 \<mapsto> alice],
        s_pushed := [publish alice (typing_event (uuid7 10000 1) bob True)]\<rparr>)"
proof -
  let ?ev = "[(lit ''type'', JStr (lit ''typing'')), (lit ''conversation_id'', JStr (uuid_str (uuid7 10000 1)))]"
  have raw: "raw_text (Some (dumps False (JObj ?ev))) None = dumps False (JObj ?ev)" by (simp add: raw_text_def)
  have ld: "json_loads n (dumps False (JObj ?ev)) = Inr (JObj ?ev)" for n
    by (rule json_loads_dumps) (simp_all add: json_nesting_def)
  have g: "get_conversation bob (uuid7 10000 1) (begin_session hello_db) = Inr hello_conversation"
    by (simp add: get_conversation_def begin_session_def hello_db_value hello_conversation_def)
  have p: "peer_of hello_conversation bob = alice"
    by (simp add: peer_of_def hello_conversation_def alice_def bob_def)
  have u: "uuid_field (lit ''conversation_id'') ?ev = Inr (uuid7 10000 1)" by (simp add: uuid_field_def)
  have "ws_typing None ?ev (bobs_socket\<lparr>last_seen := 5\<rparr>) = (Inr (), bobs_socket\<lparr>last_seen := 5, s_peers := [uuid7 10000 1 \<mapsto> alice],
      s_pushed := [publish alice (typing_event (uuid7 10000 1) bob True)]\<rparr>)"
    unfolding ws_typing_def u by (simp add: g p Let_def)
  then show ?thesis
    unfolding typing_frame_def reader_def
    by (simp add: raw ld handle_def get_or_null_def guard_def Let_def del: dumps.simps)
qed

theorem socket_refines_requests_witness:
  "\<exists>qs. s_db (sock (run_session (\<lambda>_. []) sample_settings [(5, Receive (at_second 20) None typing_frame)] (open_session bobs_socket))) =
      serve_all sample_settings qs hello_db \<and> (\<forall>q \<in> set qs. request_user (snd q) = bob)"
proof -
  have x: "sock (open_session bobs_socket) = bobs_socket" by (simp add: open_session_def)
  have o1: "\<forall>op \<in> set [(5, Receive (at_second 20) None typing_frame)]. op_ok sample_settings (<) {} (snd op)" by simp
  show ?thesis
    using socket_refines_requests [where x = "open_session bobs_socket" and coll = "(<)" and py_repr = "\<lambda>_. []", OF _ o1]
      hello_db_inv by (auto simp: x simp del: run_session_simps)
qed

theorem reader_survives_frames_witness:
  "(\<exists>s'. reader (\<lambda>_. []) (at_second 20) sample_settings (Some RedisError) 5 (Frame None (Some [255])) bobs_socket = (Inr True, s') \<and>
     last_seen s' = 5) \<and>
   reader (\<lambda>_. []) (at_second 20) sample_settings (Some RedisError) 5 (Frame (Some (replicate 101 91)) None) bobs_socket =
     (Inl RuntimeError, bobs_socket\<lparr>last_seen := 5\<rparr>)"
proof -
  have d: "brackets (raw_text None (Some [255])) \<le> 100" by (simp add: raw_text_def utf8_replace.simps(2) utf8_lead_def)
  have raw: "raw_text (Some t) None = replicate k 91 @ []" if "t = replicate k 91" "k \<noteq> 0" for t k
    using that by (simp add: raw_text_def)
  have n: "json_nesting (w_spare (at_second 20)) < k" if "k = 101" for k using that by (simp add: json_nesting_def at_second_def)
  have a: "\<forall>e. Some RedisError = Some e \<longrightarrow> e = RedisError \<or> is_oserror e"
    "\<forall>e. w_commit_error (at_second 20) = Some e \<longrightarrow> is_sqlalchemy e \<or> is_oserror e" by simp_all
  note w = reader_survives_frames [OF a, of "\<lambda>_. []" sample_settings 5 _ _ bobs_socket]
  have "reader (\<lambda>_. []) (at_second 20) sample_settings (Some RedisError) 5 (Frame (Some t) None) bobs_socket =
      (Inl RuntimeError, bobs_socket\<lparr>last_seen := 5\<rparr>)" if t: "t = replicate k 91" "k = 101" for t k
  proof -
    from w [of "Some t" None] obtain r s' where q: "reader (\<lambda>_. []) (at_second 20) sample_settings (Some RedisError) 5 (Frame (Some t) None) bobs_socket = (r, s')"
      "\<forall>k rest. json_nesting (w_spare (at_second 20)) < k \<longrightarrow> raw_text (Some t) None = replicate k 91 @ rest \<longrightarrow>
         r = Inl RuntimeError \<and> s' = bobs_socket\<lparr>last_seen := 5\<rparr>" by (elim exE conjE)
    have "k \<noteq> 0" using t(2) by simp
    from q(2) [rule_format, OF n [OF t(2)] raw [OF t(1) this]] show ?thesis by (simp add: q(1))
  qed
  moreover from w [of None "Some [255]"] d
  have "\<exists>s'. reader (\<lambda>_. []) (at_second 20) sample_settings (Some RedisError) 5 (Frame None (Some [255])) bobs_socket = (Inr True, s') \<and>
     last_seen s' = 5" by (elim exE conjE) simp
  ultimately show ?thesis by simp
qed

theorem idle_socket_is_closed_witness:
  "ended (run_session (\<lambda>_. []) sample_settings [(50, Beat (JInt 50)), (70, Beat (JInt 70))] (open_session bobs_socket))"
proof -
  let ?ops = "[(50, Beat (JInt 50)), (70, Beat (JInt 70))]" and ?x = "open_session bobs_socket"
  have i: "ws_idle_timeout_seconds sample_settings = 60" by (simp add: sample_settings_def default_settings_def)
  have l: "last_seen (sock ?x) = 0" by (simp add: open_session_def)
  have "\<not> finished (run_session (\<lambda>_. []) sample_settings ?ops ?x)"
    by (simp add: open_session_def split: prod.splits)
  from idle_socket_is_closed [OF _ _ _ _ this, of 50]
  obtain pre t stamp post where p: "?ops = pre @ (t, Beat stamp) # post" "60 < t"
    "ended (run_session (\<lambda>_. []) sample_settings (pre @ [(t, Beat stamp)]) ?x)"
    by (auto simp: silent_def i l simp del: run_session_simps run_session_append)
  then have "pre = [(50, Beat (JInt 50))]" "post = []" by (auto simp: Cons_eq_append_conv)
  with p show ?thesis by simp
qed

theorem typing_reaches_peer_only_witness:
  "\<exists>tx. s_pushed (sock (run_session (\<lambda>_. []) sample_settings [(5, Receive (at_second 20) None typing_frame)] (open_session bobs_socket))) =
     [(user_channel alice, tx)] \<and>
   (\<exists>c \<in> set (conversations hello_db). user_channel alice = user_channel (peer_of c bob))"
proof -
  let ?y = "run_session (\<lambda>_. []) sample_settings [(5, Receive (at_second 20) None typing_frame)] (open_session bobs_socket)"
  have y: "?y = (open_session bobs_socket)\<lparr>sock := bobs_socket\<lparr>last_seen := 5, s_peers := [uuid7 10000 1 \<mapsto> alice],
      s_pushed := [publish alice (typing_event (uuid7 10000 1) bob True)]\<rparr>\<rparr>"
    by (simp add: open_session_def typing_frame_result)
  have o1: "\<forall>op \<in> set [(5, Receive (at_second 20) None typing_frame)]. op_ok sample_settings (<) {} (snd op)" by simp
  have p: "(user_channel alice, dumps False (typing_event (uuid7 10000 1) bob True)) \<in> set (s_pushed (sock ?y))"
    unfolding y by (simp add: publish_def)
  have d: "s_db (sock ?y) = hello_db" unfolding y by simp
  from typing_reaches_peer_only [OF hello_db_inv o1 refl p [unfolded bobs_socket_def]] d [unfolded bobs_socket_def]
  show ?thesis unfolding y by (auto simp: publish_def)
qed

theorem one_close_frame_witness:
  "\<exists>fs. (\<forall>f \<in> set fs. \<exists>tx. f = Text_frame tx) \<and>
     frames (run_session (\<lambda>_. []) sample_settings [(70, Beat (JInt 70)), (71, Finish)] (open_session bobs_socket)) =
       fs @ [Close_frame 1000 []]"
proof -
  let ?y = "run_session (\<lambda>_. []) sample_settings [(70, Beat (JInt 70)), (71, Finish)] (open_session bobs_socket)"
  have "finished ?y" "\<not> lost ?y" "frames ?y = [Close_frame 1000 []]"
    by (simp_all add: open_session_def heartbeat_def sample_settings_def default_settings_def CLOSE_NORMAL_def)
  with one_close_frame [where y = ?y, OF refl] show ?thesis by (intro exI [of _ "[]"]) simp
qed

end
