(* ===== verification/System.thy ===== *)
theory System
  imports Ws_Props Hub_Props Relay_Props
begin

text \<open>
  The components together: the events the chat service commits are well-formed for the whole way, and a
  message that was sent reaches every connected device of its two parties through the outbox, Redis and
  the hub of each replica.
\<close>

section \<open>Well-formed events\<close>

text \<open>
  The texts that come from outside are Unicode text (pydantic refuses lone surrogates): of requests, of
  what signs URLs and writes datetimes, and of the allowed content types.
\<close>

definition text_world :: "world \<Rightarrow> bool" where
  "text_world w \<longleftrightarrow> (\<forall>t. scalars (w_dump_dt w t)) \<and> (\<forall>op bucket key expires. scalars key \<longrightarrow> scalars (w_sign w op bucket key expires))"

definition text_settings :: "settings \<Rightarrow> bool" where
  "text_settings S \<longleftrightarrow> (\<forall>t \<in> set (attachment_allowed_mime S). scalars t)"

definition text_send :: "send_request \<Rightarrow> bool" where
  "text_send r \<longleftrightarrow> scalars (req_recipient_id r) \<and> scalars (req_client_msg_id r) \<and> opt_all scalars (req_body r) \<and>
     opt_all scalars (req_attachment_key r)"

fun text_request :: "request \<Rightarrow> bool" where
  "text_request (Send u r) = (scalars u \<and> text_send r)"
| "text_request (Deliver u mid) = scalars u"
| "text_request (Read_up_to u cid up_to) = scalars u"

definition text_message :: "message \<Rightarrow> bool" where
  "text_message m \<longleftrightarrow> scalars (sender_id m) \<and> scalars (recipient_id m) \<and> scalars (client_msg_id m) \<and>
     opt_all scalars (body m) \<and> opt_all scalars (attachment_key m) \<and> opt_all scalars (attachment_mime m)"

text \<open>
  An event of the application: an object of a type and an object of data, with distinct keys, valid text
  and no deeper than any interpreter reads.
\<close>

definition event_ok :: "json \<Rightarrow> bool" where
  "event_ok p \<longleftrightarrow> wf_json p \<and> fits 100 p \<and> (\<exists>t kv. p = make_event t (JObj kv))"

definition row_ok :: "outbox_row \<Rightarrow> bool" where
  "row_ok r \<longleftrightarrow> event_ok (payload r) \<and> (\<exists>u. topic r = user_topic u)"

definition text_db :: "db \<Rightarrow> bool" where
  "text_db d \<longleftrightarrow> (\<forall>m \<in> set (messages d). text_message m) \<and> (\<forall>r \<in> set (outbox d). row_ok r)"

lemma scalars_isoformat [simp]: "scalars (isoformat t)"
  by (auto simp: scalars_def scalar_def dest: isoformat_chars)

lemma wf_jopt [simp]: "wf_json (jopt JStr x) \<longleftrightarrow> opt_all scalars x"
  by (cases x) (simp_all add: jopt_def opt_all_def)

lemma wf_jopt_date: "\<forall>t. scalars (f t) \<Longrightarrow> wf_json (jopt (\<lambda>d. JStr (f d)) x)"
  by (cases x) (simp_all add: jopt_def)

lemma event_ok_make: "scalars t \<Longrightarrow> wf_json (JObj kv) \<Longrightarrow> fits 99 (JObj kv) \<Longrightarrow> event_ok (make_event t (JObj kv))"
  by (auto simp: event_ok_def make_event_def)

lemma fits_mono: "fits d j \<Longrightarrow> d \<le> d' \<Longrightarrow> fits d' j"
proof (induction d j arbitrary: d' rule: fits.induct)
  case (2 d xs)
  then have "d - 1 \<le> d' - 1" by simp
  with 2 show ?case by auto
next
  case (3 d ps)
  then have "d - 1 \<le> d' - 1" by simp
  with 3 show ?case by auto
qed simp_all

lemma event_ok_loads: "event_ok p \<Longrightarrow> json_loads spare (dumps a p) = Inr p"
  by (intro json_loads_dumps) (auto simp: event_ok_def json_nesting_def intro: fits_mono)

lemma scalars_cursor: "scalars (encode_cursor t i)"
proof -
  let ?t = "isoformat t @ lit ''|'' @ uuid_str i"
  have a: "\<forall>c \<in> set ?t. c < 128" using cursor_text_ascii by blast
  have "c < 128" if "c \<in> set (rstrip_where (\<lambda>c. c = 61) (b64_encode ?t))" for c
  proof (rule b64_encode_ascii)
    show "\<forall>x \<in> set ?t. x < 256" using a by fastforce
    show "c \<in> set (b64_encode ?t)" using that by (auto simp: rstrip_where_def dest: set_dropWhileD)
  qed
  then show ?thesis by (fastforce simp: encode_cursor_def utf8_encode_ascii [OF a] Let_def scalars_def scalar_def)
qed

lemma scalars_status [simp]: "scalars (status_text s)"
  by (cases s) simp_all

lemma message_event_ok:
  assumes "text_message m" "text_world w"
  shows "event_ok (make_event (lit ''message.new'') (message_out_json (w_dump_dt w) (to_out w S m)))"
proof -
  have "opt_all scalars (out_attachment_url (to_out w S m))"
    using assms by (auto simp: to_out_def opt_all_def presign_download_def text_world_def text_message_def split: option.splits)
  then have "wf_json (message_out_json (w_dump_dt w) (to_out w S m))"
    using assms by (simp add: message_out_json_def wf_jopt_date text_world_def)
      (simp add: to_out_def text_message_def scalars_cursor)
  then show ?thesis unfolding message_out_json_def by (intro event_ok_make) simp_all
qed

lemma observe_event_ok: "event_ok p \<Longrightarrow> \<exists>lat. observe_latency now u p = Inr lat"
  by (auto simp: event_ok_def make_event_def observe_latency_def dict_get_def Let_def split: option.splits json.splits)

lemma text_flush:
  assumes "text_db d" "\<forall>e \<in> set ps. event_ok (snd e) \<and> (\<exists>u. fst e = user_topic u)"
  shows "text_db (flush t ps d)"
proof -
  have "row_ok r" if "r \<in> set (outbox_rows t n ps)" for r n
    using that assms(2) by (induction ps arbitrary: n) (auto 0 3 simp: row_ok_def)
  then show ?thesis using assms(1) by (auto simp: text_db_def flush_def)
qed

lemma text_new_message:
  "scalars u \<Longrightarrow> text_send r \<Longrightarrow> opt_all scalars mime \<Longrightarrow> text_message (new_message w u r mime cid)"
  by (simp add: text_message_def text_send_def)

lemma prepared_mime:
  "send_prepare w S u r s = (Inr (Proceed mime), s') \<Longrightarrow> text_settings S \<Longrightarrow> opt_all scalars mime"
  by (auto simp: send_prepare_def check_attachment_def text_settings_def opt_all_def
      split: if_splits sum.splits option.splits prod.splits)

lemma text_created:
  assumes "text_db (committed s)" "text_message m" "text_world w" "ends_created w S s m tab s'"
  shows "text_db (committed s')"
proof -
  have "text_db ((committed s)\<lparr>conversations := tab, messages := messages (committed s) @ [m]\<rparr>)"
    using assms(1,2) by (auto simp: text_db_def)
  moreover have "\<forall>e \<in> set (new_events w S m). event_ok (snd e) \<and> (\<exists>u. fst e = user_topic u)"
    using message_event_ok [OF assms(2,3), of S] by (auto simp: new_events_def Let_def)
  ultimately show ?thesis using assms(4) by (simp add: ends_created_def text_flush)
qed

lemma text_send_message:
  assumes inv: "db_inv (w_collate w) d" and t: "text_db d" "text_settings S" "text_world w" "scalars u" "text_send r"
    and eq: "send_message w S u r (begin_session d) = (res, s')"
  shows "text_db (committed s')"
proof -
  obtain p s1 where p: "send_prepare w S u r (begin_session d) = (p, s1)" by fastforce
  show ?thesis
  proof (cases rule: send_prepare_cases [OF clean_begin p])
    case 1
    with p eq t(1) show ?thesis by (auto simp: send_message_def ends_failed_def)
  next
    case 2
    with p eq t(1) show ?thesis by (auto simp: send_message_def ends_replayed_def ends_failed_def)
  next
    case (3 mime)
    then have m: "opt_all scalars mime" using prepared_mime [OF _ t(2)] p by simp
    from 3 p eq have i: "send_insert w S u r mime (begin_session d) = (res, s')" by (simp add: send_message_def)
    have inv': "db_inv (w_collate w) (committed (begin_session d))" using inv by simp
    show ?thesis
    proof (cases rule: send_insert_cases [OF clean_begin inv' 3(3) i])
      case (3 cid tab)
      from text_created [OF _ text_new_message [OF t(4,5) m] t(3) 3(2)] t(1) show ?thesis by simp
    qed (use t(1) in \<open>auto simp: ends_replayed_def ends_failed_def\<close>)
  qed
qed

lemma text_serve:
  assumes inv: "db_inv coll d" and w: "w_collate (fst q) = coll"
    and t: "text_db d" "text_settings S" "text_world (fst q)" "text_request (snd q)"
  shows "text_db (fst (serve S q d))"
proof -
  obtain w c where q: "q = (w, c)" by (cases q)
  have i: "db_inv (w_collate w) (committed (begin_session d))" using inv w q by simp
  show ?thesis
  proof (cases c)
    case (Send u r)
    obtain x s' where x: "send_message w S u r (begin_session d) = (x, s')" by fastforce
    with text_send_message [OF _ t(1,2) _ _ _ x] i t(3,4) q Send show ?thesis by (simp add: serve_def)
  next
    case (Deliver u mid)
    obtain x s' where x: "mark_delivered w S u mid (begin_session d) = (x, s')" by fastforce
    have "text_db (committed s')"
    proof (cases rule: mark_delivered_cases [OF clean_begin i x])
      case (3 m)
      have "text_message m" using 3(2) t(1) by (simp add: text_db_def)
      then have "\<forall>e \<in> set (delivered_events w m). event_ok (snd e) \<and> (\<exists>u. fst e = user_topic u)"
        by (auto simp: delivered_events_def text_message_def intro!: event_ok_make)
      moreover have "text_db (d\<lparr>messages := map (\<lambda>x. if x = m then set_delivered (w_now w) x else x) (messages d)\<rparr>)"
        using t(1) by (auto simp: text_db_def text_message_def set_delivered_def)
      ultimately show ?thesis using 3(6) by (simp add: ends_delivered_def text_flush)
    qed (use t(1) in \<open>auto simp: ends_failed_def\<close>)
    with x q Deliver show ?thesis by (simp add: serve_def)
  next
    case (Read_up_to u cid up_to)
    obtain x s' where x: "mark_read w u cid up_to (begin_session d) = (x, s')" by fastforce
    have "text_db (committed s')"
    proof (cases rule: mark_read_cases [OF clean_begin i x])
      case (3 conv anchor ids)
      have "\<forall>e \<in> set (read_events w conv u ids'). event_ok (snd e) \<and> (\<exists>u. fst e = user_topic u)" for ids'
        using t(4) q Read_up_to by (auto simp: read_events_def intro!: event_ok_make)
      moreover have "text_db (d\<lparr>messages := map (\<lambda>m. if to_read u (conv_id conv) (message_key anchor) m
          then set_read (w_now w) m else m) (messages d)\<rparr>)"
        using t(1) by (auto simp: text_db_def text_message_def set_read_def)
      ultimately show ?thesis using 3 by (auto simp: ends_read_def text_flush)
    qed (use t(1) in \<open>auto simp: ends_failed_def\<close>)
    with x q Read_up_to show ?thesis by (simp add: serve_def)
  qed
qed

lemma text_serve_all:
  "db_inv coll d \<Longrightarrow> text_db d \<Longrightarrow> text_settings S \<Longrightarrow>
     \<forall>q \<in> set qs. w_collate (fst q) = coll \<and> text_world (fst q) \<and> text_request (snd q) \<Longrightarrow> text_db (serve_all S qs d)"
proof (induction qs arbitrary: d)
  case (Cons q qs)
  then have "db_inv coll (fst (serve S q d))" "text_db (fst (serve S q d))"
    by (simp_all add: serve_inv text_serve [where coll = coll])
  with Cons show ?case by simp
qed simp

section \<open>From the outbox to the sockets\<close>

text \<open>The commands Redis hands to a replica: those on the channels it is subscribed to, in order.\<close>

definition redis_fanout :: "(pystr \<times> pystr) list \<Rightarrow> hub \<Rightarrow> (pystr \<times> pystr) list" where
  "redis_fanout cmds h = filter (\<lambda>(ch, tx). ch \<in> subscribed h) cmds"

text \<open>The turns of \<open>Hub._run\<close> that dispatch them.\<close>

fun deliver_all :: "nat \<Rightarrow> int \<Rightarrow> (pystr \<times> pystr) list \<Rightarrow> hub \<Rightarrow> exn + hub" where
  "deliver_all spare now [] h = Inr h"
| "deliver_all spare now ((ch, tx) # cmds) h =
     (case dispatch spare now (Some ch) tx h of
        Inl e \<Rightarrow> Inl e
      | Inr (h', lat) \<Rightarrow> deliver_all spare now cmds h')"

lemma topic_channel_user: "topic_channel (user_topic u) = user_channel u"
  by (simp add: topic_channel_def user_topic_def user_channel_def CHANNEL_PREFIX_def)

text \<open>The events of a list of rows for one user, in order.\<close>

definition events_for :: "pystr \<Rightarrow> outbox_row list \<Rightarrow> json list" where
  "events_for u rows = map payload (filter (\<lambda>r. topic r = user_topic u) rows)"

lemma user_topic_inject [simp]: "user_topic u = user_topic v \<longleftrightarrow> u = v"
  by (simp add: user_topic_def)

lemma deliver_rows:
  assumes "hub_inv h" "\<forall>r \<in> set rows. row_ok r"
    and "\<forall>u. user_channel u \<in> S \<longleftrightarrow> conns_of h u \<noteq> []"
  shows "\<exists>h'. deliver_all spare now (filter (\<lambda>(ch, tx). ch \<in> S) (map command_of rows)) h = Inr h' \<and> hub_inv h' \<and>
    (\<forall>i c u. conns h i = Some c \<longrightarrow> c_user c = u \<longrightarrow>
       conns h' i = Some (if i \<in> set (conns_of h u) then fold send_nowait (events_for u rows) c else c))"
  using assms
proof (induction rows arbitrary: h)
  case Nil
  then show ?case by (simp add: events_for_def)
next
  case (Cons r rows)
  obtain v where v: "topic r = user_topic v" and ev: "event_ok (payload r)" using Cons.prems(2) by (auto simp: row_ok_def)
  have ch: "command_of r = (user_channel v, dumps True (payload r))" by (simp add: command_of_def v topic_channel_user)
  have reg: "c_user c = u" if "i \<in> set (conns_of h u)" "conns h i = Some c" for i u c
    using Cons.prems(1) conns_of_registered [of h u] that by (auto simp: hub_inv_def)
  have skip: "events_for u (r # rows) = events_for u rows" if "u \<noteq> v" for u using that by (simp add: events_for_def v)
  have hit: "events_for v (r # rows) = payload r # events_for v rows" by (simp add: events_for_def v)
  show ?case
  proof (cases "user_channel v \<in> S")
    case False
    then have "conns_of h v = []" using Cons.prems(3) by auto
    moreover from Cons.IH [OF Cons.prems(1) _ Cons.prems(3)] Cons.prems(2)
    obtain h' where h': "deliver_all spare now (filter (\<lambda>(ch, tx). ch \<in> S) (map command_of rows)) h = Inr h'" "hub_inv h'"
      "\<forall>i c u. conns h i = Some c \<longrightarrow> c_user c = u \<longrightarrow>
         conns h' i = Some (if i \<in> set (conns_of h u) then fold send_nowait (events_for u rows) c else c)" by auto
    ultimately show ?thesis using False skip
      by (intro exI [of _ h']) (simp add: ch, metis empty_iff list.set(1))
  next
    case True
    note ld = event_ok_loads [OF ev, of spare True]
    obtain lat where "observe_latency now v (payload r) = Inr lat" using observe_event_ok [OF ev] by blast
    from dispatch_user [OF Cons.prems(1) ld this] obtain h1 lat' where
      d: "dispatch spare now (Some (user_channel v)) (dumps True (payload r)) h = Inr (h1, lat')" and l: "local_conns h1 = local_conns h"
      and c1: "\<forall>i. conns h1 i = (if i \<in> set (conns_of h v) then map_option (send_nowait (payload r)) (conns h i) else conns h i)"
      by blast
    have co: "conns_of h1 u = conns_of h u" for u by (simp add: conns_of_def l)
    have inv1: "hub_inv h1" by (rule dispatch_inv [OF Cons.prems(1) d])
    obtain h' where h': "deliver_all spare now (filter (\<lambda>(ch, tx). ch \<in> S) (map command_of rows)) h1 = Inr h'" "hub_inv h'"
      "\<forall>i c u. conns h1 i = Some c \<longrightarrow> c_user c = u \<longrightarrow>
         conns h' i = Some (if i \<in> set (conns_of h1 u) then fold send_nowait (events_for u rows) c else c)"
      using Cons.IH [OF inv1] Cons.prems(2,3) co by auto
    have "conns h' i = Some (if i \<in> set (conns_of h u) then fold send_nowait (events_for u (r # rows)) c else c)"
      if c: "conns h i = Some c" "c_user c = u" for i c u
    proof (cases "u = v \<and> i \<in> set (conns_of h v)")
      case True
      then have "conns h1 i = Some (send_nowait (payload r) c)" using c c1 by simp
      with h'(3) True c show ?thesis by (simp add: co hit)
    next
      case False
      then have "i \<notin> set (conns_of h v)" using reg c by auto
      then have "conns h1 i = Some c" using c c1 by simp
      with h'(3) False c show ?thesis by (cases "u = v") (simp_all add: co skip)
    qed
    then show ?thesis using True h' by (intro exI [of _ h']) (simp add: ch d)
  qed
qed

lemma settled_hub:
  assumes "hub_step\<^sup>*\<^sup>* (new_hub replica) h" "listening h" "requests h = []"
  shows "hub_inv h" "user_channel u \<in> subscribed h \<longleftrightarrow> conns_of h u \<noteq> []"
proof -
  show inv: "hub_inv h" by (rule hub_system.reachable_inv [OF refl assms(1)])
  have "user_channel u \<in> subscribed h \<longleftrightarrow> u \<in> set (local_users h)"
    using hub_system.reachable_safe [OF refl assms(1)] assms(2,3) by (simp add: hub_safe_def)
  with inv show "user_channel u \<in> subscribed h \<longleftrightarrow> conns_of h u \<noteq> []" by (simp add: local_users_iff hub_inv_def)
qed

text \<open>After a send on an empty backlog, the waiting rows are the two new ones.\<close>

lemma waiting_new:
  assumes "backlog d = 0" "outbox d' = outbox d @ outbox_rows t n [(a, p), (b, q)]"
  shows "waiting (outbox d') = outbox_rows t n [(a, p), (b, q)]"
proof -
  have "filter (\<lambda>r. published_at r = None) (outbox d) = []" using assms(1) by (simp add: backlog_def)
  then show ?thesis unfolding waiting_def filter_sort assms(2) by simp
qed

lemma send_rows:
  assumes "db_inv (w_collate w) d" "send_message w S sender r (begin_session d) = (Inr (out, True), s')"
  defines "ev \<equiv> make_event (lit ''message.new'') (message_out_json (w_dump_dt w) out)"
  shows "outbox (committed s') = outbox d @
      outbox_rows (w_now w) (outbox_seq d) [(user_topic (req_recipient_id r), ev), (user_topic sender, ev)]"
    "req_recipient_id r \<noteq> sender"
proof -
  have i: "db_inv (w_collate w) (committed (begin_session d))" using assms(1) by simp
  show "outbox (committed s') = outbox d @
      outbox_rows (w_now w) (outbox_seq d) [(user_topic (req_recipient_id r), ev), (user_topic sender, ev)]"
    by (cases rule: send_message_cases [OF clean_begin i assms(2)])
      (auto simp: ends_created_def flush_def new_events_def Let_def ev_def)
  show "req_recipient_id r \<noteq> sender" using assms(2) by (auto simp: send_message_def send_prepare_def)
qed

section \<open>The life of a socket in the registry\<close>

lemma fold_send_to_kept:
  "conns h i = Some c \<Longrightarrow> \<exists>c'. conns (fold (send_to e) ids h) i = Some c' \<and> c_user c' = c_user c"
proof (induction ids arbitrary: h c)
  case (Cons j ids)
  obtain c1 where c1: "conns (send_to e j h) i = Some c1" "c_user c1 = c_user c"
    using Cons.prems by (cases "i = j") (simp_all add: send_to_def)
  from Cons.IH [OF c1(1)] c1(2) show ?case by simp
qed simp

lemma hub_step_keeps_conn:
  assumes "hub_step h h'" "conns h i = Some c"
  shows "\<exists>c'. conns h' i = Some c' \<and> c_user c' = c_user c"
  using assms(1)
proof (cases rule: hub_step.cases)
  case (unregister j d)
  then show ?thesis using assms(2) by (auto simp: unregister_def request_def Let_def)
next
  case (receive spare now channel data lat)
  then obtain e ids where "h' = h \<or> h' = fold (send_to e) ids h"
    by (auto simp: dispatch_def Let_def split: option.splits if_splits sum.splits)
  then show ?thesis using fold_send_to_kept [OF assms(2)] assms(2) by auto
next
  case (apply_fails outcomes e h1 slept)
  then show ?thesis using assms(2)
    by (auto simp: apply_requests_def connection_lost_def release_waiters_def split: prod.splits if_splits)
next
  case (take_next j)
  then show ?thesis using assms(2)
    by (cases "next_event c"; cases "i = j") (auto simp: take_next_def dest: next_event_fields)
qed (use assms(2) in \<open>auto simp: register_fields resubscribe_def apply_requests_def connection_lost_def release_waiters_def
    send_to_def close_in_def split: prod.splits if_splits option.splits\<close>)

lemma hub_steps_keep_conn:
  "hub_step\<^sup>*\<^sup>* h h' \<Longrightarrow> conns h i = Some c \<Longrightarrow> \<exists>c'. conns h' i = Some c' \<and> c_user c' = c_user c"
proof (induction rule: rtranclp_induct)
  case (step h1 h2)
  then obtain c1 where "conns h1 i = Some c1" "c_user c1 = c_user c" by blast
  with hub_step_keeps_conn [OF step(2)] show ?case by fastforce
qed simp

lemma unregister_removes:
  assumes "hub_inv h" "conns h (c_id c) = Some c'" "c_user c' = c_user c"
  shows "c_id c \<notin> set (conns_of (unregister c h) v)"
proof (cases "c_id c \<in> set (conns_of h (c_user c))")
  case True
  note f = unregister_fields(1) [OF True refl]
  have "c_id c \<notin> set (conns_of h v)" if "v \<noteq> c_user c"
    using conns_of_registered [of h v] assms that by (fastforce simp: hub_inv_def)
  then show ?thesis
    using f by (auto simp: conns_of_def dict_get_set dict_get_del split: option.splits if_splits)
next
  case False
  have "c_id c \<notin> set (conns_of h v)" if "v \<noteq> c_user c"
    using conns_of_registered [of h v] assms that by (fastforce simp: hub_inv_def)
  then show ?thesis using False by (cases "v = c_user c") (simp_all add: unregister_fields(2))
qed

section \<open>Properties\<close>

text \<open>
  C21. Only verified users are registered, and only while their socket lives: a socket is either closed
  with 4401 and the registry left as it was, or its token verified as a user and the connection is
  registered for exactly that user; after it ended, whatever happened to the hub meanwhile, it is
  registered for nobody.
\<close>

theorem only_verified_users_register:
  assumes "hub_step\<^sup>*\<^sup>* (new_hub replica) h" "conns h i = None"
    "chat_socket lib now S header query i h = (a, conn, h1)" "hub_step\<^sup>*\<^sup>* h1 h2"
  shows "case a of
    Admitted u \<Rightarrow> (\<exists>t. fst (websocket_token header query) = Some t \<and> verify lib now S t = Inr u) \<and>
      conn = Some (new_conn i u) \<and> (\<forall>v. i \<in> set (conns_of h1 v) \<longleftrightarrow> v = u) \<and>
      (\<forall>v. i \<notin> set (conns_of (chat_socket_ends (new_conn i u) h2) v))
  | Rejected n reason \<Rightarrow> n = 4401 \<and> reason \<in> {lit ''missing token'', lit ''invalid_token''} \<and> conn = None \<and> h1 = h
  | Crashed e \<Rightarrow> False"
proof -
  have inv: "hub_inv h" by (rule hub_system.reachable_inv [OF refl assms(1)])
  have adm: "snd (admit lib now S header query) = a" using assms(3) by (auto simp: chat_socket_def split: admission.splits)
  show ?thesis
  proof (cases a)
    case (Rejected n reason)
    then show ?thesis using adm assms(3) verified_user_is_claim [where lib = lib and now = now and s = S and token = "the (fst (websocket_token header query))"]
      by (auto simp: chat_socket_def admit_def CLOSE_UNAUTHORIZED_def Let_def split: prod.splits if_splits sum.splits exn.splits)
  next
    case (Crashed e)
    then show ?thesis using adm verified_user_is_claim [where lib = lib and now = now and s = S and token = "the (fst (websocket_token header query))"]
      by (auto simp: admit_def Let_def split: prod.splits if_splits sum.splits exn.splits)
  next
    case (Admitted u)
    have v: "\<exists>t. fst (websocket_token header query) = Some t \<and> verify lib now S t = Inr u"
      using adm Admitted by (auto simp: admit_def Let_def split: prod.splits if_splits sum.splits exn.splits)
    have h1: "h1 = register (new_conn i u) h" and c: "conn = Some (new_conn i u)"
      using assms(3) adm Admitted by (auto simp: chat_socket_def)
    have s1: "hub_step h h1" unfolding h1 by (rule hub_step.register [OF assms(2)])
    have i2: "hub_inv h2"
      by (rule hub_system.reachable_inv [OF refl rtranclp_trans [OF rtranclp.rtrancl_into_rtrancl [OF assms(1) s1] assms(4)]])
    have c1: "conns h1 i = Some (new_conn i u)" by (simp add: h1 register_fields)
    have "i \<notin> set (conns_of h v)" for v
      using conns_of_registered [of h v] inv assms(2) by (auto simp: hub_inv_def)
    then have "i \<in> set (conns_of h1 v) \<longleftrightarrow> v = u" for v
      by (auto simp: h1 conns_of_def register_fields dict_get_set split: option.splits)
    moreover obtain c' where "conns h2 i = Some c'" "c_user c' = u" using hub_steps_keep_conn [OF assms(4) c1] by auto
    then have "i \<notin> set (conns_of (chat_socket_ends (new_conn i u) h2) v)" for v
      using unregister_removes [OF i2, of "new_conn i u" c'] by (simp add: chat_socket_ends_def)
    ultimately show ?thesis using v c Admitted by simp
  qed
qed

text \<open>
  C14. Every event the application commits is well-formed for its whole way: after any requests, each
  outbox row is for a user's topic, its payload survives the text of the Redis channel unchanged, within
  every limit of the interpreter that reads it, and the hub dispatches it without an error.
\<close>

theorem outbox_events_well_formed:
  assumes "\<forall>q \<in> set qs. w_collate (fst q) = coll \<and> text_world (fst q) \<and> text_request (snd q)" "text_settings S"
    "row \<in> set (outbox (serve_all S qs empty_db))"
  shows "(\<exists>u. topic row = user_topic u) \<and> (\<exists>t kv. payload row = make_event t (JObj kv)) \<and>
    loads (dumps True (payload row)) = Some (payload row) \<and> json_loads spare (dumps True (payload row)) = Inr (payload row) \<and>
    (\<exists>lat. observe_latency now u (payload row) = Inr lat)"
proof -
  have "text_db empty_db" by (simp add: text_db_def empty_db_def)
  from text_serve_all [OF empty_db_inv this assms(2,1)] have r: "row_ok row" using assms(3) by (simp add: text_db_def)
  then have "loads (dumps True (payload row)) = Some (payload row)" by (simp add: row_ok_def event_ok_def loads_dumps)
  with r observe_event_ok [of "payload row" now u] event_ok_loads [of "payload row" spare True]
  show ?thesis by (auto simp: row_ok_def event_ok_def)
qed

text \<open>
  A batch of the relay reaches the sockets in order: on a replica whose subscriptions are settled,
  whatever other channels the batch names, each connected socket is sent exactly the events of its
  user's rows, in the order of the outbox, and the dispatch loop does not fail.
\<close>

theorem batch_reaches_sockets:
  assumes "hub_step\<^sup>*\<^sup>* (new_hub replica) h" "listening h" "requests h = []" "text_db d"
    "publish_batch n locked t Published d = (Inr k, d', cmds)"
    "conns h i = Some c" "i \<in> set (conns_of h (c_user c))"
  shows "\<exists>h'. deliver_all spare now (redis_fanout cmds h) h = Inr h' \<and>
    conns h' i = Some (fold send_nowait (events_for (c_user c) (select_batch n locked (outbox d))) c)"
proof -
  have cmds: "cmds = map command_of (select_batch n locked (outbox d))"
    using assms(5) by (auto simp: publish_batch_def Let_def split: if_splits)
  have rows: "\<forall>r \<in> set (select_batch n locked (outbox d)). row_ok r"
    using assms(4) select_batch_props(1) [of n locked "outbox d"] by (auto simp: text_db_def)
  note h = settled_hub [OF assms(1-3)]
  from deliver_rows [OF h(1) rows, of "subscribed h" spare now] h(2) assms(6,7)
  show ?thesis unfolding redis_fanout_def cmds by fastforce
qed

text \<open>
  C3. A message reaches every connected device of both parties: a send that creates, published by one
  cycle of a relay that was up to date, queues the \<open>message.new\<close> event with exactly the returned message
  on each registered socket of the recipient and of the sender, on every settled replica.
\<close>

theorem message_reaches_devices:
  assumes "db_inv (w_collate w) d" "text_db d" "text_settings S" "text_world w" "scalars sender" "text_send r"
    "send_message w S sender r (begin_session d) = (Inr (out, True), s')"
    "backlog d = 0" "2 \<le> n" "publish_batch n [] t Published (committed s') = (Inr k, d', cmds)"
    "hub_step\<^sup>*\<^sup>* (new_hub replica) h" "listening h" "requests h = []"
    "conns h i = Some c" "i \<in> set (conns_of h (c_user c))" "c_user c \<in> {req_recipient_id r, sender}"
  shows "\<exists>h'. deliver_all spare now (redis_fanout cmds h) h = Inr h' \<and>
    conns h' i = Some (send_nowait (make_event (lit ''message.new'') (message_out_json (w_dump_dt w) out)) c) \<and> k = 2"
proof -
  let ?ev = "make_event (lit ''message.new'') (message_out_json (w_dump_dt w) out)"
  let ?new = "outbox_rows (w_now w) (outbox_seq d) [(user_topic (req_recipient_id r), ?ev), (user_topic sender, ?ev)]"
  note sr = send_rows [OF assms(1,7)]
  have sel: "select_batch n [] (outbox (committed s')) = ?new"
    using waiting_new [OF assms(8) sr(1)] assms(9) by (simp add: select_waiting)
  have cmds: "cmds = map command_of ?new" and k: "k = 2"
    using assms(10) by (auto simp: publish_batch_def sel Let_def)
  have rows: "\<forall>r \<in> set ?new. row_ok r"
    using text_send_message [OF assms(1-7)] sr(1) by (simp add: text_db_def)
  have ev: "events_for (c_user c) ?new = [?ev]" using assms(16) sr(2) by (auto simp: events_for_def)
  note h = settled_hub [OF assms(11-13)]
  from deliver_rows [OF h(1) rows, of "subscribed h" spare now] h(2) assms(14,15)
  show ?thesis unfolding redis_fanout_def cmds using ev k by fastforce
qed

section \<open>Witnesses\<close>

theorem only_verified_users_register_witness:
  "\<exists>h1. chat_socket plain_jwt 1000 (default_settings []) None
      (Some (mint_token plain_jwt 900 (lit ''bob'') [] 3600 (lit ''sub'') None None)) 7 (new_hub []) =
        (Admitted (lit ''bob''), Some (new_conn 7 (lit ''bob'')), h1) \<and> 7 \<in> set (conns_of h1 (lit ''bob''))"
proof -
  let ?t = "mint_token plain_jwt 900 (lit ''bob'') [] 3600 (lit ''sub'') None None"
  have b: "user_id_ok (lit ''bob'')" by (simp add: user_id_ok_def user_id_char_def lit_Cons)
  have "wf_json (JObj (mint_claims 900 (lit ''bob'') 3600 (lit ''sub'') None None))"
    by (rule mint_claims_wf) (simp_all add: user_id_ok_scalars b sub_claim(2))
  with minted_verifies [OF plain_jwt_lawful, of "default_settings []" "lit ''bob''" 900 3600 1000] b sub_claim(1)
  have v: "verify plain_jwt 1000 (default_settings []) ?t = Inr (lit ''bob'')" by simp
  have "?t \<noteq> []" by (simp add: mint_token_def plain_jwt_def)
  then have "snd (admit plain_jwt 1000 (default_settings []) None (Some ?t)) = Admitted (lit ''bob'')"
    using v by (simp add: admit_def websocket_token_def)
  then have s: "chat_socket plain_jwt 1000 (default_settings []) None (Some ?t) 7 (new_hub []) =
      (Admitted (lit ''bob''), Some (new_conn 7 (lit ''bob'')), register (new_conn 7 (lit ''bob'')) (new_hub []))"
    by (simp add: chat_socket_def)
  have n: "conns (new_hub []) 7 = None" by (simp add: new_hub_def)
  from only_verified_users_register [OF rtranclp.rtrancl_refl n s rtranclp.rtrancl_refl] s show ?thesis by simp
qed

lemma sample_texts [simp]: "text_settings sample_settings" "text_world (at_second n)" "scalars alice" "scalars bob" "text_send hello"
  by (simp_all add: text_settings_def sample_settings_def default_settings_def DEFAULT_ALLOWED_MIME_def text_world_def
      at_second_def alice_def bob_def text_send_def hello_def opt_all_def)

lemma hello_sent_out:
  obtains out s' where "send_message (at_second 10) sample_settings alice hello (begin_session empty_db) = (Inr (out, True), s')"
    "committed s' = hello_db"
  by (rule hello_sent)

lemma hello_rows:
  obtains ev where "outbox hello_db = outbox_rows (noon 10) 1 [(user_topic bob, ev), (user_topic alice, ev)]"
proof -
  obtain out s' where s: "send_message (at_second 10) sample_settings alice hello (begin_session empty_db) = (Inr (out, True), s')"
    "committed s' = hello_db" by (rule hello_sent_out)
  have "req_recipient_id hello = bob" by (simp add: hello_def)
  then show ?thesis
    using that send_rows(1) [OF empty_db_inv s(1)] s(2) by (simp add: empty_db_def)
qed

theorem outbox_events_well_formed_witness:
  "\<exists>row. row \<in> set (outbox (serve_all sample_settings [(at_second 10, Send alice hello)] empty_db)) \<and>
     loads (dumps True (payload row)) = Some (payload row)"
proof -
  have d: "serve_all sample_settings [(at_second 10, Send alice hello)] empty_db = hello_db"
    by (simp add: serve_def Let_def hello_db_def)
  obtain ev where "outbox hello_db = outbox_rows (noon 10) 1 [(user_topic bob, ev), (user_topic alice, ev)]" by (rule hello_rows)
  then obtain row where r: "row \<in> set (outbox hello_db)" by auto
  have q: "\<forall>q \<in> set [(at_second 10, Send alice hello)]. w_collate (fst q) = (<) \<and> text_world (fst q) \<and> text_request (snd q)"
    by simp
  from outbox_events_well_formed [OF q sample_texts(1) r [folded d]] r d show ?thesis by metis
qed

lemma hello_published:
  obtains k d' cmds where "publish_batch 10 [] (noon 11) Published hello_db = (Inr k, d', cmds)"
proof -
  have "distinct (map ob_id (outbox hello_db))" using hello_db_inv by (simp add: db_inv_def outbox_inv_def)
  from publish_batch_ok [OF this, of 10 "noon 11"] that show ?thesis by auto
qed

lemma bobs_hub: "conns sample_hub 1 = Some (new_conn 1 bob)" "1 \<in> set (conns_of sample_hub (c_user (new_conn 1 bob)))"
  using sample_hub_value(3,4) by (simp_all add: bob_def)

theorem batch_reaches_sockets_witness:
  "\<exists>cmds h'. deliver_all 0 0 (redis_fanout cmds sample_hub) sample_hub = Inr h' \<and>
     conns h' 1 = Some (fold send_nowait (events_for bob (select_batch 10 [] (outbox hello_db))) (new_conn 1 bob))"
proof -
  obtain k d' cmds where p: "publish_batch 10 [] (noon 11) Published hello_db = (Inr k, d', cmds)" by (rule hello_published)
  have "text_db empty_db" by (simp add: text_db_def empty_db_def)
  then have t: "text_db hello_db"
    using text_serve_all [OF empty_db_inv _ sample_texts(1), of "[(at_second 10, Send alice hello)]" "(<)"]
    by (simp add: serve_def Let_def hello_db_def)
  from batch_reaches_sockets [where now = 0 and spare = 0, OF sample_hub_reachable sample_hub_value(1,2) t p bobs_hub] show ?thesis by auto
qed

theorem message_reaches_devices_witness:
  "\<exists>out cmds h'. deliver_all 0 0 (redis_fanout cmds sample_hub) sample_hub = Inr h' \<and>
     conns h' 1 = Some (send_nowait (make_event (lit ''message.new'') (message_out_json isoformat out)) (new_conn 1 bob))"
proof -
  obtain out s' where s: "send_message (at_second 10) sample_settings alice hello (begin_session empty_db) = (Inr (out, True), s')"
    "committed s' = hello_db" by (rule hello_sent_out)
  obtain k d' cmds where p: "publish_batch 10 [] (noon 11) Published (committed s') = (Inr k, d', cmds)"
    using hello_published s(2) by metis
  have t: "text_db empty_db" "backlog empty_db = 0" by (simp_all add: text_db_def empty_db_def backlog_def)
  have r: "c_user (new_conn 1 bob) \<in> {req_recipient_id hello, alice}" by (simp add: hello_def new_conn_def)
  have "w_dump_dt (at_second 10) = isoformat" by (simp add: at_second_def)
  with message_reaches_devices [where now = 0 and spare = 0, OF empty_db_inv t(1) sample_texts(1) sample_texts(2) sample_texts(3) sample_texts(5) s(1) t(2) _ p
      sample_hub_reachable sample_hub_value(1,2) bobs_hub r]
  show ?thesis by auto
qed

end
