(* ===== verification/Cluster.thy ===== *)
theory Cluster
  imports System
begin

text \<open>
  The whole deployment as one transition system: the shared tables, the hub of each replica, the
  commands Redis still has to hand to each pub/sub connection, and the sessions of all sockets, driven
  by REST requests, frames, relay cycles, dispatch, heartbeats, writers and failures in any order.
\<close>

section \<open>State\<close>

text \<open>
  Replicas and connections are numbered. The connection object of a socket is the one its hub holds;
  \<open>cl_peers\<close> and \<open>cl_seen\<close> are the rest of its session, \<open>cl_frames\<close> the frames written to the client.
\<close>

record cluster =
  cl_db :: db
  cl_hub :: "nat \<Rightarrow> hub"
  cl_wire :: "nat \<Rightarrow> (pystr \<times> pystr) list"
  cl_peers :: "nat \<Rightarrow> nat \<Rightarrow> uuid \<Rightarrow> pystr option"
  cl_seen :: "nat \<Rightarrow> nat \<Rightarrow> real"
  cl_frames :: "nat \<Rightarrow> nat \<Rightarrow> ws_frame list"

definition cluster_start :: "(nat \<Rightarrow> pystr) \<Rightarrow> cluster" where
  "cluster_start names = \<lparr>cl_db = empty_db, cl_hub = (\<lambda>r. new_hub (names r)), cl_wire = (\<lambda>r. []),
     cl_peers = (\<lambda>r i cid. None), cl_seen = (\<lambda>r i. 0), cl_frames = (\<lambda>r i. [])\<rparr>"

text \<open>Redis appends a published command for every replica subscribed to its channel at that moment.\<close>

definition redis_publish :: "(pystr \<times> pystr) list \<Rightarrow> cluster \<Rightarrow> cluster" where
  "redis_publish cmds cl = cl\<lparr>cl_wire := (\<lambda>r. cl_wire cl r @ redis_fanout cmds (cl_hub cl r))\<rparr>"

definition set_hub :: "nat \<Rightarrow> hub \<Rightarrow> cluster \<Rightarrow> cluster" where
  "set_hub r h cl = cl\<lparr>cl_hub := (cl_hub cl)(r := h)\<rparr>"

definition put_conn :: "nat \<Rightarrow> conn \<Rightarrow> hub \<Rightarrow> hub" where
  "put_conn i c h = h\<lparr>conns := (conns h)(i \<mapsto> c)\<rparr>"

text \<open>The session of a socket as \<open>Ws\<close> sees it, and the effect of one turn of it on the cluster.\<close>

definition session_of :: "cluster \<Rightarrow> nat \<Rightarrow> nat \<Rightarrow> conn \<Rightarrow> socket" where
  "session_of cl r i c = \<lparr>s_conn = c, s_peers = cl_peers cl r i, last_seen = cl_seen cl r i, s_db = cl_db cl,
     s_pushed = [], s_woken = 0\<rparr>"

definition after_turn :: "nat \<Rightarrow> nat \<Rightarrow> socket \<Rightarrow> cluster \<Rightarrow> cluster" where
  "after_turn r i s cl =
     redis_publish (s_pushed s)
       (set_hub r (put_conn i (s_conn s) (cl_hub cl r)) cl
          \<lparr>cl_db := s_db s, cl_peers := (cl_peers cl)(r := (cl_peers cl r)(i := s_peers s)),
           cl_seen := (cl_seen cl)(r := (cl_seen cl r)(i := last_seen s))\<rparr>)"

section \<open>Steps\<close>

text \<open>What the pub/sub loop of a hub does of itself, and how it loses its connection.\<close>

inductive loop_step :: "hub \<Rightarrow> hub \<Rightarrow> bool" where
  resubscribed: "\<not> listening h \<Longrightarrow> loop_step h (resubscribe h)"
| requests_applied: "listening h \<Longrightarrow> apply_requests outcomes h = (None, h') \<Longrightarrow> loop_step h h'"

inductive loop_lost :: "hub \<Rightarrow> hub \<Rightarrow> bool" where
  while_applying: "listening h \<Longrightarrow> apply_requests outcomes h = (Some e, h1) \<Longrightarrow>
    connection_lost e h1 = Some (h', slept) \<Longrightarrow> loop_lost h h'"
| while_waiting: "connection_lost e h = Some (h', slept) \<Longrightarrow> loop_lost h h'"

text \<open>
  The steps of the cluster, for a JWT library, settings, a collation and \<open>repr\<close>. Redis, the database and
  the network may fail at every call; messages on the wire are lost with the pub/sub connection. The
  relation allows more than the code does: tasks of a socket may take turns after its session has ended.
\<close>

inductive cluster_step ::
  "'k jwt_lib \<Rightarrow> settings \<Rightarrow> (pystr \<Rightarrow> pystr \<Rightarrow> bool) \<Rightarrow> (json \<Rightarrow> pystr) \<Rightarrow> cluster \<Rightarrow> cluster \<Rightarrow> bool"
  for lib S coll py_repr
where
  rest_call: "w_collate w = coll \<Longrightarrow> text_world w \<Longrightarrow> text_request q \<Longrightarrow>
    cluster_step lib S coll py_repr cl (cl\<lparr>cl_db := fst (serve S (w, q) (cl_db cl))\<rparr>)"
| connect: "conns (cl_hub cl r) i = None \<Longrightarrow>
    chat_socket lib now S header query i (cl_hub cl r) = (Admitted u, Some c, h) \<Longrightarrow>
    cluster_step lib S coll py_repr cl
      (after_turn r i (start_session S beat seen i u (cl_db cl)) (set_hub r h cl))"
| disconnect: "conns (cl_hub cl r) i = Some c \<Longrightarrow>
    cluster_step lib S coll py_repr cl (set_hub r (chat_socket_ends c (cl_hub cl r)) cl)"
| frame: "conns (cl_hub cl r) i = Some c \<Longrightarrow> w_collate w = coll \<Longrightarrow> text_world w \<Longrightarrow>
    reader py_repr w S redis now msg (session_of cl r i c) = (res, s) \<Longrightarrow>
    cluster_step lib S coll py_repr cl (after_turn r i s cl)"
| beat: "conns (cl_hub cl r) i = Some c \<Longrightarrow> heartbeat S now stamp (session_of cl r i c) = (goes_on, s) \<Longrightarrow>
    cluster_step lib S coll py_repr cl (after_turn r i s cl)"
| wrote: "conns (cl_hub cl r) i = Some c \<Longrightarrow> writer (session_of cl r i c) = Some (f, s) \<Longrightarrow>
    cluster_step lib S coll py_repr cl
      ((after_turn r i s cl)\<lparr>cl_frames := (cl_frames cl)(r := (cl_frames cl r)(i := cl_frames cl r i @ [f]))\<rparr>)"
| relay_cycle: "publish_batch n locked t fin (cl_db cl) = (res, d, cmds) \<Longrightarrow>
    cluster_step lib S coll py_repr cl (redis_publish cmds (cl\<lparr>cl_db := d\<rparr>))"
| relay_sweep: "cluster_step lib S coll py_repr cl (cl\<lparr>cl_db := sweep cutoff (cl_db cl)\<rparr>)"
| receive: "listening (cl_hub cl r) \<Longrightarrow> cl_wire cl r = (ch, tx) # rest \<Longrightarrow>
    dispatch spare now (Some ch) tx (cl_hub cl r) = Inr (h, lat) \<Longrightarrow>
    cluster_step lib S coll py_repr cl ((set_hub r h cl)\<lparr>cl_wire := (cl_wire cl)(r := rest)\<rparr>)"
| loop: "loop_step (cl_hub cl r) h \<Longrightarrow> cluster_step lib S coll py_repr cl (set_hub r h cl)"
| loop_lost: "loop_lost (cl_hub cl r) h \<Longrightarrow>
    cluster_step lib S coll py_repr cl ((set_hub r h cl)\<lparr>cl_wire := (cl_wire cl)(r := [])\<rparr>)"
| stop: "cluster_step lib S coll py_repr cl (set_hub r (stop (cl_hub cl r)) cl)"

section \<open>What an event is about\<close>

text \<open>The conversation the data of an event names, if any; and whether a user may see the event.\<close>

definition about :: "json \<Rightarrow> pystr option" where
  "about e =
     (case e of
        JObj ev \<Rightarrow>
          (case dict_get (lit ''data'') ev of
             Some (JObj kv) \<Rightarrow> (case dict_get (lit ''conversation_id'') kv of Some (JStr t) \<Rightarrow> Some t | _ \<Rightarrow> None)
           | _ \<Rightarrow> None)
      | _ \<Rightarrow> None)"

text \<open>Events about the socket itself, with no data of a conversation.\<close>

definition local_event :: "json \<Rightarrow> bool" where
  "local_event e \<longleftrightarrow> about e = None \<and>
     (\<exists>t rest. e = JObj ((lit ''type'', JStr t) # rest) \<and> t \<in> {lit ''hello'', lit ''ping'', lit ''pong'', lit ''error''})"

definition event_for :: "conversation list \<Rightarrow> pystr \<Rightarrow> json \<Rightarrow> bool" where
  "event_for cs u e \<longleftrightarrow>
     (case about e of
        None \<Rightarrow> local_event e
      | Some t \<Rightarrow> \<exists>c \<in> set cs. uuid_str (conv_id c) = t \<and> u \<in> {user_a c, user_b c})"

lemma event_for_mono: "set cs \<subseteq> set cs' \<Longrightarrow> event_for cs u e \<Longrightarrow> event_for cs' u e"
  unfolding event_for_def by (auto split: option.splits)

lemma about_make_event [simp]:
  "about (make_event t (JObj kv)) = (case dict_get (lit ''conversation_id'') kv of Some (JStr t) \<Rightarrow> Some t | _ \<Rightarrow> None)"
  by (simp add: about_def make_event_def)

lemma local_events [simp]:
  "local_event (hello_event S beat u)"
  "local_event (JObj [(lit ''type'', JStr (lit ''pong'')), (lit ''ref'', ref)])"
  "local_event (JObj [(lit ''type'', JStr (lit ''ping'')), (lit ''ts'', stamp)])"
  "local_event (JObj [(lit ''type'', JStr (lit ''error'')), (lit ''ref'', ref),
     (lit ''data'', JObj [(lit ''code'', JStr c), (lit ''message'', JStr m)])])"
  by (simp_all add: local_event_def about_def hello_event_def)

lemma about_typing [simp]: "about (typing_event cid u b) = Some (uuid_str cid)"
  by (simp add: about_def typing_event_def)

section \<open>The invariant\<close>

definition rows_about :: "db \<Rightarrow> bool" where
  "rows_about d \<longleftrightarrow> (\<forall>row \<in> set (outbox d). \<forall>u. topic row = user_topic u \<longrightarrow> event_for (conversations d) u (payload row))"

definition wire_ok :: "conversation list \<Rightarrow> pystr \<times> pystr \<Rightarrow> bool" where
  "wire_ok cs cmd \<longleftrightarrow> (\<exists>u e. fst cmd = user_channel u \<and> json_loads 0 (snd cmd) = Inr e \<and> event_for cs u e)"

definition conn_ok :: "'k jwt_lib \<Rightarrow> settings \<Rightarrow> conversation list \<Rightarrow> conn \<Rightarrow> bool" where
  "conn_ok lib S cs c \<longleftrightarrow> (\<exists>now header query. snd (admit lib now S header query) = Admitted (c_user c)) \<and>
     (\<forall>e. Event e \<in> set (queue c) \<longrightarrow> event_for cs (c_user c) e)"

definition frame_ok :: "conversation list \<Rightarrow> pystr \<Rightarrow> ws_frame \<Rightarrow> bool" where
  "frame_ok cs u f \<longleftrightarrow> (\<forall>tx. f = Text_frame tx \<longrightarrow> (\<exists>e. tx = dumps False e \<and> event_for cs u e))"

text \<open>A place for a connection: free, with nothing written, or taken by one that may see what it got.\<close>

definition slot_ok ::
  "'k jwt_lib \<Rightarrow> settings \<Rightarrow> conversation list \<Rightarrow> conn option \<Rightarrow> (uuid \<Rightarrow> pystr option) \<Rightarrow> ws_frame list \<Rightarrow> bool"
where
  "slot_ok lib S cs slot peers fs \<longleftrightarrow>
     (case slot of
        None \<Rightarrow> fs = []
      | Some c \<Rightarrow> conn_ok lib S cs c \<and> (\<forall>f \<in> set fs. frame_ok cs (c_user c) f) \<and>
          (\<forall>cid p. peers cid = Some p \<longrightarrow> member_conv (c_user c) cid p cs))"

definition replica_ok :: "'k jwt_lib \<Rightarrow> settings \<Rightarrow> conversation list \<Rightarrow> cluster \<Rightarrow> nat \<Rightarrow> bool" where
  "replica_ok lib S cs cl r \<longleftrightarrow>
     hub_inv (cl_hub cl r) \<and> (\<forall>cmd \<in> set (cl_wire cl r). wire_ok cs cmd) \<and>
     (\<forall>i. slot_ok lib S cs (conns (cl_hub cl r) i) (cl_peers cl r i) (cl_frames cl r i))"

definition tables_ok :: "(pystr \<Rightarrow> pystr \<Rightarrow> bool) \<Rightarrow> db \<Rightarrow> bool" where
  "tables_ok coll d \<longleftrightarrow> db_inv coll d \<and> text_db d \<and> rows_about d"

definition cluster_inv :: "'k jwt_lib \<Rightarrow> settings \<Rightarrow> (pystr \<Rightarrow> pystr \<Rightarrow> bool) \<Rightarrow> cluster \<Rightarrow> bool" where
  "cluster_inv lib S coll cl \<longleftrightarrow> tables_ok coll (cl_db cl) \<and> (\<forall>r. replica_ok lib S (conversations (cl_db cl)) cl r)"

end
