(* ===== verification/Cluster_Props.thy ===== *)
theory Cluster_Props
  imports Cluster
begin

text \<open>
  The invariant of the deployment, one preservation lemma per step, and what it gives: a socket is
  opened by a verified token, and whatever it is sent names only conversations of its user.
\<close>

section \<open>Tables\<close>

lemma member_event_for:
  "c \<in> set cs \<Longrightarrow> u \<in> {user_a c, user_b c} \<Longrightarrow> about e = Some (uuid_str (conv_id c)) \<Longrightarrow> event_for cs u e"
  by (auto simp: event_for_def)

lemma rows_about_flush:
  assumes "rows_about d0" "outbox d = outbox d0" "set (conversations d0) \<subseteq> set (conversations d)"
    "\<forall>(tp, e) \<in> set ps. \<forall>u. tp = user_topic u \<longrightarrow> event_for (conversations d) u e"
  shows "rows_about (flush t ps d)"
proof -
  have "row \<in> set (outbox_rows t n ps) \<Longrightarrow> (topic row, payload row) \<in> set ps" for row n
  proof (induction ps arbitrary: n)
    case (Cons p ps)
    then show ?case by (cases p) auto
  qed simp
  then show ?thesis using assms event_for_mono [OF assms(3)]
    unfolding rows_about_def flush_def by fastforce
qed

lemma party_event_for:
  assumes "parties_ok cs m" "u \<in> {sender_id m, recipient_id m}" "about e = Some (uuid_str (conversation_id m))"
  shows "event_for cs u e"
proof -
  obtain c where "c \<in> set cs" "conv_id c = conversation_id m" "{sender_id m, recipient_id m} = {user_a c, user_b c}"
    using assms(1) by (auto simp: parties_ok_def)
  then show ?thesis using assms(2,3) by (intro member_event_for [of c]) auto
qed

lemma about_message_new: "about (make_event t (message_out_json f (to_out w S m))) = Some (uuid_str (conversation_id m))"
  by (simp add: message_out_json_def to_out_def)

lemma stored_parties: "db_inv coll d \<Longrightarrow> m \<in> set (messages d) \<Longrightarrow> parties_ok (conversations d) m"
  by (simp add: db_inv_def msgs_inv_def)

lemma rows_about_serve:
  assumes inv: "db_inv coll d" and w: "w_collate (fst q) = coll" and r: "rows_about d"
  shows "rows_about (fst (serve S q d))"
proof -
  obtain w c where q: "q = (w, c)" by (cases q)
  have i: "db_inv (w_collate w) (committed (begin_session d))" using inv w q by simp
  show ?thesis
  proof (cases c)
    case (Send u rq)
    obtain x s' where x: "send_message w S u rq (begin_session d) = (x, s')" by fastforce
    have "rows_about (committed s')"
    proof (cases rule: send_message_cases [OF clean_begin i x])
      case (3 mime cid tab)
      let ?m = "new_message w u rq mime cid"
      have p: "parties_ok tab ?m"
        using 3(2) stored_parties [of "w_collate w" "committed s'" ?m] by (auto simp: ends_created_def)
      have "rows_about (flush (w_now w) (new_events w S ?m) (d\<lparr>conversations := tab, messages := messages d @ [?m]\<rparr>))"
        by (rule rows_about_flush [OF r])
          (use 3(2) party_event_for [OF p] about_message_new in \<open>auto simp: ends_created_def new_events_def Let_def\<close>)
      then show ?thesis using 3(2) by (simp add: ends_created_def)
    qed (use r in \<open>auto simp: ends_failed_def ends_replayed_def\<close>)
    with x q Send show ?thesis by (simp add: serve_def)
  next
    case (Deliver u mid)
    obtain x s' where x: "mark_delivered w S u mid (begin_session d) = (x, s')" by fastforce
    have "rows_about (committed s')"
    proof (cases rule: mark_delivered_cases [OF clean_begin i x])
      case (3 m)
      then have p: "parties_ok (conversations d) m" using stored_parties inv by simp
      have "rows_about (flush (w_now w) (delivered_events w m)
          (d\<lparr>messages := map (\<lambda>x. if x = m then set_delivered (w_now w) x else x) (messages d)\<rparr>))"
        by (rule rows_about_flush [OF r]) (use party_event_for [OF p] in \<open>auto simp: delivered_events_def\<close>)
      then show ?thesis using 3(6) by (simp add: ends_delivered_def)
    qed (use r in \<open>auto simp: ends_failed_def\<close>)
    with x q Deliver show ?thesis by (simp add: serve_def)
  next
    case (Read_up_to u cid up_to)
    obtain x s' where x: "mark_read w u cid up_to (begin_session d) = (x, s')" by fastforce
    have "rows_about (committed s')"
    proof (cases rule: mark_read_cases [OF clean_begin i x])
      case (3 conv anchor ids)
      have "event_for (conversations d) (peer_of conv u) e" if "about e = Some (uuid_str (conv_id conv))" for e
        by (rule member_event_for [of conv]) (use 3(4) that in \<open>auto simp: peer_of_def\<close>)
      then have "rows_about (flush (w_now w) (read_events w conv u ids) (d\<lparr>messages :=
          map (\<lambda>m. if to_read u (conv_id conv) (message_key anchor) m then set_read (w_now w) m else m) (messages d)\<rparr>))"
        by (intro rows_about_flush [OF r]) (auto simp: read_events_def)
      then show ?thesis using 3 by (simp add: ends_read_def)
    qed (use r in \<open>auto simp: ends_failed_def\<close>)
    with x q Read_up_to show ?thesis by (simp add: serve_def)
  qed
qed

lemma tables_ok_serve:
  assumes "tables_ok coll d" "w_collate w = coll" "text_world w" "text_request q" "text_settings S"
  shows "tables_ok coll (fst (serve S (w, q) d))" "set (conversations d) \<subseteq> set (conversations (fst (serve S (w, q) d)))"
  using assms serve_inv [of coll d "(w, q)" S] text_serve [of coll d "(w, q)" S] rows_about_serve [of coll d "(w, q)" S]
    serve_conversations [of coll d "(w, q)" S]
  by (simp_all add: tables_ok_def)

text \<open>Changes of the outbox that keep topics and payloads.\<close>

lemma tables_ok_outbox:
  assumes "tables_ok coll d" "distinct (map ob_id obs)"
    "\<And>row. row \<in> set obs \<Longrightarrow> \<exists>x \<in> set (outbox d). ob_id x = ob_id row \<and> topic x = topic row \<and> payload x = payload row"
  shows "tables_ok coll (d\<lparr>outbox := obs\<rparr>)"
proof -
  have "db_inv coll (d\<lparr>outbox := obs\<rparr>)"
    using assms by (fastforce simp: tables_ok_def db_inv_def outbox_inv_def)
  moreover have "text_db (d\<lparr>outbox := obs\<rparr>)"
    using assms unfolding tables_ok_def text_db_def row_ok_def by simp metis
  moreover have "rows_about (d\<lparr>outbox := obs\<rparr>)"
    using assms unfolding tables_ok_def rows_about_def by simp metis
  ultimately show ?thesis by (simp add: tables_ok_def)
qed

lemma tables_ok_publish:
  assumes "tables_ok coll d" "publish_batch n locked t fin d = (res, d', cmds)"
  shows "tables_ok coll d'" "conversations d' = conversations d" "\<forall>cmd \<in> set cmds. wire_ok (conversations d) cmd"
proof -
  have ids: "distinct (map ob_id (outbox d))" using assms(1) by (simp add: tables_ok_def db_inv_def outbox_inv_def)
  have "tables_ok coll (d\<lparr>outbox := mark_published t sel (outbox d)\<rparr>)" for sel
    by (rule tables_ok_outbox [OF assms(1)]) (use ids in simp, force simp: mark_published_def)
  then show "tables_ok coll d'" "conversations d' = conversations d"
    using assms by (auto simp: publish_batch_def Let_def split: if_splits publish_end.splits)
  have "wire_ok (conversations d) (command_of row)" if row: "row \<in> set (outbox d)" for row
  proof -
    have ok: "row_ok row" using row assms(1) by (simp add: tables_ok_def text_db_def)
    then obtain u where u: "topic row = user_topic u" by (auto simp: row_ok_def)
    have "json_loads 0 (dumps True (payload row)) = Inr (payload row)" using ok by (simp add: row_ok_def event_ok_loads)
    moreover have "event_for (conversations d) u (payload row)" using row u assms(1) by (simp add: tables_ok_def rows_about_def)
    ultimately show ?thesis by (auto simp: wire_ok_def command_of_def u topic_channel_user)
  qed
  moreover have "set cmds \<subseteq> command_of ` set (outbox d)"
    using assms(2) select_batch_props(1) [of n locked "outbox d"]
    by (fastforce simp: publish_batch_def Let_def split: if_splits publish_end.splits dest: in_set_takeD)
  ultimately show "\<forall>cmd \<in> set cmds. wire_ok (conversations d) cmd" by auto
qed

lemma tables_ok_sweep:
  assumes a: "tables_ok coll d"
  shows "tables_ok coll (sweep cutoff d) \<and> conversations (sweep cutoff d) = conversations d"
proof -
  have "distinct (map ob_id (outbox d))" using a by (simp add: tables_ok_def db_inv_def outbox_inv_def)
  then have "tables_ok coll (d\<lparr>outbox := filter p (outbox d)\<rparr>)" for p
    by (intro tables_ok_outbox [OF a] distinct_map_filter) auto
  then show ?thesis by (simp add: sweep_def)
qed

section \<open>Hubs\<close>

lemma conn_ok_send: "conn_ok lib S cs c \<Longrightarrow> event_for cs (c_user c) e \<Longrightarrow> conn_ok lib S cs (send_nowait e c)"
  by (auto simp: conn_ok_def send_nowait_def close_def)

lemma conn_ok_close: "conn_ok lib S cs c \<Longrightarrow> conn_ok lib S cs (close n reason c)"
  by (auto simp: conn_ok_def close_def)

lemma conn_ok_mono: "set cs \<subseteq> set cs' \<Longrightarrow> conn_ok lib S cs c \<Longrightarrow> conn_ok lib S cs' c"
  using event_for_mono unfolding conn_ok_def by blast

lemma event_for_local: "local_event e \<Longrightarrow> event_for cs u e"
  by (simp add: event_for_def local_event_def)

lemma event_for_typing:
  "member_conv user cid peer cs \<Longrightarrow> event_for cs peer (typing_event cid user b) \<and> event_for cs user (typing_event cid user b)"
  by (auto simp: event_for_def member_conv_def peer_of_def)

text \<open>A hub whose connections stay where they are, with their users, and as good as they were.\<close>

definition kept :: "'k jwt_lib \<Rightarrow> settings \<Rightarrow> conversation list \<Rightarrow> hub \<Rightarrow> hub \<Rightarrow> bool" where
  "kept lib S cs h h' \<longleftrightarrow> hub_inv h' \<and>
     (\<forall>i. conns h' i = None \<longleftrightarrow> conns h i = None) \<and>
     (\<forall>i c'. conns h' i = Some c' \<longrightarrow>
        (\<exists>c. conns h i = Some c \<and> c_user c' = c_user c \<and> (conn_ok lib S cs c \<longrightarrow> conn_ok lib S cs c')))"

lemma kept_same: "hub_inv h' \<Longrightarrow> conns h' = conns h \<Longrightarrow> kept lib S cs h h'"
  by (simp add: kept_def)

lemma kept_trans: "kept lib S cs h h' \<Longrightarrow> kept lib S cs h' h'' \<Longrightarrow> kept lib S cs h h''"
  unfolding kept_def by metis

lemma kept_update:
  assumes "hub_inv h'" "conns h' = (conns h)(i := map_option f (conns h i))"
    "\<And>c. conns h i = Some c \<Longrightarrow> c_user (f c) = c_user c \<and> (conn_ok lib S cs c \<longrightarrow> conn_ok lib S cs (f c))"
  shows "kept lib S cs h h'"
  using assms by (cases "conns h i") (auto simp: kept_def)

lemma kept_fold:
  assumes f: "\<And>i h. hub_inv h \<Longrightarrow> P i h \<Longrightarrow> kept lib S cs h (f i h)"
    and stable: "\<And>i j h h'. P j h \<Longrightarrow> kept lib S cs h h' \<Longrightarrow> P j h'"
  shows "hub_inv h \<Longrightarrow> \<forall>i \<in> set is. P i h \<Longrightarrow> kept lib S cs h (fold f is h)"
proof (induction "is" arbitrary: h)
  case Nil
  then show ?case by (simp add: kept_same)
next
  case (Cons i "is")
  then have k: "kept lib S cs h (f i h)" using f by simp
  then have "hub_inv (f i h)" by (simp add: kept_def)
  moreover have "\<forall>j \<in> set is. P j (f i h)" using Cons.prems(2) stable [OF _ k] by simp
  ultimately have "kept lib S cs (f i h) (fold f is (f i h))" by (rule Cons.IH)
  with k show ?case by (simp add: kept_trans)
qed

lemma kept_dispatch:
  assumes inv: "hub_inv h" and w: "wire_ok cs (ch, tx)" and d: "dispatch spare now (Some ch) tx h = Inr (h', lat)"
  shows "kept lib S cs h h'"
proof -
  obtain u e where ch: "ch = user_channel u" and tx: "json_loads 0 tx = Inr e" and e: "event_for cs u e"
    using w by (auto simp: wire_ok_def)
  have tx: "json_loads spare tx = Inr e" by (rule json_loads_mono [OF tx]) simp
  let ?P = "\<lambda>i h. \<forall>c. conns h i = Some c \<longrightarrow> c_user c = u"
  have "kept lib S cs h (fold (send_to e) ids h)" if "\<forall>i \<in> set ids. ?P i h" for ids
  proof (rule kept_fold [where P = ?P])
    fix i k assume "hub_inv k" "?P i k"
    then show "kept lib S cs k (send_to e i k)"
      using e by (intro kept_update [where f = "send_nowait e"] send_to_inv) (auto simp: send_to_def conn_ok_send)
  next
    fix i j k k' assume "?P j k" "kept lib S cs k k'"
    then show "?P j k'" unfolding kept_def by metis
  qed (use that inv in auto)
  moreover have "\<forall>i \<in> set (conns_of h u). ?P i h"
    using conns_of_registered [of h u] inv by (auto simp: hub_inv_def)
  ultimately show ?thesis
    using d inv by (auto simp: dispatch_def Let_def ch tx user_channel_def intro: kept_same split: if_splits sum.splits)
qed

lemma kept_stop: "hub_inv h \<Longrightarrow> kept lib S cs h (stop h)"
  unfolding stop_def
proof (rule kept_fold [where P = "\<lambda>i h. True"])
  fix i k assume "hub_inv k"
  then show "kept lib S cs k (close_in 1012 (lit ''server restarting'') i k)"
    by (intro kept_update [where f = "close 1012 (lit ''server restarting'')"] close_in_inv)
      (auto simp: close_in_def conn_ok_close)
qed auto

lemma unregister_conns [simp]: "conns (unregister c h) = conns h"
  using unregister_fields [of c h] by (cases "c_id c \<in> set (conns_of h (c_user c))") auto

lemma kept_loop:
  assumes "hub_inv h"
  shows "loop_step h h' \<Longrightarrow> kept lib S cs h h'" "loop_lost h h' \<Longrightarrow> kept lib S cs h h'"
proof -
  have a: "apply_requests outcomes h = (r, h') \<Longrightarrow> conns h' = conns h" for outcomes r h'
    by (auto simp: apply_requests_def split: prod.splits)
  have l: "connection_lost e k = Some (k', t) \<Longrightarrow> conns k' = conns k" for e k k' t
    by (auto simp: connection_lost_def release_waiters_def split: if_splits)
  show "loop_step h h' \<Longrightarrow> kept lib S cs h h'"
    using assms a
    by (auto elim!: loop_step.cases intro!: kept_same resubscribe_inv simp: resubscribe_def [of h] intro: apply_requests_inv)
  show "loop_lost h h' \<Longrightarrow> kept lib S cs h h'"
  proof (erule loop_lost.cases)
    fix k outcomes e h1 k' t
    assume "h = k" "h' = k'" "apply_requests outcomes k = (Some e, h1)" "connection_lost e h1 = Some (k', t)"
    then show ?thesis using assms a l apply_requests_frame connection_lost_inv by (intro kept_same) metis+
  next
    fix e k k' t
    assume "h = k" "h' = k'" "connection_lost e k = Some (k', t)"
    then show ?thesis using assms l connection_lost_inv unfolding hub_inv_def [of h] by (intro kept_same) metis+
  qed
qed

lemma put_conn_inv:
  assumes "hub_inv h" "conns h i = Some c" "c_id c' = c_id c" "c_user c' = c_user c" "queue_ok c \<Longrightarrow> queue_ok c'"
  shows "hub_inv (put_conn i c' h)"
  by (rule conn_update_inv [of h _ i "\<lambda>x. if x = c then c' else x"]) (use assms in \<open>auto simp: put_conn_def\<close>)

section \<open>The cluster\<close>

lemma frame_ok_mono: "set cs \<subseteq> set cs' \<Longrightarrow> frame_ok cs u f \<Longrightarrow> frame_ok cs' u f"
  using event_for_mono unfolding frame_ok_def by metis

lemma slot_ok_mono:
  "set cs \<subseteq> set cs' \<Longrightarrow> slot_ok lib S cs slot peers fs \<Longrightarrow> slot_ok lib S cs' slot peers fs"
  using conn_ok_mono [of cs cs' lib S] frame_ok_mono [of cs cs'] member_conv_mono [of cs cs']
  by (cases slot) (auto simp: slot_ok_def)

lemma wire_ok_mono: "set cs \<subseteq> set cs' \<Longrightarrow> wire_ok cs cmd \<Longrightarrow> wire_ok cs' cmd"
  using event_for_mono unfolding wire_ok_def by blast

lemma replica_ok_mono: "set cs \<subseteq> set cs' \<Longrightarrow> replica_ok lib S cs cl r \<Longrightarrow> replica_ok lib S cs' cl r"
  unfolding replica_ok_def using slot_ok_mono wire_ok_mono by blast

lemma replica_ok_cong:
  "replica_ok lib S cs cl r \<Longrightarrow> cl_hub cl' r = cl_hub cl r \<Longrightarrow> cl_wire cl' r = cl_wire cl r \<Longrightarrow>
     cl_peers cl' r = cl_peers cl r \<Longrightarrow> cl_frames cl' r = cl_frames cl r \<Longrightarrow> replica_ok lib S cs cl' r"
  by (simp add: replica_ok_def)

lemma cluster_inv_db:
  assumes "cluster_inv lib S coll cl" "tables_ok coll d" "set (conversations (cl_db cl)) \<subseteq> set (conversations d)"
  shows "cluster_inv lib S coll (cl\<lparr>cl_db := d\<rparr>)"
  using assms replica_ok_mono [OF assms(3), of lib S cl] replica_ok_cong [where cl = cl and cl' = "cl\<lparr>cl_db := d\<rparr>" and lib = lib]
  by (simp add: cluster_inv_def)

lemma cluster_inv_publish:
  assumes "cluster_inv lib S coll cl" "\<forall>cmd \<in> set cmds. wire_ok (conversations (cl_db cl)) cmd"
  shows "cluster_inv lib S coll (redis_publish cmds cl)"
  using assms by (auto simp: cluster_inv_def replica_ok_def redis_publish_def redis_fanout_def)

lemma slot_ok_kept:
  assumes "kept lib S cs h h'" "slot_ok lib S cs (conns h i) peers fs"
  shows "slot_ok lib S cs (conns h' i) peers fs"
proof (cases "conns h' i")
  case None
  then have "conns h i = None" using assms(1) by (simp add: kept_def)
  with assms(2) None show ?thesis by simp
next
  case (Some c')
  then obtain c where "conns h i = Some c" "c_user c' = c_user c" "conn_ok lib S cs c \<longrightarrow> conn_ok lib S cs c'"
    using assms(1) unfolding kept_def by metis
  with assms(2) Some show ?thesis by (simp add: slot_ok_def)
qed

text \<open>A hub moves on, keeping its connections; its wire may get shorter.\<close>

lemma cluster_inv_hub:
  assumes inv: "cluster_inv lib S coll cl" and k: "kept lib S (conversations (cl_db cl)) (cl_hub cl r) h"
    and w: "set left \<subseteq> set (cl_wire cl r)"
  shows "cluster_inv lib S coll ((set_hub r h cl)\<lparr>cl_wire := (cl_wire cl)(r := left)\<rparr>)"
proof -
  let ?cs = "conversations (cl_db cl)"
  have "replica_ok lib S ?cs cl q" for q using inv by (simp add: cluster_inv_def)
  then have "replica_ok lib S ?cs ((set_hub r h cl)\<lparr>cl_wire := (cl_wire cl)(r := left)\<rparr>) q" for q
    using w k slot_ok_kept [OF k] by (cases "q = r") (auto simp: replica_ok_def set_hub_def kept_def [of lib S ?cs "cl_hub cl r" h])
  with inv show ?thesis by (simp add: cluster_inv_def set_hub_def)
qed

lemma cluster_inv_set_hub:
  "cluster_inv lib S coll cl \<Longrightarrow> kept lib S (conversations (cl_db cl)) (cl_hub cl r) h \<Longrightarrow> cluster_inv lib S coll (set_hub r h cl)"
  using cluster_inv_hub [of lib S coll cl r h "cl_wire cl r"] by (simp add: set_hub_def)

text \<open>A socket takes a turn, its connection kept by the hub.\<close>

definition good_turn :: "'k jwt_lib \<Rightarrow> settings \<Rightarrow> (pystr \<Rightarrow> pystr \<Rightarrow> bool) \<Rightarrow> db \<Rightarrow> conn \<Rightarrow> socket \<Rightarrow> bool" where
  "good_turn lib S coll d c s \<longleftrightarrow>
     tables_ok coll (s_db s) \<and> set (conversations d) \<subseteq> set (conversations (s_db s)) \<and>
     c_id (s_conn s) = c_id c \<and> c_user (s_conn s) = c_user c \<and> (queue_ok c \<longrightarrow> queue_ok (s_conn s)) \<and>
     conn_ok lib S (conversations (s_db s)) (s_conn s) \<and>
     (\<forall>cid p. s_peers s cid = Some p \<longrightarrow> member_conv (c_user c) cid p (conversations (s_db s))) \<and>
     (\<forall>cmd \<in> set (s_pushed s). wire_ok (conversations (s_db s)) cmd)"

lemma cluster_inv_turn:
  assumes inv: "cluster_inv lib S coll cl" and c: "conns (cl_hub cl r) i = Some c" and t: "good_turn lib S coll (cl_db cl) c s"
  shows "cluster_inv lib S coll (after_turn r i s cl)"
proof -
  let ?cl = "set_hub r (put_conn i (s_conn s) (cl_hub cl r)) cl
          \<lparr>cl_db := s_db s, cl_peers := (cl_peers cl)(r := (cl_peers cl r)(i := s_peers s)),
           cl_seen := (cl_seen cl)(r := (cl_seen cl r)(i := last_seen s))\<rparr>"
  let ?cs = "conversations (s_db s)"
  have g: "set (conversations (cl_db cl)) \<subseteq> set ?cs" using t by (simp add: good_turn_def)
  have ok: "replica_ok lib S ?cs cl q" for q using inv replica_ok_mono [OF g, of lib S cl q] by (simp add: cluster_inv_def)
  then have h: "hub_inv (put_conn i (s_conn s) (cl_hub cl r))"
    using t by (intro put_conn_inv [OF _ c]) (auto simp: replica_ok_def good_turn_def)
  have "slot_ok lib S ?cs (Some (s_conn s)) (s_peers s) (cl_frames cl r i)"
    using ok [of r] c t by (auto simp: replica_ok_def slot_ok_def good_turn_def dest!: spec [of _ i])
  with ok [of r] h have "replica_ok lib S ?cs ?cl r"
    by (simp add: replica_ok_def set_hub_def) (simp add: put_conn_def)
  moreover have "replica_ok lib S ?cs ?cl q" if "q \<noteq> r" for q
    using ok [of q] by (rule replica_ok_cong) (use that in \<open>simp_all add: set_hub_def\<close>)
  ultimately have "replica_ok lib S ?cs ?cl q" for q by (cases "q = r") simp_all
  then have "cluster_inv lib S coll ?cl" using t by (simp add: cluster_inv_def good_turn_def)
  moreover have "cl_db ?cl = s_db s" by simp
  ultimately show ?thesis
    unfolding after_turn_def using t by (intro cluster_inv_publish) (auto simp: good_turn_def)
qed

section \<open>Turns of a socket\<close>

lemma user_id_match_scalars: "user_id_match u \<Longrightarrow> scalars u"
proof -
  assume "user_id_match u"
  then consider "user_id_ok u" | v where "u = v @ [10]" "user_id_ok v"
    unfolding user_id_match_def by (metis append_butlast_last_id)
  then show ?thesis
  proof cases
    case 1
    then show ?thesis by (rule user_id_ok_scalars)
  next
    case 2
    have "scalars v" by (rule user_id_ok_scalars [OF 2(2)])
    then show ?thesis using 2(1) by (simp add: scalars_def scalar_def)
  qed
qed

lemma admitted_scalars: "snd (admit lib now S header query) = Admitted u \<Longrightarrow> scalars u"
  using user_id_match_scalars
  by (auto simp: admit_def verify_def invalid_token_def split: prod.splits if_splits sum.splits exn.splits option.splits json.splits)

lemma conn_ok_scalars: "conn_ok lib S cs c \<Longrightarrow> scalars (c_user c)"
  using admitted_scalars unfolding conn_ok_def by blast

text \<open>The reader queues only events of its own: replies and errors.\<close>

definition local_conn :: "conn \<Rightarrow> conn \<Rightarrow> bool" where
  "local_conn c c' \<longleftrightarrow> c' = c \<or> (\<exists>e. local_event e \<and> c' = send_nowait e c)"

lemma local_conn_intros:
  "local_conn c c" "local_event e \<Longrightarrow> local_conn c (send_nowait e c)"
  "local_conn (s_conn s) (s_conn (ws_error code' m ref s))"
proof -
  show "local_event e \<Longrightarrow> local_conn c (send_nowait e c)" unfolding local_conn_def by blast
  then show "local_conn (s_conn s) (s_conn (ws_error code' m ref s))"
    unfolding local_conn_def ws_error_def queue_event_simps using local_events(4) by blast
qed (simp add: local_conn_def)

lemma handle_local:
  "local_conn (s_conn s) (s_conn (snd (handle py_repr w S redis ev s)))"
proof -
  have g: "local_conn (s_conn s) (s_conn (snd (guard ref act s)))" if "quiet_turn S w redis s (act s)" for ref act
  proof (cases "act s")
    case (Pair res s')
    then have "s_conn s' = s_conn s" using that by (simp add: quiet_turn_def)
    then show ?thesis using local_conn_intros(1) [of "s_conn s"] local_conn_intros(3) [of s']
      unfolding guard_def Pair by (simp split: sum.splits option.splits)
  qed
  show ?thesis unfolding handle_def Let_def
    using g [where act = "ws_ack w S ev", OF quiet_ack] g [where act = "ws_read w ev", OF quiet_read]
      g [where act = "ws_typing redis ev", OF quiet_typing] local_conn_intros(1,3) local_conn_intros(2) [OF local_events(2)]
    by simp
qed

lemma reader_local: "local_conn (s_conn s) (s_conn (snd (reader py_repr w S redis now msg s)))"
proof (cases msg)
  case (Frame tx bs)
  let ?s = "s\<lparr>last_seen := now\<rparr>"
  show ?thesis
  proof (cases rule: reader_frame [where py_repr = py_repr and w = w and S = S and redis = redis and now = now and tx = tx and bs = bs and s = s])
    case (handled ev r s2)
    then show ?thesis using handle_local [of ?s py_repr w S redis ev] by (simp add: Frame)
  next
    case bad
    then show ?thesis using local_conn_intros(3) [of ?s] by (simp add: Frame)
  qed (simp add: Frame local_conn_intros(1))
qed (simp add: reader_def local_conn_intros(1))

text \<open>What its frames publish and cache.\<close>

lemma reader_typing:
  assumes "typing_inv coll u s" "w_collate w = coll"
  shows "typing_inv coll u (snd (reader py_repr w S redis now msg s))"
proof -
  have "sock (session_step py_repr S (now, Receive w redis msg) (open_session s)) = snd (reader py_repr w S redis now msg s)"
    by (auto simp: open_session_def split: prod.splits sum.splits bool.splits)
  then show ?thesis
    using typing_inv_step [of coll u "open_session s" S "{}" "(now, Receive w redis msg)" py_repr] assms
    by (simp add: open_session_def)
qed

lemma notice_wire_ok: "scalars user \<Longrightarrow> notice_ok user cs cmd \<Longrightarrow> wire_ok cs cmd"
  unfolding notice_ok_def wire_ok_def publish_def using event_for_typing
  by (force simp: typing_event_def json_loads_dumps json_nesting_def simp del: dumps.simps)

lemma receipt_text: "is_receipt q \<Longrightarrow> scalars (request_user q) \<Longrightarrow> text_request q"
  by (cases q) auto

lemma turn_tables:
  assumes "turn S w t s" "tables_ok coll (s_db t)" "w_collate w = coll" "text_world w" "text_settings S" "scalars (c_user (s_conn t))"
  shows "tables_ok coll (s_db s)" "set (conversations (s_db t)) \<subseteq> set (conversations (s_db s))"
proof -
  have "s_db s = s_db t \<or> (\<exists>q. text_request q \<and> s_db s = fst (serve S (w, q) (s_db t)))"
    using assms(1,6) receipt_text unfolding turn_def requests_of_def by (metis fst_conv)
  then have "tables_ok coll (s_db s) \<and> set (conversations (s_db t)) \<subseteq> set (conversations (s_db s))"
  proof
    assume "\<exists>q. text_request q \<and> s_db s = fst (serve S (w, q) (s_db t))"
    then obtain q where "text_request q" "s_db s = fst (serve S (w, q) (s_db t))" by blast
    then show ?thesis using tables_ok_serve [OF assms(2-4) _ assms(5)] by simp
  qed (use assms(2) in simp)
  then show "tables_ok coll (s_db s)" "set (conversations (s_db t)) \<subseteq> set (conversations (s_db s))" by simp_all
qed

lemma local_conn_fields:
  "local_conn c c' \<Longrightarrow> c_id c' = c_id c \<and> c_user c' = c_user c \<and> (queue_ok c \<longrightarrow> queue_ok c') \<and>
     (conn_ok lib S cs c \<longrightarrow> conn_ok lib S cs c')"
  using queue_ok_send [of c] conn_ok_send [of lib S cs c] event_for_local [where cs = cs] by (auto simp: local_conn_def)

lemma taken_slot:
  assumes "cluster_inv lib S coll cl" "conns (cl_hub cl r) i = Some c"
  shows "tables_ok coll (cl_db cl)" "conn_ok lib S (conversations (cl_db cl)) c"
    "\<forall>cid p. cl_peers cl r i cid = Some p \<longrightarrow> member_conv (c_user c) cid p (conversations (cl_db cl))"
    "\<forall>f \<in> set (cl_frames cl r i). frame_ok (conversations (cl_db cl)) (c_user c) f"
proof -
  have "slot_ok lib S (conversations (cl_db cl)) (conns (cl_hub cl r) i) (cl_peers cl r i) (cl_frames cl r i)"
    using assms(1) by (simp add: cluster_inv_def replica_ok_def)
  then show "conn_ok lib S (conversations (cl_db cl)) c"
    "\<forall>cid p. cl_peers cl r i cid = Some p \<longrightarrow> member_conv (c_user c) cid p (conversations (cl_db cl))"
    "\<forall>f \<in> set (cl_frames cl r i). frame_ok (conversations (cl_db cl)) (c_user c) f"
    using assms(2) by (simp_all add: slot_ok_def)
qed (use assms(1) in \<open>simp add: cluster_inv_def\<close>)

lemma reader_good:
  assumes inv: "cluster_inv lib S coll cl" and c: "conns (cl_hub cl r) i = Some c"
    and w: "w_collate w = coll" "text_world w" "text_settings S"
    and s: "reader py_repr w S redis now msg (session_of cl r i c) = (res, s)"
  shows "good_turn lib S coll (cl_db cl) c s"
proof -
  let ?t = "session_of cl r i c" and ?cs = "conversations (cl_db cl)"
  have t [simp]: "s_conn ?t = c" "s_db ?t = cl_db cl" "s_peers ?t = cl_peers cl r i" "s_pushed ?t = []"
    by (simp_all add: session_of_def)
  note ok = taken_slot(2,1,3) [OF inv c]
  have u: "scalars (c_user c)" using ok(1) by (rule conn_ok_scalars)
  obtain t' where t': "turn S w t' s" "s_conn t' = c" "s_db t' = cl_db cl"
    using reader_turn [of S w msg ?t now py_repr redis] s by (cases "msg = Disconnect") auto
  have db: "tables_ok coll (s_db s)" "set ?cs \<subseteq> set (conversations (s_db s))"
    using turn_tables [OF t'(1), of coll] t' ok(2) u w by simp_all
  have l: "local_conn c (s_conn s)" using reader_local [of ?t py_repr w S redis now msg] s by simp
  note lf = local_conn_fields [OF l, of lib S "conversations (s_db s)"]
  have "typing_inv coll (c_user c) ?t" using ok(2,3) by (simp add: typing_inv_def tables_ok_def)
  then have y: "typing_inv coll (c_user c) s"
    using reader_typing [of coll "c_user c" ?t w py_repr S redis now msg] w(1) s by simp
  have "\<forall>cmd \<in> set (s_pushed s). wire_ok (conversations (s_db s)) cmd"
    using y notice_wire_ok [OF u] by (simp add: typing_inv_def)
  then show ?thesis
    using db lf y conn_ok_mono [OF db(2) ok(1)] by (simp add: good_turn_def typing_inv_def)
qed

lemma still_turn:
  assumes inv: "cluster_inv lib S coll cl" and c: "conns (cl_hub cl r) i = Some c"
    and s: "s_db s = cl_db cl" "s_peers s = cl_peers cl r i" "s_pushed s = []"
    and c': "c_id (s_conn s) = c_id c" "c_user (s_conn s) = c_user c" "queue_ok c \<longrightarrow> queue_ok (s_conn s)"
      "conn_ok lib S (conversations (cl_db cl)) c \<longrightarrow> conn_ok lib S (conversations (cl_db cl)) (s_conn s)"
  shows "good_turn lib S coll (cl_db cl) c s"
  using taken_slot [OF inv c] s c' by (simp add: good_turn_def)

lemma heartbeat_good:
  assumes inv: "cluster_inv lib S coll cl" and c: "conns (cl_hub cl r) i = Some c"
    and s: "heartbeat S now stamp (session_of cl r i c) = (goes_on, s)"
  shows "good_turn lib S coll (cl_db cl) c s"
proof (rule still_turn [OF inv c])
  have l: "s_conn s = close CLOSE_IDLE (lit ''idle timeout'') c \<or> local_conn c (s_conn s)"
    using s local_conn_intros(2) [OF local_events(3)]
    by (auto simp: heartbeat_def Let_def session_of_def split: if_splits)
  then show "queue_ok c \<longrightarrow> queue_ok (s_conn s)"
    "conn_ok lib S (conversations (cl_db cl)) c \<longrightarrow> conn_ok lib S (conversations (cl_db cl)) (s_conn s)" "c_id (s_conn s) = c_id c"
    using local_conn_fields [of c "s_conn s" lib S "conversations (cl_db cl)"] queue_ok_close conn_ok_close by auto
qed (use heartbeat_fields [OF s] in \<open>simp_all add: session_of_def\<close>)

lemma writer_good:
  assumes inv: "cluster_inv lib S coll cl" and c: "conns (cl_hub cl r) i = Some c"
    and s: "writer (session_of cl r i c) = Some (f, s)"
  shows "good_turn lib S coll (cl_db cl) c s" "frame_ok (conversations (cl_db cl)) (c_user c) f"
proof -
  note ok = taken_slot(2) [OF inv c]
  obtain x where n: "next_event c = Some (x, s_conn s)" "x \<in> set (queue c)" "set (queue (s_conn s)) \<subseteq> set (queue c)"
    and f: "f = (case x of Event e \<Rightarrow> Text_frame (dumps False e) | CloseRequest k reason \<Rightarrow> Close_frame k reason)"
    using s by (auto simp: writer_def next_event_def session_of_def subset_insertI split: list.splits queue_item.splits)
  show "good_turn lib S coll (cl_db cl) c s"
    by (rule still_turn [OF inv c])
      (use writer_fields [OF s] next_event_fields [OF n(1)] queue_ok_next [OF _ n(1)] n(3) in
        \<open>auto simp: session_of_def conn_ok_def\<close>)
  show "frame_ok (conversations (cl_db cl)) (c_user c) f"
    using ok n(2) f by (auto simp: conn_ok_def frame_ok_def split: queue_item.splits)
qed

section \<open>Every step\<close>

lemma cluster_inv_frames:
  assumes inv: "cluster_inv lib S coll cl" and c: "conns (cl_hub cl r) i = Some c" "frame_ok (conversations (cl_db cl)) (c_user c) f"
  shows "cluster_inv lib S coll (cl\<lparr>cl_frames := (cl_frames cl)(r := (cl_frames cl r)(i := cl_frames cl r i @ [f]))\<rparr>)"
proof -
  let ?cs = "conversations (cl_db cl)" and ?cl = "cl\<lparr>cl_frames := (cl_frames cl)(r := (cl_frames cl r)(i := cl_frames cl r i @ [f]))\<rparr>"
  have "replica_ok lib S ?cs cl q" for q using inv by (simp add: cluster_inv_def)
  then have "replica_ok lib S ?cs ?cl q" for q
    using taken_slot [OF inv c(1)] c by (cases "q = r") (auto simp: replica_ok_def slot_ok_def)
  with inv show ?thesis by (simp add: cluster_inv_def)
qed

lemma start_fields:
  "s_db (start_session S beat now i u d) = d" "s_peers (start_session S beat now i u d) = (\<lambda>_. None)"
  "s_pushed (start_session S beat now i u d) = []"
  by (simp_all add: start_session_def)

lemma cluster_inv_connect:
  assumes inv: "cluster_inv lib S coll cl" and free: "conns (cl_hub cl r) i = None"
    and a: "chat_socket lib now S header query i (cl_hub cl r) = (Admitted u, Some c, h)"
  shows "cluster_inv lib S coll (after_turn r i (start_session S beat seen i u (cl_db cl)) (set_hub r h cl))"
proof -
  let ?cs = "conversations (cl_db cl)" and ?s = "start_session S beat seen i u (cl_db cl)"
  let ?cl = "(set_hub r h cl)\<lparr>cl_peers := (cl_peers cl)(r := (cl_peers cl r)(i := \<lambda>_. None))\<rparr>"
  have c: "c = new_conn i u" "h = register c (cl_hub cl r)" "snd (admit lib now S header query) = Admitted u"
    using a by (auto simp: chat_socket_def split: admission.splits)
  have ok: "replica_ok lib S ?cs cl q" for q using inv by (simp add: cluster_inv_def)
  have "hub_inv h" using register_inv [OF _ free, of u] ok [of r] c by (simp add: replica_ok_def)
  moreover have "conns h = (conns (cl_hub cl r))(i \<mapsto> c)" using c(1,2) register_fields(2) [of c] by simp
  moreover have new: "conn_ok lib S ?cs c" using c by (auto simp: conn_ok_def new_conn_def)
  moreover have "cl_frames cl r i = []" using ok [of r] free by (auto simp: replica_ok_def slot_ok_def dest: spec [of _ i])
  ultimately have "replica_ok lib S ?cs ?cl r"
    using ok [of r] by (simp add: replica_ok_def set_hub_def) (simp add: slot_ok_def)
  moreover have "replica_ok lib S ?cs ?cl q" if "q \<noteq> r" for q
    using ok [of q] by (rule replica_ok_cong) (use that in \<open>simp_all add: set_hub_def\<close>)
  ultimately have "replica_ok lib S ?cs ?cl q" for q by (cases "q = r") simp_all
  then have i1: "cluster_inv lib S coll ?cl" using inv by (simp add: cluster_inv_def set_hub_def)
  have "conns (cl_hub ?cl r) i = Some c" using c(1,2) register_fields(2) [of c] by (simp add: set_hub_def)
  moreover have "local_conn c (s_conn ?s)"
    using local_conn_intros(2) [OF local_events(1)] c(1) by (simp add: start_session_def)
  then have "good_turn lib S coll (cl_db ?cl) c ?s"
    using local_conn_fields [of c "s_conn ?s" lib S ?cs] new inv
      start_fields [of S beat seen i u "cl_db cl"]
    by (simp add: good_turn_def cluster_inv_def set_hub_def)
  ultimately have "cluster_inv lib S coll (after_turn r i ?s ?cl)" by (rule cluster_inv_turn [OF i1])
  moreover have "after_turn r i ?s ?cl = after_turn r i ?s (set_hub r h cl)"
    by (simp add: after_turn_def set_hub_def fun_eq_iff redis_publish_def)
  ultimately show ?thesis by simp
qed

lemma cluster_step_inv:
  assumes inv: "cluster_inv lib S coll cl" and S: "text_settings S" and step: "cluster_step lib S coll py_repr cl cl'"
  shows "cluster_inv lib S coll cl'"
proof -
  have t: "tables_ok coll (cl_db cl)" and hub: "hub_inv (cl_hub cl r)"
    and wires: "\<forall>cmd \<in> set (cl_wire cl r). wire_ok (conversations (cl_db cl)) cmd" for r
    using inv by (simp_all add: cluster_inv_def replica_ok_def)
  show ?thesis using step
  proof cases
    case (rest_call w q)
    then show ?thesis using tables_ok_serve [OF t _ _ _ S] inv by (simp add: cluster_inv_db)
  next
    case (connect r i now header query u c h beat seen)
    then show ?thesis using cluster_inv_connect [OF inv] by simp
  next
    case (disconnect r i c)
    then show ?thesis
      using cluster_inv_set_hub [OF inv kept_same] unregister_inv [OF hub [of r], of c] by (simp add: chat_socket_ends_def)
  next
    case (frame r i c w redis now msg res s)
    then show ?thesis using cluster_inv_turn [OF inv] reader_good [OF inv] S by blast
  next
    case (beat r i c now stamp goes_on s)
    then show ?thesis using cluster_inv_turn [OF inv] heartbeat_good [OF inv] by blast
  next
    case (wrote r i c f s)
    have "cluster_inv lib S coll (after_turn r i s cl)"
      using cluster_inv_turn [OF inv] writer_good(1) [OF inv] wrote by blast
    moreover have "conns (cl_hub (after_turn r i s cl) r) i = Some (s_conn s)" "cl_frames (after_turn r i s cl) = cl_frames cl"
      "conversations (cl_db (after_turn r i s cl)) = conversations (cl_db cl)"
      using writer_fields [OF wrote(3)] by (simp_all add: after_turn_def redis_publish_def set_hub_def put_conn_def session_of_def)
    moreover have "frame_ok (conversations (cl_db cl)) (c_user (s_conn s)) f"
      using writer_good(2) [OF inv wrote(2,3)] writer_fields [OF wrote(3)] by (simp add: session_of_def)
    ultimately show ?thesis using cluster_inv_frames [of lib S coll "after_turn r i s cl" r i "s_conn s" f] wrote(1) by simp
  next
    case (relay_cycle n locked now fin res d cmds)
    note p = tables_ok_publish [OF t relay_cycle(2)]
    have "cluster_inv lib S coll (cl\<lparr>cl_db := d\<rparr>)" using cluster_inv_db [OF inv p(1)] p(2) by simp
    then show ?thesis using cluster_inv_publish [of lib S coll "cl\<lparr>cl_db := d\<rparr>" cmds] p relay_cycle(1) by simp
  next
    case (relay_sweep cutoff)
    then show ?thesis using cluster_inv_db [OF inv] tables_ok_sweep [OF t, of cutoff] by simp
  next
    case (receive r ch tx rest spare now h lat)
    have "kept lib S (conversations (cl_db cl)) (cl_hub cl r) h"
      by (rule kept_dispatch [OF hub _ receive(4)]) (use wires [of r] receive(3) in simp)
    then show ?thesis using cluster_inv_hub [OF inv] receive(1,3) by (simp add: subset_insertI)
  next
    case (loop r h)
    then show ?thesis using cluster_inv_set_hub [OF inv kept_loop(1)] hub by simp
  next
    case (loop_lost r h)
    then show ?thesis using cluster_inv_hub [OF inv kept_loop(2)] hub by simp
  next
    case (stop r)
    then show ?thesis using cluster_inv_set_hub [OF inv kept_stop] hub by simp
  qed
qed

text \<open>What the steps make of the tables: messages stay, receipts move forward.\<close>

lemma after_turn_db [simp]: "cl_db (after_turn r i s cl) = s_db s" "cl_db (redis_publish cmds cl) = cl_db cl" "cl_db (set_hub r h cl) = cl_db cl"
  by (simp_all add: after_turn_def redis_publish_def set_hub_def)

lemma same_messages_grow: "messages d' = messages d \<Longrightarrow> grows d d'"
  by (rule grows_append [of d' d "[]"]) simp

lemma publish_batch_messages: "publish_batch n locked t fin d = (res, d', cmds) \<Longrightarrow> messages d' = messages d"
  by (auto simp: publish_batch_def Let_def split: if_splits publish_end.splits)

lemma cluster_step_grows:
  assumes inv: "cluster_inv lib S coll cl" and step: "cluster_step lib S coll py_repr cl cl'"
  shows "grows (cl_db cl) (cl_db cl')"
proof -
  have i: "db_inv coll (cl_db cl)" using inv by (simp add: cluster_inv_def tables_ok_def)
  show ?thesis using step
  proof cases
    case (rest_call w q)
    then show ?thesis using serve_grows [OF i, of "(w, q)" S] by simp
  next
    case (connect r i now header query u c h beat seen)
    then show ?thesis by (simp add: start_fields)
  next
    case (frame r i c w redis now msg res s)
    have "s_db s = cl_db cl \<or> (\<exists>q. s_db s = fst (serve S (w, q) (cl_db cl)))"
      using reader_turn [of S w msg "session_of cl r i c" now py_repr redis] frame(5)
      by (cases "msg = Disconnect") (auto simp: turn_def requests_of_def session_of_def, (metis fst_conv)+)
    then show ?thesis using serve_grows [OF i, of "(w, _)" S] frame(1,3) by auto
  next
    case (beat r i c now stamp goes_on s)
    then show ?thesis using heartbeat_fields [OF beat(3)] by (simp add: session_of_def)
  next
    case (wrote r i c f s)
    then show ?thesis using writer_fields [OF wrote(3)] by (simp add: session_of_def)
  next
    case (relay_cycle n locked now fin res d cmds)
    then show ?thesis using same_messages_grow [OF publish_batch_messages [OF relay_cycle(2)]] by simp
  next
    case (relay_sweep cutoff)
    then show ?thesis using same_messages_grow [of "sweep cutoff (cl_db cl)" "cl_db cl"] by (simp add: sweep_def)
  qed simp_all
qed

lemma cluster_steps_grow:
  assumes S: "text_settings S" and inv: "cluster_inv lib S coll cl" and steps: "(cluster_step lib S coll py_repr)\<^sup>*\<^sup>* cl cl'"
  shows "cluster_inv lib S coll cl' \<and> grows (cl_db cl) (cl_db cl')"
  using steps
proof (induction rule: rtranclp_induct)
  case (step y z)
  then show ?case using cluster_step_inv [OF _ S] cluster_step_grows grows_trans by blast
qed (use inv in simp)

lemma cluster_start_inv: "cluster_inv lib S coll (cluster_start names)"
  by (simp add: cluster_inv_def cluster_start_def tables_ok_def rows_about_def text_db_def replica_ok_def slot_ok_def
      new_hub_inv empty_db_inv) (simp add: empty_db_def new_hub_def)

interpretation deployment: step_system "\<lambda>cl. (\<exists>names. cl = cluster_start names) \<and> text_settings S"
  "\<lambda>cl cl'. text_settings S \<and> cluster_step lib S coll py_repr cl cl'" "cluster_inv lib S coll" for lib S coll py_repr
  by unfold_locales (auto intro: cluster_start_inv cluster_step_inv)

lemma cluster_reachable_inv:
  assumes "text_settings S" "(cluster_step lib S coll py_repr)\<^sup>*\<^sup>* (cluster_start names) cl"
  shows "cluster_inv lib S coll cl"
  by (rule deployment.reachable_inv [of "cluster_start names" S lib coll py_repr]) (use assms in auto)

section \<open>Properties\<close>

text \<open>
  C1. Users see only their own conversations: in every state the deployment reaches, through any
  interleaving of requests, frames, relay cycles, dispatch, heartbeats and failures on any number of
  replicas, the user of a registered socket was admitted by a verified token, and every event queued for
  it and every text frame it was sent is about a conversation of that user, or one of the socket's own
  \<open>hello\<close>, \<open>ping\<close>, \<open>pong\<close> and \<open>error\<close> events.
\<close>

theorem sockets_see_own_conversations:
  assumes "text_settings S" "(cluster_step lib S coll py_repr)\<^sup>*\<^sup>* (cluster_start names) cl"
    "conns (cl_hub cl r) i = Some c"
  shows "(\<exists>now header query. snd (admit lib now S header query) = Admitted (c_user c)) \<and>
    (\<forall>e. Event e \<in> set (queue c) \<longrightarrow> event_for (conversations (cl_db cl)) (c_user c) e) \<and>
    (\<forall>tx. Text_frame tx \<in> set (cl_frames cl r i) \<longrightarrow>
       (\<exists>e. tx = dumps False e \<and> event_for (conversations (cl_db cl)) (c_user c) e))"
  using taken_slot(2,4) [OF cluster_reachable_inv [OF assms(1,2)] assms(3)]
  by (auto simp: conn_ok_def frame_ok_def)

text \<open>
  C7. Messages are never lost and receipts never move back, whatever the deployment does: from every
  state it reaches to every later one, through requests, frames, relay cycles, sweeps and failures on any
  number of replicas, each stored message is still there with the same identity and contents, its status
  the same or further along sent, delivered, read, a receipt time once set unchanged, and the tables are
  consistent.
\<close>

theorem deployment_keeps_messages:
  assumes "text_settings S" "(cluster_step lib S coll py_repr)\<^sup>*\<^sup>* (cluster_start names) cl"
    "(cluster_step lib S coll py_repr)\<^sup>*\<^sup>* cl cl'" "m \<in> set (messages (cl_db cl))"
  shows "db_inv coll (cl_db cl') \<and> (\<exists>m' \<in> set (messages (cl_db cl')). same_identity m m' \<and> status m \<le> status m' \<and>
    (delivered_at m \<noteq> None \<longrightarrow> delivered_at m' = delivered_at m) \<and> (read_at m \<noteq> None \<longrightarrow> read_at m' = read_at m))"
proof -
  have c: "cluster_inv lib S coll cl' \<and> grows (cl_db cl) (cl_db cl')"
    by (rule cluster_steps_grow [OF assms(1) cluster_reachable_inv [OF assms(1,2)] assms(3)])
  then obtain m' where "m' \<in> set (messages (cl_db cl'))" "advances m m'"
    using grows_stored [OF _ assms(4), of "cl_db cl'"] by blast
  with c show ?thesis by (auto simp: cluster_inv_def tables_ok_def advances_def)
qed

section \<open>Witnesses\<close>

lemma hello_published_event:
  obtains e d' where "publish_batch 10 [] (noon 11) Published hello_db =
      (Inr 2, d', [(user_channel bob, dumps True e), (user_channel alice, dumps True e)])"
    "json_loads 0 (dumps True e) = Inr e" "event_ok e" "about e \<noteq> None"
proof -
  obtain out s' where s: "send_message (at_second 10) sample_settings alice hello (begin_session empty_db) = (Inr (out, True), s')"
    "committed s' = hello_db" by (rule hello_sent_out)
  let ?e = "make_event (lit ''message.new'') (message_out_json (w_dump_dt (at_second 10)) out)"
  have i: "db_inv (w_collate (at_second 10)) (committed (begin_session empty_db))" using empty_db_inv by simp
  have a: "about ?e \<noteq> None"
    by (cases rule: send_message_cases [OF clean_begin i s(1)]) (use about_message_new in auto)
  have "text_db empty_db" by (simp add: text_db_def empty_db_def)
  then have t: "text_db hello_db"
    using text_serve_all [OF empty_db_inv _ sample_texts(1), of "[(at_second 10, Send alice hello)]" "(<)"]
    by (simp add: serve_def Let_def hello_db_def)
  have rows: "outbox hello_db = outbox_rows (noon 10) 1 [(user_topic bob, ?e), (user_topic alice, ?e)]"
    using send_rows(1) [OF empty_db_inv s(1)] s(2) by (simp add: empty_db_def hello_def)
  then have ok: "event_ok ?e" using t by (simp add: text_db_def row_ok_def)
  have "waiting (outbox hello_db) = outbox_rows (noon 10) 1 [(user_topic bob, ?e), (user_topic alice, ?e)]"
    by (rule waiting_new [of empty_db]) (simp_all add: rows backlog_def empty_db_def)
  then obtain d' where "publish_batch 10 [] (noon 11) Published hello_db =
      (Inr 2, d', [(user_channel bob, dumps True ?e), (user_channel alice, dumps True ?e)])"
    by (auto simp: publish_batch_def select_waiting Let_def command_of_def topic_channel_user)
  with that ok a event_ok_loads [OF ok, of 0 True] show ?thesis by simp
qed

lemma bob_admitted:
  obtains query where "snd (admit plain_jwt 1000 sample_settings None (Some query)) = Admitted bob"
proof -
  let ?t = "mint_token plain_jwt 900 bob [] 3600 (lit ''sub'') None None"
  have b: "user_id_ok bob" by (simp add: bob_def user_id_ok_def user_id_char_def lit_Cons)
  have "wf_json (JObj (mint_claims 900 bob 3600 (lit ''sub'') None None))"
    by (rule mint_claims_wf) (simp_all add: user_id_ok_scalars b sub_claim(2))
  with minted_verifies [OF plain_jwt_lawful, of sample_settings bob 900 3600 1000] b sub_claim(1)
  have "verify plain_jwt 1000 sample_settings ?t = Inr bob" by (simp add: sample_settings_def)
  moreover have "?t \<noteq> []" by (simp add: mint_token_def plain_jwt_def)
  ultimately have "snd (admit plain_jwt 1000 sample_settings None (Some ?t)) = Admitted bob"
    by (simp add: admit_def websocket_token_def)
  then show ?thesis by (rule that)
qed

text \<open>Bob connects to replica 0, its loop subscribes, alice sends, a relay publishes, the loop dispatches.\<close>

definition bobs_replica :: hub where
  "bobs_replica = resubscribe (put_conn 1 (send_nowait (hello_event sample_settings (JInt 20) bob) (new_conn 1 bob))
     (register (new_conn 1 bob) (new_hub (lit ''r1''))))"

lemma bobs_replica_fields:
  "listening bobs_replica" "conns_of bobs_replica bob = [1]" "user_channel bob \<in> subscribed bobs_replica"
  "user_channel alice \<notin> subscribed bobs_replica"
  "conns bobs_replica 1 = Some (send_nowait (hello_event sample_settings (JInt 20) bob) (new_conn 1 bob))"
  by (simp_all add: bobs_replica_def resubscribe_def put_conn_def register_def new_hub_def new_conn_def conns_of_def
      request_def local_users_def dict_get_def alice_def bob_def lit_Cons)

lemma bobs_run:
  obtains cl3 cl4 e where "(cluster_step plain_jwt sample_settings (<) (\<lambda>_. []))\<^sup>*\<^sup>* (cluster_start (\<lambda>_. lit ''r1'')) cl3"
    "cluster_step plain_jwt sample_settings (<) (\<lambda>_. []) cl3 cl4" "cl_hub cl3 0 = bobs_replica" "cl_hub cl4 0 = bobs_replica"
    "cl_db cl3 = hello_db" "cl_wire cl4 0 = [(user_channel bob, dumps True e)]" "json_loads 0 (dumps True e) = Inr e" "event_ok e" "about e \<noteq> None"
proof -
  let ?step = "cluster_step plain_jwt sample_settings (<) (\<lambda>_. [])"
  let ?hello = "hello_event sample_settings (JInt 20) bob"
  obtain e d' where e: "publish_batch 10 [] (noon 11) Published hello_db =
      (Inr 2, d', [(user_channel bob, dumps True e), (user_channel alice, dumps True e)])"
    "json_loads 0 (dumps True e) = Inr e" "event_ok e" "about e \<noteq> None" by (rule hello_published_event)
  obtain query where q: "snd (admit plain_jwt 1000 sample_settings None (Some query)) = Admitted bob" by (rule bob_admitted)
  define h1 where "h1 = register (new_conn 1 bob) (new_hub (lit ''r1''))"
  define cl0 where "cl0 = cluster_start (\<lambda>_. lit ''r1'')"
  define cl1 where "cl1 = after_turn 0 1 (start_session sample_settings (JInt 20) 0 1 bob (cl_db cl0)) (set_hub 0 h1 cl0)"
  define cl2 where "cl2 = set_hub 0 bobs_replica cl1"
  define cl3 where "cl3 = cl2\<lparr>cl_db := fst (serve sample_settings (at_second 10, Send alice hello) (cl_db cl2))\<rparr>"
  define cl4 where "cl4 = redis_publish [(user_channel bob, dumps True e), (user_channel alice, dumps True e)] (cl3\<lparr>cl_db := d'\<rparr>)"
  have f0: "cl_hub cl0 0 = new_hub (lit ''r1'')" "cl_db cl0 = empty_db" "cl_wire cl0 = (\<lambda>r. [])"
    by (simp_all add: cl0_def cluster_start_def)
  have f1: "cl_hub cl1 0 = put_conn 1 (send_nowait ?hello (new_conn 1 bob)) h1" "cl_db cl1 = empty_db" "cl_wire cl1 = (\<lambda>r. [])"
    using f0 by (simp_all add: cl1_def after_turn_def set_hub_def start_session_def redis_publish_def redis_fanout_def)
  have f2: "cl_hub cl2 0 = bobs_replica" "cl_db cl2 = empty_db" "cl_wire cl2 = (\<lambda>r. [])"
    using f1 by (simp_all add: cl2_def set_hub_def)
  have f3: "cl_hub cl3 0 = bobs_replica" "cl_db cl3 = hello_db" "cl_wire cl3 = (\<lambda>r. [])"
    using f2 by (simp_all add: cl3_def serve_def Let_def hello_db_def)
  have f4: "cl_hub cl4 0 = bobs_replica" "cl_wire cl4 0 = [(user_channel bob, dumps True e)]"
    using f3 bobs_replica_fields by (simp_all add: cl4_def redis_publish_def redis_fanout_def)
  have "?step cl0 cl1" unfolding cl1_def
    by (rule connect [where c = "new_conn 1 bob" and now = 1000 and header = None and query = "Some query"])
      (use q in \<open>simp_all add: f0 chat_socket_def h1_def\<close>, simp add: new_hub_def)
  moreover have "loop_step (cl_hub cl1 0) bobs_replica" unfolding bobs_replica_def f1 h1_def
    by (rule loop_step.resubscribed) (simp add: put_conn_def register_fields new_hub_def)
  then have "?step cl1 cl2" unfolding cl2_def by (rule loop)
  moreover have "?step cl2 cl3" unfolding cl3_def by (rule rest_call) simp_all
  ultimately have "?step\<^sup>*\<^sup>* cl0 cl3" by (rule three_steps)
  moreover have "?step cl3 cl4" unfolding cl4_def by (rule relay_cycle) (unfold f3, rule e(1))
  ultimately show ?thesis using that [of cl3 cl4 e] f3 f4 e cl0_def by blast
qed

lemma bobs_wait:
  obtains cl c where "(cluster_step plain_jwt sample_settings (<) (\<lambda>_. []))\<^sup>*\<^sup>* (cluster_start (\<lambda>_. lit ''r1'')) cl"
    "conns (cl_hub cl 0) 1 = Some c" "c_user c = bob" "1 \<in> set (conns_of (cl_hub cl 0) (c_user c))"
proof -
  obtain cl where "(cluster_step plain_jwt sample_settings (<) (\<lambda>_. []))\<^sup>*\<^sup>* (cluster_start (\<lambda>_. lit ''r1'')) cl"
    "cl_hub cl 0 = bobs_replica" by (rule bobs_run)
  with that show ?thesis using bobs_replica_fields(2,5) by simp
qed

lemma bobs_command:
  obtains cl ch tx where "(cluster_step plain_jwt sample_settings (<) (\<lambda>_. []))\<^sup>*\<^sup>* (cluster_start (\<lambda>_. lit ''r1'')) cl"
    "(ch, tx) \<in> set (cl_wire cl 0)"
proof -
  obtain cl3 cl4 e where c: "(cluster_step plain_jwt sample_settings (<) (\<lambda>_. []))\<^sup>*\<^sup>* (cluster_start (\<lambda>_. lit ''r1'')) cl3"
    "cluster_step plain_jwt sample_settings (<) (\<lambda>_. []) cl3 cl4" "cl_wire cl4 0 = [(user_channel bob, dumps True e)]" by (rule bobs_run)
  from c(1,2) have "(cluster_step plain_jwt sample_settings (<) (\<lambda>_. []))\<^sup>*\<^sup>* (cluster_start (\<lambda>_. lit ''r1'')) cl4"
    by (rule rtranclp.rtrancl_into_rtrancl)
  with c(3) show ?thesis by (intro that [of cl4 "user_channel bob" "dumps True e"]) simp_all
qed

lemma bobs_message:
  obtains cl c e where "(cluster_step plain_jwt sample_settings (<) (\<lambda>_. []))\<^sup>*\<^sup>* (cluster_start (\<lambda>_. lit ''r1'')) cl"
    "conns (cl_hub cl 0) 1 = Some c" "c_user c = bob" "Event e \<in> set (queue c)" "about e \<noteq> None"
proof -
  let ?step = "cluster_step plain_jwt sample_settings (<) (\<lambda>_. [])"
  let ?hello = "hello_event sample_settings (JInt 20) bob"
  obtain cl3 cl4 e where c: "?step\<^sup>*\<^sup>* (cluster_start (\<lambda>_. lit ''r1'')) cl3" "?step cl3 cl4" "cl_hub cl4 0 = bobs_replica"
    "cl_wire cl4 0 = [(user_channel bob, dumps True e)]" "json_loads 0 (dumps True e) = Inr e" "event_ok e" "about e \<noteq> None"
    by (rule bobs_run)
  obtain lat where "observe_latency 0 bob e = Inr lat" using observe_event_ok [OF c(6)] by blast
  then have d: "dispatch 0 0 (Some (user_channel bob)) (dumps True e) bobs_replica = Inr (send_to e 1 bobs_replica, lat)"
    using bobs_replica_fields c(5) by (simp add: dispatch_def user_channel_def)
  define cl5 where "cl5 = (set_hub 0 (send_to e 1 bobs_replica) cl4)\<lparr>cl_wire := (cl_wire cl4)(0 := [])\<rparr>"
  have "?step cl4 cl5" unfolding cl5_def by (rule receive) (use c(3,4) bobs_replica_fields(1) d in simp_all)
  with c(1,2) have "?step\<^sup>*\<^sup>* (cluster_start (\<lambda>_. lit ''r1'')) cl5" by (meson rtranclp.rtrancl_into_rtrancl)
  moreover have "conns (cl_hub cl5 0) 1 = Some (send_nowait e (send_nowait ?hello (new_conn 1 bob)))"
    using bobs_replica_fields by (simp add: cl5_def set_hub_def send_to_def)
  moreover have "Event e \<in> set (queue (send_nowait e (send_nowait ?hello (new_conn 1 bob))))"
    by (simp add: send_nowait_def new_conn_def MAX_PENDING_EVENTS_def)
  ultimately show ?thesis using c(7) by (intro that) simp_all
qed

theorem deployment_keeps_messages_witness:
  "\<exists>(cl'::cluster) m m'. m \<in> set (messages hello_db) \<and> m' \<in> set (messages (cl_db cl')) \<and> same_identity m m'"
proof -
  let ?step = "cluster_step plain_jwt sample_settings (<) (\<lambda>_. [])" and ?cl0 = "cluster_start (\<lambda>_. lit ''r1'')"
  define cl1 where "cl1 = ?cl0\<lparr>cl_db := fst (serve sample_settings (at_second 10, Send alice hello) (cl_db ?cl0))\<rparr>"
  have db: "cl_db cl1 = hello_db" by (simp add: cl1_def cluster_start_def serve_def Let_def hello_db_def)
  obtain cid where m: "messages hello_db = [new_message (at_second 10) alice hello None cid]" by (rule hello_sent)
  let ?q = "(at_second 20, Deliver bob (msg_id (new_message (at_second 10) alice hello None cid)))"
  define cl2 where "cl2 = cl1\<lparr>cl_db := fst (serve sample_settings ?q (cl_db cl1))\<rparr>"
  have s: "?step\<^sup>*\<^sup>* ?cl0 cl1" unfolding cl1_def by (rule r_into_rtranclp, rule rest_call) simp_all
  have t: "?step\<^sup>*\<^sup>* cl1 cl2" unfolding cl2_def by (rule r_into_rtranclp, rule rest_call) simp_all
  have "new_message (at_second 10) alice hello None cid \<in> set (messages (cl_db cl1))" using m db by simp
  from deployment_keeps_messages [OF sample_texts(1) s t this] m show ?thesis by auto
qed

theorem sockets_see_own_conversations_witness:
  "\<exists>(cl::cluster) c e cv. conns (cl_hub cl 0) 1 = Some c \<and> c_user c = bob \<and> Event e \<in> set (queue c) \<and>
     cv \<in> set (conversations (cl_db cl)) \<and> about e = Some (uuid_str (conv_id cv)) \<and> bob \<in> {user_a cv, user_b cv}"
proof -
  obtain cl c e where c: "(cluster_step plain_jwt sample_settings (<) (\<lambda>_. []))\<^sup>*\<^sup>* (cluster_start (\<lambda>_. lit ''r1'')) cl"
    "conns (cl_hub cl 0) 1 = Some c" "c_user c = bob" "Event e \<in> set (queue c)" "about e \<noteq> None" by (rule bobs_message)
  from sockets_see_own_conversations [OF sample_texts(1) c(1,2)] c(3,4)
  have "event_for (conversations (cl_db cl)) bob e" by simp
  then obtain cv where "cv \<in> set (conversations (cl_db cl))" "about e = Some (uuid_str (conv_id cv))" "bob \<in> {user_a cv, user_b cv}"
    using c(5) unfolding event_for_def by force
  with c show ?thesis by blast
qed

end
