(* ===== verification/Delivery.thy ===== *)
theory Delivery
  imports System
begin

text \<open>
  The round trip of a message across two replicas, from the sender's request to the receipt on the
  sender's socket, and \<^verbatim>\<open>scripts/smoke.py\<close>, the check of it that runs against a deployment.
\<close>

section \<open>The smoke test\<close>

text \<open>\<open>x[k]\<close> of a decoded JSON value, and the sequencing of what may raise.\<close>

definition subscript :: "pystr \<Rightarrow> json \<Rightarrow> exn + json" where
  "subscript k x =
     (case x of
        JObj kv \<Rightarrow> (case dict_get k kv of None \<Rightarrow> Inl KeyError | Some v \<Rightarrow> Inr v)
      | _ \<Rightarrow> Inl TypeError)"

definition and_then :: "'e + 'a \<Rightarrow> ('a \<Rightarrow> 'e + 'b) \<Rightarrow> 'e + 'b" where
  "and_then x f = (case x of Inl e \<Rightarrow> Inl e | Inr a \<Rightarrow> f a)"

text \<open>
  \<open>recv_type\<close> on the frames the socket still gets: the first event of the type, and the frames after it.
  Where none comes the timeout is a \<open>TimeoutError\<close> (an \<open>OSError\<close>); a value with no \<open>get\<close> is an
  \<open>AttributeError\<close> (\<open>RuntimeError\<close> in \<open>exn\<close>, as is \<open>AssertionError\<close>).
\<close>

fun recv_type :: "pystr \<Rightarrow> pystr list \<Rightarrow> exn + json \<times> pystr list" where
  "recv_type wanted [] = Inl OSError"
| "recv_type wanted (f # fs) =
     (case loads f of
        None \<Rightarrow> Inl ValueError
      | Some (JObj ev) \<Rightarrow> if get_or_null (lit ''type'') ev = JStr wanted then Inr (JObj ev, fs) else recv_type wanted fs
      | Some _ \<Rightarrow> Inl RuntimeError)"

definition smoke_request :: "pystr \<Rightarrow> send_request" where
  "smoke_request key =
     \<lparr>req_recipient_id = lit ''bob'', req_client_msg_id = key,
      req_body = Some (lit ''hello from the smoke test '' @ [128075]), req_attachment_key = None\<rparr>"

text \<open>The schema accepts it as it is, and alice may send it.\<close>

lemma smoke_request_valid:
  "1 \<le> length key \<Longrightarrow> length key \<le> 64 \<Longrightarrow> validate_send (smoke_request key) = Some (smoke_request key)"
  "req_recipient_id (smoke_request key) \<noteq> lit ''alice''" "scalars key \<Longrightarrow> text_send (smoke_request key)"
  by (simp_all add: validate_send_def smoke_request_def has_content_def user_id_ok_def user_id_char_def opt_all_def lit_Cons
      py_strip_def strip_where_def py_space_def text_send_def scalars_def scalar_def)

text \<open>The frame bob's client sends for the id in the response.\<close>

definition ack_frame :: "json \<Rightarrow> pystr" where
  "ack_frame mid = dumps True (JObj [(lit ''type'', JStr (lit ''ack'')), (lit ''message_id'', mid)])"

text \<open>
  \<open>main\<close> after the sockets are connected, on the frames alice's and bob's sockets receive and the decoded
  response to the request: the exit code.
\<close>

definition smoke_main :: "pystr list \<Rightarrow> pystr list \<Rightarrow> json \<Rightarrow> exn + int" where
  "smoke_main a_frames b_frames response =
     and_then (recv_type (lit ''hello'') a_frames) (\<lambda>(hello_a, a1).
     and_then (recv_type (lit ''hello'') b_frames) (\<lambda>(hello_b, b1).
     and_then (and_then (subscript (lit ''data'') hello_b) (subscript (lit ''replica''))) (\<lambda>replica.
     and_then (subscript (lit ''id'') response) (\<lambda>mid.
     and_then (subscript (lit ''status'') response) (\<lambda>st.
     and_then (recv_type (lit ''message.new'') b1) (\<lambda>(got, b2).
     and_then (and_then (subscript (lit ''data'') got) (subscript (lit ''id''))) (\<lambda>got_id.
     if got_id \<noteq> mid then Inl RuntimeError else
     and_then (recv_type (lit ''message.delivered'') a1) (\<lambda>(delivered, a2).
     and_then (and_then (subscript (lit ''data'') delivered) (subscript (lit ''message_id''))) (\<lambda>delivered_id.
     if delivered_id \<noteq> mid then Inl RuntimeError else Inr 0)))))))))"

text \<open>What a client reads: the frames of the next turns of the writer.\<close>

fun written_frames :: "nat \<Rightarrow> socket \<Rightarrow> ws_frame list" where
  "written_frames 0 s = []"
| "written_frames (Suc n) s = (case writer s of None \<Rightarrow> [] | Some (f, s') \<Rightarrow> f # written_frames n s')"

fun frame_texts :: "ws_frame list \<Rightarrow> pystr list" where
  "frame_texts [] = []"
| "frame_texts (Text_frame t # fs) = t # frame_texts fs"
| "frame_texts (Close_frame n reason # fs) = frame_texts fs"

lemma written_events:
  "queue (s_conn s) = map Event es \<Longrightarrow> frame_texts (written_frames n s) = map (dumps False) (take n es)"
proof (induction n arbitrary: s es)
  case (Suc n)
  show ?case
  proof (cases es)
    case (Cons e es')
    then have "writer s = Some (Text_frame (dumps False e), s\<lparr>s_conn := (s_conn s)\<lparr>queue := map Event es'\<rparr>\<rparr>)"
      using Suc.prems by (simp add: writer_def next_event_def)
    then show ?thesis using Suc.IH [of "s\<lparr>s_conn := (s_conn s)\<lparr>queue := map Event es'\<rparr>\<rparr>" es'] Cons by simp
  qed (use Suc.prems in \<open>simp add: writer_def next_event_def\<close>)
qed simp

lemma and_then_Inr: "and_then x f = Inr y \<longleftrightarrow> (\<exists>a. x = Inr a \<and> f a = Inr y)"
  by (auto simp: and_then_def split: sum.splits)

lemma and_then_simps [simp]: "and_then (Inr a) f = f a" "and_then (Inl e) f = Inl e"
  by (simp_all add: and_then_def)

lemma recv_type_found:
  "recv_type wanted fs = Inr (x, left) \<Longrightarrow>
     (\<exists>f \<in> set fs. \<exists>ev. loads f = Some x \<and> x = JObj ev \<and> dict_get (lit ''type'') ev = Some (JStr wanted)) \<and> set left \<subseteq> set fs"
proof (induction fs)
  case (Cons f fs)
  then show ?case
    by (auto simp: get_or_null_def split: option.splits json.splits if_splits)
qed simp

section \<open>Relays that are up to date\<close>

lemma waiting_appended:
  assumes "backlog d = 0" "outbox d' = outbox d @ outbox_rows t n ps"
  shows "waiting (outbox d') = outbox_rows t n ps"
proof -
  have "filter (\<lambda>r. published_at r = None) (outbox d) = []" using assms(1) by (simp add: backlog_def)
  moreover have "filter (\<lambda>r. published_at r = None) (outbox_rows t n ps) = outbox_rows t n ps"
    using outbox_rows_unpublished by (simp add: filter_id_conv)
  ultimately show ?thesis
    unfolding waiting_def filter_sort assms(2) by (simp add: sort_key_id_if_sorted)
qed

text \<open>
  A relay cycle leaves the messages as they are and the tables consistent; one that takes all that waits
  leaves nothing waiting.
\<close>

lemma publish_keeps:
  assumes inv: "db_inv coll d" and p: "publish_batch n [] t Published d = (Inr k, d', cmds)"
  shows "messages d' = messages d" "conversations d' = conversations d" "db_inv coll d'" "text_db d \<Longrightarrow> text_db d'"
proof -
  obtain js where d': "d' = d \<or> d' = d\<lparr>outbox := mark_published t js (outbox d)\<rparr>"
    using p by (auto simp: publish_batch_def Let_def split: if_splits)
  then show "messages d' = messages d" "conversations d' = conversations d" by auto
  have "outbox_inv obs m \<longleftrightarrow> distinct (map ob_id obs) \<and> (\<forall>x \<in> set (map ob_id obs). x < m)" for obs m
    by (simp add: outbox_inv_def)
  then have "outbox_inv (mark_published t js (outbox d)) m \<longleftrightarrow> outbox_inv (outbox d) m" for m
    by (simp only: mark_published_ids)
  then show "db_inv coll d'" using inv d' by (auto simp: db_inv_def)
  show "text_db d \<Longrightarrow> text_db d'" using d' by (auto simp: text_db_def mark_published_def row_ok_def)
qed

lemma publish_all:
  assumes inv: "db_inv coll d" and n: "length (waiting (outbox d)) \<le> n" "0 < n"
    and p: "publish_batch n [] t Published d = (Inr k, d', cmds)"
  shows "backlog d' = 0" "cmds = map command_of (waiting (outbox d))"
proof -
  have ids: "distinct (map ob_id (outbox d))" using inv by (simp add: db_inv_def outbox_inv_def)
  from publish_batch_ok [OF ids n(2), of t] p n(1)
  have "waiting (outbox d') = []" "cmds = map command_of (waiting (outbox d))" by auto
  then show "backlog d' = 0" "cmds = map command_of (waiting (outbox d))" by (simp_all add: waiting_backlog)
qed

section \<open>Replicas stay settled\<close>

definition settled :: "hub \<Rightarrow> bool" where
  "settled h \<longleftrightarrow> hub_inv h \<and> (\<forall>u. user_channel u \<in> subscribed h \<longleftrightarrow> conns_of h u \<noteq> [])"

lemma dispatch_frame:
  "dispatch spare now ch tx h = Inr (h', lat) \<Longrightarrow> local_conns h' = local_conns h \<and> subscribed h' = subscribed h"
proof -
  have "local_conns (fold (send_to e) ids h) = local_conns h \<and> subscribed (fold (send_to e) ids h) = subscribed h" for e ids
    by (induction ids arbitrary: h) (simp_all add: send_to_def)
  then show "dispatch spare now ch tx h = Inr (h', lat) \<Longrightarrow> ?thesis"
    by (auto simp: dispatch_def Let_def split: option.splits if_splits sum.splits)
qed

lemma deliver_all_frame:
  "deliver_all spare now cmds h = Inr h' \<Longrightarrow> local_conns h' = local_conns h \<and> subscribed h' = subscribed h"
  by (induction spare now cmds h rule: deliver_all.induct) (auto split: sum.splits dest: dispatch_frame)

text \<open>Rows published to a settled replica are queued for its users' sockets, and it stays settled.\<close>

lemma settled_deliver:
  assumes s: "settled h" and rows: "\<forall>r \<in> set rows. row_ok r"
    and c: "conns h i = Some c" "i \<in> set (conns_of h (c_user c))"
  obtains h' where "deliver_all spare now (redis_fanout (map command_of rows) h) h = Inr h'" "settled h'"
    "conns h' i = Some (fold send_nowait (events_for (c_user c) rows) c)" "i \<in> set (conns_of h' (c_user c))"
proof -
  have h: "hub_inv h" "\<forall>u. user_channel u \<in> subscribed h \<longleftrightarrow> conns_of h u \<noteq> []" using s by (simp_all add: settled_def)
  obtain h' where h': "deliver_all spare now (redis_fanout (map command_of rows) h) h = Inr h'" "hub_inv h'"
    "conns h' i = Some (fold send_nowait (events_for (c_user c) rows) c)"
    using deliver_rows [OF h(1) rows h(2), of spare now] c by (auto simp: redis_fanout_def)
  have f: "conns_of h' u = conns_of h u" "subscribed h' = subscribed h" for u
    using deliver_all_frame [OF h'(1)] by (simp_all add: conns_of_def)
  with h h' c that show ?thesis by (simp add: settled_def)
qed

section \<open>The two halves\<close>

lemma send_stored:
  assumes "db_inv (w_collate w) d" "send_message w S sender r (begin_session d) = (Inr (out, True), s')"
  obtains m where "m \<in> set (messages (committed s'))" "msg_id m = out_id out" "sender_id m = sender"
    "recipient_id m = req_recipient_id r" "status m = sent" "out = to_out w S m" "db_inv (w_collate w) (committed s')"
proof -
  have i: "db_inv (w_collate w) (committed (begin_session d))" using assms(1) by simp
  show ?thesis
  proof (cases rule: send_message_cases [OF clean_begin i assms(2)])
    case (3 mime cid tab)
    then show ?thesis
      by (intro that [of "new_message w sender r mime cid"]) (auto simp: ends_created_def to_out_def new_message_def)
  qed auto
qed

definition new_event :: "world \<Rightarrow> message_out \<Rightarrow> json" where
  "new_event w out = make_event (lit ''message.new'') (message_out_json (w_dump_dt w) out)"

definition delivered_event :: "world \<Rightarrow> message_out \<Rightarrow> json" where
  "delivered_event w out = make_event (lit ''message.delivered'')
     (JObj [(lit ''message_id'', JStr (uuid_str (out_id out))),
        (lit ''conversation_id'', JStr (uuid_str (out_conversation_id out))),
        (lit ''client_msg_id'', JStr (out_client_msg_id out)),
        (lit ''delivered_at'', JStr (isoformat (w_now w)))])"

text \<open>The frame of the recipient's client is served as its receipt.\<close>

lemma ack_frame_served:
  assumes m: "mark_delivered w S (c_user (s_conn s)) mid (begin_session (s_db s)) = (Inr o2, t)"
  shows "reader py_repr w S redis now (Frame (Some (ack_frame (JStr (uuid_str mid)))) None) s =
    (Inr True, s\<lparr>last_seen := now, s_db := committed t, s_woken := s_woken s + notified t\<rparr>)"
proof -
  let ?ev = "[(lit ''type'', JStr (lit ''ack'')), (lit ''message_id'', JStr (uuid_str mid))]"
  have wf: "wf_json (JObj ?ev)" by (simp add: lit_Cons scalar_def)
  have j: "json_loads n (dumps True (JObj ?ev)) = Inr (JObj ?ev)" "dumps True (JObj ?ev) \<noteq> []" for n
    using json_loads_dumps [OF wf, of n True] dumps_head [OF wf] by (simp_all add: json_nesting_def)
  have "handle py_repr w S redis ?ev x = guard JNull (ws_ack w S ?ev) x" for x
    by (simp add: handle_def get_or_null_def dict_get_def lit_Cons)
  moreover have "uuid_field (lit ''message_id'') ?ev = Inr mid"
    by (simp add: uuid_field_def dict_get_def lit_Cons)
  ultimately show ?thesis
    using j m unfolding reader_def raw_text_def ack_frame_def Let_def
    by (simp add: guard_def ws_ack_def del: dumps.simps)
qed

lemma receipt_stored:
  assumes inv: "db_inv (w_collate w) d" and x: "m \<in> set (messages d)" "status m = sent" "msg_id m = mid"
    and eq: "mark_delivered w S u mid (begin_session d) = (Inr o2, t)"
  shows "outbox (committed t) = outbox d @ outbox_rows (w_now w) (outbox_seq d) (delivered_events w m)"
    "set_delivered (w_now w) m \<in> set (messages (committed t))" "recipient_id m = u" "db_inv (w_collate w) (committed t)"
proof -
  have i: "db_inv (w_collate w) (committed (begin_session d))" using inv by simp
  have "ends_delivered w (begin_session d) m t \<and> recipient_id m = u"
  proof (cases rule: mark_delivered_cases [OF clean_begin i eq])
    case (2 m')
    then have "m' = m" using msg_id_inject [OF inv x(1), of m'] x(3) by simp
    with 2 x(2) show ?thesis by simp
  next
    case (3 m')
    then have "m' = m" using msg_id_inject [OF inv x(1), of m'] x(3) by simp
    with 3 show ?thesis by simp
  qed simp
  then show "outbox (committed t) = outbox d @ outbox_rows (w_now w) (outbox_seq d) (delivered_events w m)"
    "set_delivered (w_now w) m \<in> set (messages (committed t))" "recipient_id m = u" "db_inv (w_collate w) (committed t)"
    using x(1) by (auto simp: ends_delivered_def flush_def)
qed

section \<open>Properties\<close>

lemma settled_reachable:
  "hub_step\<^sup>*\<^sup>* (new_hub replica) h \<Longrightarrow> listening h \<Longrightarrow> requests h = [] \<Longrightarrow> settled h"
  using settled_hub [of replica h] by (simp add: settled_def)

text \<open>
  C2. The round trip of a message: a send that creates, a cycle of an up to date relay, the \<open>ack\<close> frame of
  the recipient's socket on its replica and another cycle, by relays that may run anywhere. The recipient's
  socket is sent \<open>message.new\<close> with exactly the returned message; the sender's socket, on its replica, is
  sent the same and then \<open>message.delivered\<close> with the message's id; in the end the message is stored as
  delivered and nothing waits in the outbox.
\<close>

theorem delivery_round_trip:
  assumes "db_inv (w_collate w) d" "text_db d" "text_settings S" "text_world w" "scalars sender" "text_send r" "backlog d = 0"
    and send: "send_message w S sender r (begin_session d) = (Inr (out, True), s')"
    and n: "2 \<le> n" and first: "publish_batch n [] t1 Published (committed s') = (Inr k1, d1, cmds1)"
    and hubs: "hub_step\<^sup>*\<^sup>* (new_hub ra) ha" "listening ha" "requests ha = []" "hub_step\<^sup>*\<^sup>* (new_hub rb) hb" "listening hb" "requests hb = []"
    and a: "conns ha i = Some ca" "i \<in> set (conns_of ha (c_user ca))" "c_user ca = sender"
    and b: "conns hb j = Some cb" "j \<in> set (conns_of hb (c_user cb))" "c_user cb = req_recipient_id r"
    and w2: "w_collate w2 = w_collate w" "text_world w2"
    and sb: "s_db sb = d1" "c_user (s_conn sb) = req_recipient_id r"
    and ack: "mark_delivered w2 S (c_user cb) (out_id out) (begin_session d1) = (Inr o2, s2)"
    and frame: "reader py_repr w2 S redis now (Frame (Some (ack_frame (JStr (uuid_str (out_id out))))) None) sb = (res, sb')"
    and second: "publish_batch n [] t2 Published (s_db sb') = (Inr k2, d2, cmds2)"
  shows "res = Inr True \<and>
    (\<exists>hb1. deliver_all spare_b now1 (redis_fanout cmds1 hb) hb = Inr hb1 \<and> conns hb1 j = Some (send_nowait (new_event w out) cb)) \<and>
    (\<exists>ha1 ha2. deliver_all spare_a now1 (redis_fanout cmds1 ha) ha = Inr ha1 \<and> deliver_all spare_a now2 (redis_fanout cmds2 ha1) ha1 = Inr ha2 \<and>
       conns ha2 i = Some (send_nowait (delivered_event w2 out) (send_nowait (new_event w out) ca))) \<and>
    (\<exists>m \<in> set (messages d2). msg_id m = out_id out \<and> status m = delivered) \<and> backlog d2 = 0"
proof -
  let ?new = "new_event w out"
  note sr = send_rows [OF assms(1) send, folded new_event_def]
  obtain m where m: "m \<in> set (messages (committed s'))" "msg_id m = out_id out" "sender_id m = sender"
    "recipient_id m = req_recipient_id r" "status m = sent" "out = to_out w S m" "db_inv (w_collate w) (committed s')"
    by (rule send_stored [OF assms(1) send])
  let ?rows1 = "outbox_rows (w_now w) (outbox_seq d) [(user_topic (req_recipient_id r), ?new), (user_topic sender, ?new)]"
  have wait1: "waiting (outbox (committed s')) = ?rows1" by (rule waiting_appended [OF \<open>backlog d = 0\<close> sr(1)])
  have text1: "text_db (committed s')" by (rule text_send_message [OF assms(1-6) send])
  have "length (waiting (outbox (committed s'))) \<le> n" "0 < n" using n by (simp_all add: wait1)
  note p1 = publish_all [OF m(7) this first] publish_keeps [OF m(7) first]
  have rows1: "\<forall>row \<in> set ?rows1. row_ok row" using text1 sr(1) by (simp add: text_db_def)
  have r: "committed s2 = s_db sb'" "res = Inr True"
    using ack_frame_served [of w2 S sb "out_id out" o2 s2 py_repr redis now] ack sb b(3) frame by auto
  have m1: "m \<in> set (messages d1)" "db_inv (w_collate w2) d1" using m p1(3,5) w2(1) by simp_all
  note rc = receipt_stored [OF m1(2,1) m(5,2) ack]
  let ?rows2 = "outbox_rows (w_now w2) (outbox_seq d1) (delivered_events w2 m)"
  have wait2: "waiting (outbox (s_db sb')) = ?rows2" by (rule waiting_appended [OF p1(1)]) (use rc(1) r in simp)
  have "length (waiting (outbox (s_db sb'))) \<le> n" "0 < n" using n by (simp_all add: wait2 delivered_events_def)
  note p2 = publish_all [OF rc(4) [unfolded r(1)] this second] publish_keeps [OF rc(4) [unfolded r(1)] second]
  have d2: "backlog d2 = 0" "messages d2 = messages (committed s2)" "cmds2 = map command_of ?rows2"
    using p2(1-3) r(1) wait2 by simp_all
  have "serve S (w2, Deliver (c_user cb) (out_id out)) d1 = (committed s2, notified s2)" using ack by (simp add: serve_def)
  moreover have "scalars (c_user cb)" using b(3) \<open>text_send r\<close> by (simp add: text_send_def)
  ultimately have "text_db (committed s2)"
    using text_serve [of "w_collate w" d1 "(w2, Deliver (c_user cb) (out_id out))" S] m1(2) w2 p1(6) [OF text1] \<open>text_settings S\<close> by simp
  then have rows2: "\<forall>row \<in> set ?rows2. row_ok row" using rc(1) by (simp add: text_db_def)
  have de: "delivered_events w2 m = [(user_topic sender, delivered_event w2 out)]"
    using m by (simp add: delivered_events_def delivered_event_def to_out_def)
  note s = settled_reachable [OF hubs(1-3)] settled_reachable [OF hubs(4-6)]
  have c1: "cmds1 = map command_of ?rows1" using p1(2) wait1 by simp
  have eb: "events_for (c_user cb) ?rows1 = [?new]" using b(3) sr(2) by (simp add: events_for_def)
  have ea: "events_for (c_user ca) ?rows1 = [?new]" "events_for (c_user ca) ?rows2 = [delivered_event w2 out]"
    using a(3) sr(2) by (simp_all add: events_for_def de)
  obtain hb1 where hb1: "deliver_all spare_b now1 (redis_fanout cmds1 hb) hb = Inr hb1" "conns hb1 j = Some (send_nowait ?new cb)"
    by (rule settled_deliver [OF s(2) rows1 b(1,2), of spare_b now1]) (use c1 eb in auto)
  obtain ha1 where ha1: "deliver_all spare_a now1 (redis_fanout cmds1 ha) ha = Inr ha1" "settled ha1"
    "conns ha1 i = Some (send_nowait ?new ca)" "i \<in> set (conns_of ha1 (c_user ca))"
    by (rule settled_deliver [OF s(1) rows1 a(1,2), of spare_a now1]) (use c1 ea in auto)
  have "i \<in> set (conns_of ha1 (c_user (send_nowait ?new ca)))" using ha1(4) by simp
  then obtain ha2 where ha2: "deliver_all spare_a now2 (redis_fanout cmds2 ha1) ha1 = Inr ha2"
    "conns ha2 i = Some (send_nowait (delivered_event w2 out) (send_nowait ?new ca))"
    by (rule settled_deliver [OF ha1(2) rows2 ha1(3), of spare_a now2]) (use d2(3) ea in auto)
  have "msg_id (set_delivered (w_now w2) m) = out_id out" using m(2) by simp
  with hb1 ha1(1) ha2 r(2) d2(1,2) rc(2) show ?thesis by (metis set_delivered_fields(6))
qed

text \<open>
  The smoke test checks the round trip: where it exits with 0, bob's socket was sent a \<open>message.new\<close>
  event whose data has the id of the response, and alice's a \<open>message.delivered\<close> event whose data names
  that id.
\<close>

theorem smoke_test_sound:
  assumes "smoke_main a_frames b_frames response = Inr 0"
  shows "\<exists>mid. subscript (lit ''id'') response = Inr mid \<and>
    (\<exists>f \<in> set b_frames. \<exists>ev. loads f = Some (JObj ev) \<and> dict_get (lit ''type'') ev = Some (JStr (lit ''message.new'')) \<and>
       and_then (subscript (lit ''data'') (JObj ev)) (subscript (lit ''id'')) = Inr mid) \<and>
    (\<exists>f \<in> set a_frames. \<exists>ev. loads f = Some (JObj ev) \<and> dict_get (lit ''type'') ev = Some (JStr (lit ''message.delivered'')) \<and>
       and_then (subscript (lit ''data'') (JObj ev)) (subscript (lit ''message_id'')) = Inr mid)"
proof -
  obtain ha a1 hb b1 mid got b2 del a2 where
    h: "recv_type (lit ''hello'') a_frames = Inr (ha, a1)" "recv_type (lit ''hello'') b_frames = Inr (hb, b1)" and
    mid: "subscript (lit ''id'') response = Inr mid" and
    b: "recv_type (lit ''message.new'') b1 = Inr (got, b2)" "and_then (subscript (lit ''data'') got) (subscript (lit ''id'')) = Inr mid" and
    a: "recv_type (lit ''message.delivered'') a1 = Inr (del, a2)"
      "and_then (subscript (lit ''data'') del) (subscript (lit ''message_id'')) = Inr mid"
    using assms unfolding smoke_main_def
    by (auto simp: and_then_Inr simp del: and_then_simps split: if_splits prod.splits)
  have "set b1 \<subseteq> set b_frames" "set a1 \<subseteq> set a_frames" using recv_type_found h by blast+
  with recv_type_found [OF b(1)] recv_type_found [OF a(1)] b(2) a(2) mid show ?thesis by blast
qed

text \<open>
  C39. The smoke test passes: on what the sockets of alice and bob are sent in the round trip, each after
  its own \<open>hello\<close>, with the response to the request, it exits with 0.
\<close>

theorem smoke_test_passes:
  assumes "wf_json beat" "scalars (replica_id Sa)" "scalars (replica_id Sb)"
    "event_ok (new_event w out)" "scalars (out_client_msg_id out)"
    "s_conn sa = send_nowait (delivered_event w2 out) (send_nowait (new_event w out)
       (s_conn (start_session Sa beat seen i (lit ''alice'') d)))"
    "s_conn sb = send_nowait (new_event w out) (s_conn (start_session Sb beat seen' j (lit ''bob'') d'))"
  shows "smoke_main (frame_texts (written_frames 3 sa)) (frame_texts (written_frames 2 sb)) (message_out_json (w_dump_dt w) out) = Inr 0"
proof -
  let ?ha = "hello_event Sa beat (lit ''alice'')" and ?hb = "hello_event Sb beat (lit ''bob'')"
  have qa: "queue (s_conn sa) = map Event [?ha, new_event w out, delivered_event w2 out]"
    and qb: "queue (s_conn sb) = map Event [?hb, new_event w out]"
    using assms(6,7) by (simp_all add: start_session_def send_nowait_def new_conn_def MAX_PENDING_EVENTS_def)
  have fa: "frame_texts (written_frames 3 sa) = map (dumps False) [?ha, new_event w out, delivered_event w2 out]"
    and fb: "frame_texts (written_frames 2 sb) = map (dumps False) [?hb, new_event w out]"
    using written_events [OF qa, of 3] written_events [OF qb, of 2] by (simp_all del: dumps.simps)
  have "wf_json ?ha" "wf_json ?hb" "wf_json (delivered_event w2 out)" "wf_json (new_event w out)"
    using assms(1-5) by (simp_all add: hello_event_def delivered_event_def make_event_def lit_Cons event_ok_def scalar_def)
  then have l: "loads (dumps False ?ha) = Some ?ha" "loads (dumps False ?hb) = Some ?hb"
    "loads (dumps False (delivered_event w2 out)) = Some (delivered_event w2 out)"
    "loads (dumps False (new_event w out)) = Some (new_event w out)" by (simp_all add: loads_dumps)
  let ?n = "new_event w out" and ?d = "delivered_event w2 out"
  note event_simps = l hello_event_def new_event_def delivered_event_def make_event_def get_or_null_def dict_get_def lit_Cons
  have r: "recv_type (lit ''hello'') (dumps False ?ha # fs) = Inr (?ha, fs)"
    "recv_type (lit ''hello'') (dumps False ?hb # fs) = Inr (?hb, fs)"
    "recv_type (lit ''message.new'') (dumps False ?n # fs) = Inr (?n, fs)"
    "recv_type (lit ''message.delivered'') (dumps False ?n # fs) = recv_type (lit ''message.delivered'') fs"
    "recv_type (lit ''message.delivered'') (dumps False ?d # fs) = Inr (?d, fs)" for fs
    by (simp only: recv_type.simps l, simp add: event_simps del: dumps.simps)+
  have data: "subscript (lit ''data'') ?n = Inr (message_out_json (w_dump_dt w) out)"
    "and_then (subscript (lit ''data'') ?hb) (subscript (lit ''replica'')) = Inr (JStr (replica_id Sb))"
    "and_then (subscript (lit ''data'') ?d) (subscript (lit ''message_id'')) = Inr (JStr (uuid_str (out_id out)))"
    by (simp_all add: subscript_def event_simps del: dumps.simps)
  have resp: "subscript (lit ''id'') (message_out_json (w_dump_dt w) out) = Inr (JStr (uuid_str (out_id out)))"
    "\<exists>st. subscript (lit ''status'') (message_out_json (w_dump_dt w) out) = Inr st"
    by (simp_all add: subscript_def message_out_json_def dict_get_def lit_Cons)
  then obtain st where "subscript (lit ''status'') (message_out_json (w_dump_dt w) out) = Inr st" by blast
  then show ?thesis unfolding fa fb smoke_main_def by (simp add: r data resp(1) del: dumps.simps recv_type.simps)
qed

section \<open>Witnesses\<close>

text \<open>A replica with one subscribed socket.\<close>

definition replica_with :: "pystr \<Rightarrow> hub" where
  "replica_with u = snd (apply_requests [] (register (new_conn 1 u) (resubscribe (new_hub (lit ''r1'')))))"

lemma replica_with_value:
  "listening (replica_with u)" "requests (replica_with u) = []" "conns_of (replica_with u) u = [1]"
  "conns (replica_with u) 1 = Some (new_conn 1 u)"
  "apply_requests [] (register (new_conn 1 u) (resubscribe (new_hub (lit ''r1'')))) = (None, replica_with u)"
  by (simp_all add: replica_with_def apply_requests_def register_def resubscribe_def new_hub_def Let_def conns_of_def
      dict_get_def request_def local_users_def)

lemma replica_with_reachable: "hub_step\<^sup>*\<^sup>* (new_hub (lit ''r1'')) (replica_with u)"
proof (rule three_steps)
  let ?h1 = "resubscribe (new_hub (lit ''r1''))"
  show "hub_step (new_hub (lit ''r1'')) ?h1" by (rule hub_step.resubscribe) (simp add: new_hub_def)
  show "hub_step ?h1 (register (new_conn 1 u) ?h1)" by (rule hub_step.register) (simp add: resubscribe_def new_hub_def)
  show "hub_step (register (new_conn 1 u) ?h1) (replica_with u)"
    by (rule hub_step.applied [OF _ replica_with_value(5)]) (simp add: register_fields resubscribe_def)
qed

text \<open>Bob's receipt of alice's message is served.\<close>

lemma hello_receipt:
  assumes "messages d = messages hello_db"
  obtains o2 s2 where "mark_delivered (at_second 20) sample_settings bob (uuid7 10001 2) (begin_session d) = (Inr o2, s2)"
proof -
  obtain cid where m: "messages hello_db = [new_message (at_second 10) alice hello None cid]" by (rule hello_sent)
  have id: "msg_id (new_message (at_second 10) alice hello None cid) = uuid7 10001 2"
    by (simp add: new_message_def at_second_def)
  obtain r s2 where r: "mark_delivered (at_second 20) sample_settings bob (uuid7 10001 2) (begin_session d) = (r, s2)"
    by fastforce
  have "varchar 128 (user_topic alice)" by (simp add: user_topic_varchar user_id_ok_varchar)
  then have "is_ok r"
    using r m id assms by (auto simp: mark_delivered_def begin_session_def Let_def pg_update_def one_or_none_def commit_def enqueue_def)
  with r that show ?thesis by (cases r) auto
qed

lemma hello_out_id:
  "send_message (at_second 10) sample_settings alice hello (begin_session empty_db) = (Inr (out, True), s') \<Longrightarrow>
     out_id out = uuid7 10001 2"
proof -
  assume s: "send_message (at_second 10) sample_settings alice hello (begin_session empty_db) = (Inr (out, True), s')"
  then have c: "committed s' = hello_db" by (simp add: hello_db_def)
  obtain cid where "messages hello_db = [new_message (at_second 10) alice hello None cid]" by (rule hello_sent)
  moreover obtain m where "m \<in> set (messages (committed s'))" "msg_id m = out_id out" by (rule send_stored [OF empty_db_inv s])
  ultimately show ?thesis using c by (simp add: new_message_def at_second_def)
qed

theorem delivery_round_trip_witness:
  "\<exists>out cmds1 cmds2 ha1 ha2. deliver_all 0 0 (redis_fanout cmds1 (replica_with alice)) (replica_with alice) = Inr ha1 \<and>
     deliver_all 0 0 (redis_fanout cmds2 ha1) ha1 = Inr ha2 \<and>
     conns ha2 1 = Some (send_nowait (delivered_event (at_second 20) out) (send_nowait (new_event (at_second 10) out) (new_conn 1 alice)))"
proof -
  obtain out s' where s: "send_message (at_second 10) sample_settings alice hello (begin_session empty_db) = (Inr (out, True), s')"
    "committed s' = hello_db" by (rule hello_sent_out)
  have ids: "distinct (map ob_id (outbox d))" if "db_inv (<) d" for d using that by (simp add: db_inv_def outbox_inv_def)
  obtain k1 d1 cmds1 where p1: "publish_batch 10 [] (noon 11) Published (committed s') = (Inr k1, d1, cmds1)"
    using publish_batch_ok [OF ids [OF hello_db_inv], of 10 "noon 11"] s(2) by auto
  note d1 = publish_keeps [OF hello_db_inv p1 [unfolded s(2)]]
  obtain o2 s2 where ack: "mark_delivered (at_second 20) sample_settings bob (out_id out) (begin_session d1) = (Inr o2, s2)"
    by (rule hello_receipt [OF d1(1)]) (simp add: hello_out_id [OF s(1)])
  define sb where "sb = bobs_socket\<lparr>s_db := d1\<rparr>"
  obtain res sb' where f: "reader (\<lambda>_. []) (at_second 20) sample_settings None 5
      (Frame (Some (ack_frame (JStr (uuid_str (out_id out))))) None) sb = (res, sb')" by fastforce
  have "s_db sb' = committed s2"
    using ack_frame_served [of "at_second 20" sample_settings sb "out_id out" o2 s2 "\<lambda>_. []" None 5] ack f by (auto simp: sb_def)
  moreover have "db_inv (w_collate (at_second 20)) (committed s2)"
    using serve_inv [of "(<)" d1 "(at_second 20, Deliver bob (out_id out))" sample_settings] d1(3) ack by (simp add: serve_def)
  ultimately obtain k2 d2 cmds2 where p2: "publish_batch 10 [] (noon 21) Published (s_db sb') = (Inr k2, d2, cmds2)"
    using publish_batch_ok [OF ids, of "s_db sb'" 10 "noon 21"] by auto
  have t: "text_db empty_db" "backlog empty_db = 0" "(2::nat) \<le> 10" by (simp_all add: text_db_def empty_db_def backlog_def)
  have u: "1 \<in> set (conns_of (replica_with u) (c_user (new_conn 1 u)))" for u by (simp add: replica_with_value)
  have v: "c_user (new_conn 1 alice) = alice" "c_user (new_conn 1 bob) = req_recipient_id hello" "s_db sb = d1"
    "c_user (s_conn sb) = req_recipient_id hello" "w_collate (at_second 20) = w_collate (at_second 10)"
    "mark_delivered (at_second 20) sample_settings (c_user (new_conn 1 bob)) (out_id out) (begin_session d1) = (Inr o2, s2)"
    using ack by (simp_all add: sb_def hello_def)
  from delivery_round_trip [where ?now1.0 = 0 and ?now2.0 = 0 and spare_a = 0 and spare_b = 0, OF empty_db_inv t(1) sample_texts(1,2,3,5) t(2) s(1) t(3) p1
      replica_with_reachable replica_with_value(1,2) replica_with_reachable replica_with_value(1,2)
      replica_with_value(4) u v(1) replica_with_value(4) u v(2) v(5) sample_texts(2) v(3,4,6) f p2]
  show ?thesis by blast
qed

theorem smoke_test_passes_witness:
  "\<exists>out sa sb. smoke_main (frame_texts (written_frames 3 sa)) (frame_texts (written_frames 2 sb)) (message_out_json isoformat out) = Inr 0"
proof -
  obtain out s' where s: "send_message (at_second 10) sample_settings alice hello (begin_session empty_db) = (Inr (out, True), s')"
    by (rule hello_sent_out)
  obtain m where m: "m \<in> set (messages (committed s'))" "out = to_out (at_second 10) sample_settings m"
    by (rule send_stored [OF empty_db_inv s])
  have "text_db empty_db" by (simp add: text_db_def empty_db_def)
  then have "text_message m"
    using text_send_message [OF empty_db_inv _ sample_texts(1,2,3,5) s] m(1) by (simp add: text_db_def)
  then have e: "event_ok (new_event (at_second 10) out)" "scalars (out_client_msg_id out)"
    using message_event_ok [OF _ sample_texts(2)] m(2) by (simp_all add: new_event_def text_message_def to_out_def)
  have r: "scalars (replica_id sample_settings)" by (simp add: sample_settings_def default_settings_def lit_Cons scalar_def)
  define sa where "sa = (start_session sample_settings (JInt 20) 0 1 (lit ''alice'') empty_db)
    \<lparr>s_conn := send_nowait (delivered_event (at_second 20) out) (send_nowait (new_event (at_second 10) out)
       (s_conn (start_session sample_settings (JInt 20) 0 1 (lit ''alice'') empty_db)))\<rparr>"
  define sb where "sb = (start_session sample_settings (JInt 20) 0 1 (lit ''bob'') empty_db)
    \<lparr>s_conn := send_nowait (new_event (at_second 10) out) (s_conn (start_session sample_settings (JInt 20) 0 1 (lit ''bob'') empty_db))\<rparr>"
  have "smoke_main (frame_texts (written_frames 3 sa)) (frame_texts (written_frames 2 sb)) (message_out_json (w_dump_dt (at_second 10)) out) = Inr 0"
    by (rule smoke_test_passes [of "JInt 20" sample_settings sample_settings "at_second 10" out sa "at_second 20" 0 1 empty_db sb 0 1 empty_db])
      (use e r in \<open>simp_all add: sa_def sb_def\<close>)
  then show ?thesis by (auto simp: at_second_def)
qed

end
