(* ===== verification/Process.thy ===== *)
theory Process
  imports Http Hub_Props Relay
begin

text \<open>
  The life of one server process: the logging set-up (\<open>configure_logging\<close> of \<^verbatim>\<open>app/logging.py\<close>), the start
  and stop of the hub's and the relay's background tasks, and the lifespan of \<^verbatim>\<open>app/main.py\<close>.
\<close>

section \<open>Logging set-up\<close>

text \<open>What the code sets of a logger; the root logger is the one with the empty name.\<close>

datatype log_output = Json_lines | Plain_lines

record logger_conf =
  lg_handlers :: "log_output list"
  lg_propagate :: bool
  lg_disabled :: bool
  lg_level :: "pystr option"

type_synonym loggers = "pystr \<Rightarrow> logger_conf"

definition LEVEL_NAMES :: "pystr list" where
  "LEVEL_NAMES = map lit [''CRITICAL'', ''FATAL'', ''ERROR'', ''WARN'', ''WARNING'', ''INFO'', ''DEBUG'', ''NOTSET'']"

text \<open>\<open>str.upper()\<close>, on ASCII letters.\<close>

definition py_upper :: "pystr \<Rightarrow> pystr" where
  "py_upper s = map (\<lambda>c. if 97 \<le> c \<and> c \<le> 122 then c - 32 else c) s"

definition strip_logger :: "pystr \<Rightarrow> loggers \<Rightarrow> loggers" where
  "strip_logger name g = g(name := (g name)\<lparr>lg_handlers := [], lg_propagate := True\<rparr>)"

text \<open>\<open>setLevel\<close> raises \<open>ValueError\<close> for a name that is no level; the handler is set by then.\<close>

definition configure_logging :: "pystr \<Rightarrow> bool \<Rightarrow> loggers \<Rightarrow> (exn + unit) \<times> loggers" where
  "configure_logging level json_output g =
     (let g1 = g([] := (g [])\<lparr>lg_handlers := [if json_output then Json_lines else Plain_lines]\<rparr>);
          name = py_upper level
      in if name \<notin> set LEVEL_NAMES then (Inl ValueError, g1)
         else
           let g2 = g1([] := (g1 [])\<lparr>lg_level := Some name\<rparr>);
               g3 = g2(lit ''uvicorn.access'' := (g2 (lit ''uvicorn.access''))\<lparr>lg_disabled := True\<rparr>)
           in (Inr (), fold strip_logger [lit ''uvicorn'', lit ''uvicorn.error''] g3))"

text \<open>
  The outputs a record of a logger goes to: its handlers and, while loggers propagate, those of its
  ancestors, which are the prefixes of its dotted name and the root.
\<close>

definition parent_logger :: "pystr \<Rightarrow> pystr" where
  "parent_logger name = rev (tl (dropWhile (\<lambda>c. c \<noteq> 46) (rev name)))"

lemma parent_logger_shorter: "name \<noteq> [] \<Longrightarrow> length (parent_logger name) < length name"
  using length_dropWhile_le [of "\<lambda>c. c \<noteq> 46" "rev name"] by (cases name) (auto simp: parent_logger_def)

function outputs_from :: "loggers \<Rightarrow> pystr \<Rightarrow> log_output list" where
  "outputs_from g name =
     lg_handlers (g name) @ (if name = [] \<or> \<not> lg_propagate (g name) then [] else outputs_from g (parent_logger name))"
  by auto
termination by (relation "measure (\<lambda>(g, name). length name)") (auto simp: parent_logger_shorter)

declare outputs_from.simps [simp del]

definition outputs :: "loggers \<Rightarrow> pystr \<Rightarrow> log_output list" where
  "outputs g name = (if lg_disabled (g name) then [] else outputs_from g name)"

section \<open>Background tasks\<close>

datatype task = Running | Cancelled | Failed exn

text \<open>
  \<open>task.cancel()\<close> and \<open>await task\<close> under \<open>suppress(CancelledError)\<close>: a task that runs is cancelled (neither
  loop catches it), one that has failed raises its exception again.
\<close>

definition cancel_and_await :: "task \<Rightarrow> exn option \<times> task" where
  "cancel_and_await t = (case t of Failed e \<Rightarrow> (Some e, t) | _ \<Rightarrow> (None, Cancelled))"

text \<open>The process: the hub and the relay with their tasks, the relay's settings, and the open clients.\<close>

record process =
  p_hub :: hub
  hub_task :: "task option"
  relay_task :: "task option"
  p_poll :: real
  p_batch :: nat
  p_retention :: pystr
  redis_open :: bool
  db_open :: bool

definition new_process :: "settings \<Rightarrow> process" where
  "new_process S =
     \<lparr>p_hub = new_hub (replica_id S), hub_task = None, relay_task = None,
      p_poll = outbox_poll_interval_seconds S, p_batch = outbox_batch_size S, p_retention = lit ''1 hour'',
      redis_open = True, db_open = True\<rparr>"

text \<open>\<open>Hub.start\<close>: the wait for the first subscription ends with it (\<open>up\<close>) or times out.\<close>

definition start_hub :: "bool \<Rightarrow> process \<Rightarrow> process" where
  "start_hub up p = p\<lparr>hub_task := Some Running, p_hub := (if up then resubscribe (p_hub p) else p_hub p)\<rparr>"

definition start_relay :: "process \<Rightarrow> process" where
  "start_relay p = p\<lparr>relay_task := Some Running\<rparr>"

text \<open>The pub/sub connection is closed where the loop ends (\<open>finally\<close>).\<close>

definition pubsub_closed :: "hub \<Rightarrow> hub" where
  "pubsub_closed h = h\<lparr>subscribed := {}, listening := False\<rparr>"

definition stop_hub :: "process \<Rightarrow> exn option \<times> process" where
  "stop_hub p =
     (case hub_task p of
        None \<Rightarrow> (None, p\<lparr>p_hub := stop (p_hub p)\<rparr>)
      | Some t \<Rightarrow>
          (case cancel_and_await t of
             (Some e, t') \<Rightarrow> (Some e, p)
           | (None, t') \<Rightarrow> (None, p\<lparr>hub_task := Some t', p_hub := stop (pubsub_closed (p_hub p))\<rparr>)))"

definition stop_relay :: "process \<Rightarrow> exn option \<times> process" where
  "stop_relay p =
     (case relay_task p of
        None \<Rightarrow> (None, p)
      | Some t \<Rightarrow> (case cancel_and_await t of (r, t') \<Rightarrow> (r, p\<lparr>relay_task := Some t'\<rparr>)))"

text \<open>\<open>lifespan\<close> up to its \<open>yield\<close>, and its \<open>finally\<close>: an exception skips what follows it.\<close>

definition startup :: "settings \<Rightarrow> bool \<Rightarrow> process" where
  "startup S up = start_relay (start_hub up (new_process S))"

definition shutdown :: "process \<Rightarrow> exn option \<times> process" where
  "shutdown p =
     (case stop_relay p of
        (Some e, p1) \<Rightarrow> (Some e, p1)
      | (None, p1) \<Rightarrow>
          (case stop_hub p1 of
             (Some e, p2) \<Rightarrow> (Some e, p2)
           | (None, p2) \<Rightarrow> (None, p2\<lparr>redis_open := False, db_open := False\<rparr>)))"

section \<open>A process at work\<close>

text \<open>
  While the process serves: sockets come, go, are written to and read; the hub's task, while it runs,
  subscribes, applies requests and dispatches. An exception the loop does not catch ends the task. The
  relay's loop catches every exception, so its task runs on.
\<close>

definition loop_raised :: "exn \<Rightarrow> hub \<Rightarrow> process \<Rightarrow> process" where
  "loop_raised e h p =
     (case connection_lost e h of
        Some (h', slept) \<Rightarrow> p\<lparr>p_hub := h'\<rparr>
      | None \<Rightarrow> p\<lparr>p_hub := pubsub_closed h, hub_task := Some (Failed e)\<rparr>)"

inductive process_step :: "process \<Rightarrow> process \<Rightarrow> bool" where
  opened: "conns (p_hub p) i = None \<Longrightarrow> process_step p (p\<lparr>p_hub := register (new_conn i u) (p_hub p)\<rparr>)"
| closed: "conns (p_hub p) i = Some c \<Longrightarrow> process_step p (p\<lparr>p_hub := unregister c (p_hub p)\<rparr>)"
| queued: "process_step p (p\<lparr>p_hub := send_to event i (p_hub p)\<rparr>)"
| closing: "process_step p (p\<lparr>p_hub := close_in n reason i (p_hub p)\<rparr>)"
| taken: "process_step p (p\<lparr>p_hub := take_next i (p_hub p)\<rparr>)"
| subscribes: "hub_task p = Some Running \<Longrightarrow> \<not> listening (p_hub p) \<Longrightarrow> process_step p (p\<lparr>p_hub := resubscribe (p_hub p)\<rparr>)"
| applies: "hub_task p = Some Running \<Longrightarrow> listening (p_hub p) \<Longrightarrow> apply_requests outcomes (p_hub p) = (r, h) \<Longrightarrow>
    process_step p (case r of None \<Rightarrow> p\<lparr>p_hub := h\<rparr> | Some e \<Rightarrow> loop_raised e h p)"
| receives: "hub_task p = Some Running \<Longrightarrow> listening (p_hub p) \<Longrightarrow>
    process_step p (case dispatch spare now channel data (p_hub p) of
      Inr (h, lat) \<Rightarrow> p\<lparr>p_hub := h\<rparr> | Inl e \<Rightarrow> loop_raised e (p_hub p) p)"
| loses: "hub_task p = Some Running \<Longrightarrow> process_step p (loop_raised e (p_hub p) p)"

text \<open>The tasks and clients, and the registry of sockets, while the process serves.\<close>

definition serving :: "process \<Rightarrow> bool" where
  "serving p \<longleftrightarrow> relay_task p = Some Running \<and> redis_open p \<and> db_open p \<and>
     (hub_task p = Some Running \<or> (\<exists>e. hub_task p = Some (Failed e) \<and> e \<noteq> RedisError \<and> \<not> is_oserror e)) \<and>
     registry_ok (p_hub p)"

section \<open>Lemmas\<close>

lemma registry_ok_touch:
  assumes "registry_ok h" "\<And>c. c_user (f c) = c_user c"
  shows "registry_ok (h\<lparr>conns := (conns h)(i := map_option f (conns h i))\<rparr>)"
  by (rule registry_ok_conns [OF assms(1)]) (use assms(2) in auto)

lemma registry_ok_same: "registry_ok h \<Longrightarrow> local_conns h' = local_conns h \<Longrightarrow> conns h' = conns h \<Longrightarrow> registry_ok h'"
  by (simp add: registry_ok_def)

lemma registry_ok_dispatch: "registry_ok h \<Longrightarrow> dispatch spare now ch tx h = Inr (h', lat) \<Longrightarrow> registry_ok h'"
proof -
  have "registry_ok h \<Longrightarrow> registry_ok (fold (send_to e) ids h)" for e ids
    by (induction ids arbitrary: h) (auto simp: send_to_def registry_ok_touch)
  then show "registry_ok h \<Longrightarrow> dispatch spare now ch tx h = Inr (h', lat) \<Longrightarrow> registry_ok h'"
    by (auto simp: dispatch_def Let_def split: option.splits if_splits sum.splits)
qed

lemma serving_loop_raised:
  assumes "serving p" "hub_task p = Some Running" "registry_ok h"
  shows "serving (loop_raised e h p)"
proof (cases "connection_lost e h")
  case None
  then have "e \<noteq> RedisError" "\<not> is_oserror e" by (auto simp: connection_lost_def split: if_splits)
  moreover have "registry_ok (pubsub_closed h)" by (rule registry_ok_same [OF assms(3)]) (simp_all add: pubsub_closed_def)
  ultimately show ?thesis using assms(1) None by (simp add: serving_def loop_raised_def)
next
  case (Some ht)
  then obtain h' t where h': "ht = (h', t)" "connection_lost e h = Some (h', t)" by (cases ht) auto
  then have "registry_ok h'"
    by (intro registry_ok_same [OF assms(3)]) (auto simp: connection_lost_def release_waiters_def split: if_splits)
  with assms(1,2) h' show ?thesis by (simp add: serving_def loop_raised_def)
qed

lemma serving_hub: "serving p \<Longrightarrow> registry_ok h \<Longrightarrow> serving (p\<lparr>p_hub := h\<rparr>)"
  by (simp add: serving_def)

lemma serving_step:
  assumes s: "serving p" and step: "process_step p p'"
  shows "serving p'"
proof -
  have r: "registry_ok (p_hub p)" using s by (simp add: serving_def)
  show ?thesis using step
  proof cases
    case (opened i u)
    then show ?thesis using serving_hub [OF s] registry_ok_register(1) [OF r] by simp
  next
    case (closed i c)
    then show ?thesis using serving_hub [OF s] registry_ok_unregister [OF r] by simp
  next
    case (queued event i)
    then show ?thesis using serving_hub [OF s] registry_ok_touch [OF r] by (simp add: send_to_def)
  next
    case (closing n reason i)
    then show ?thesis using serving_hub [OF s] registry_ok_touch [OF r] by (simp add: close_in_def)
  next
    case (taken i)
    have "c_user (case next_event c of None \<Rightarrow> c | Some (_, c') \<Rightarrow> c') = c_user c" for c
      by (auto split: option.splits dest: next_event_fields)
    then show ?thesis using serving_hub [OF s] registry_ok_touch [OF r] taken by (simp add: take_next_def)
  next
    case subscribes
    then show ?thesis using serving_hub [OF s] registry_ok_same [OF r] by (simp add: resubscribe_def)
  next
    case (applies outcomes res h)
    have h: "registry_ok h" by (rule registry_ok_same [OF r]) (use applies(4) in \<open>auto simp: apply_requests_def split: prod.splits\<close>)
    then show ?thesis using applies serving_hub [OF s h] serving_loop_raised [OF s _ h] by (simp split: option.splits)
  next
    case (receives spare now channel data)
    then show ?thesis using serving_hub [OF s registry_ok_dispatch [OF r]] serving_loop_raised [OF s _ r]
      by (auto split: sum.splits)
  next
    case (loses e)
    then show ?thesis using serving_loop_raised [OF s _ r] by simp
  qed
qed

lemma serving_startup: "serving (startup S up)"
  by (simp add: serving_def startup_def start_relay_def start_hub_def new_process_def registry_ok_def resubscribe_def
      new_hub_def dict_get_def)

interpretation lifetime: step_system "\<lambda>p. p = startup S up" process_step serving for S up
  by unfold_locales (auto intro: serving_startup serving_step)

text \<open>Every registered connection is asked to close, once, and others are left alone.\<close>

lemma close_twice [simp]: "close n r (close n r c) = close n r c"
  by (simp add: close_def)

lemma close_all_conns:
  "conns (fold (close_in n r) ids h) i = (if i \<in> set ids then map_option (close n r) (conns h i) else conns h i)"
  by (induction ids arbitrary: h) (auto simp: close_in_def option.map_comp comp_def)

lemma stop_conns:
  assumes "registry_ok h" "i \<in> set (conns_of h u)"
  shows "conns (stop (pubsub_closed h)) i = map_option (close 1012 (lit ''server restarting'')) (conns h i)"
proof -
  have "\<exists>ids. (u, ids) \<in> set (local_conns h) \<and> i \<in> set ids"
    using assms(2) map_of_SomeD [of "local_conns h" u]
    by (cases "map_of (local_conns h) u") (auto simp: conns_of_def dict_get_def)
  then show ?thesis by (auto simp: stop_def close_all_conns pubsub_closed_def)
qed

section \<open>Properties\<close>

text \<open>
  C38. What shutting down does: while the hub's task runs, the lifespan ends both tasks, asks every
  registered socket to close with 1012 and releases Redis and the database; if the task has died of an
  exception, that exception is raised again out of the lifespan, no socket is asked to close and neither
  client is released.
\<close>

theorem shutdown_needs_live_loop:
  assumes "process_step\<^sup>*\<^sup>* (startup S up) p" "shutdown p = (res, p')"
  shows "if hub_task p = Some Running
    then res = None \<and> hub_task p' = Some Cancelled \<and> relay_task p' = Some Cancelled \<and> \<not> redis_open p' \<and> \<not> db_open p' \<and>
      (\<forall>u. \<forall>i \<in> set (conns_of (p_hub p) u). \<exists>c. conns (p_hub p) i = Some c \<and> c_user c = u \<and>
         conns (p_hub p') i = Some (close 1012 (lit ''server restarting'') c))
    else (\<exists>e. hub_task p = Some (Failed e) \<and> res = Some e \<and> e \<noteq> RedisError \<and> \<not> is_oserror e) \<and>
      redis_open p' \<and> db_open p' \<and> p_hub p' = p_hub p"
proof -
  have s: "serving p" by (rule lifetime.reachable_inv [OF refl assms(1)])
  show ?thesis
  proof (cases "hub_task p = Some Running")
    case True
    have r: "registry_ok (p_hub p)" using s by (simp add: serving_def)
    have p': "res = None" "p' = p\<lparr>hub_task := Some Cancelled, relay_task := Some Cancelled, redis_open := False, db_open := False,
        p_hub := stop (pubsub_closed (p_hub p))\<rparr>"
      using True s assms(2) by (auto simp: shutdown_def stop_relay_def stop_hub_def cancel_and_await_def serving_def)
    have "\<exists>c. conns (p_hub p) i = Some c \<and> c_user c = u \<and> conns (p_hub p') i = Some (close 1012 (lit ''server restarting'') c)"
      if "i \<in> set (conns_of (p_hub p) u)" for i u
      using stop_conns [OF r that] conns_of_registered [OF r, of u] that p'(2) by auto
    with True p' show ?thesis by simp
  next
    case False
    with s obtain e where "hub_task p = Some (Failed e)" "e \<noteq> RedisError" "\<not> is_oserror e" by (auto simp: serving_def)
    with False s assms(2) show ?thesis
      by (auto simp: shutdown_def stop_relay_def stop_hub_def cancel_and_await_def serving_def)
  qed
qed

text \<open>
  After the set-up a record of uvicorn is written once, by the root's handler and in the chosen format,
  whatever handlers were configured before, and uvicorn's access log goes nowhere.
\<close>

theorem records_are_written_once:
  assumes "configure_logging level json_output g = (Inr (), g')" "\<not> lg_disabled (g (lit ''uvicorn.error''))"
    "\<not> lg_disabled (g (lit ''uvicorn''))"
  shows "outputs g' (lit ''uvicorn'') = [if json_output then Json_lines else Plain_lines] \<and>
    outputs g' (lit ''uvicorn.error'') = [if json_output then Json_lines else Plain_lines] \<and>
    outputs g' (lit ''uvicorn.access'') = [] \<and> lg_level (g' []) = Some (py_upper level)"
proof -
  have g': "g' = fold strip_logger [lit ''uvicorn'', lit ''uvicorn.error'']
      (g([] := (g [])\<lparr>lg_handlers := [if json_output then Json_lines else Plain_lines], lg_level := Some (py_upper level)\<rparr>,
         lit ''uvicorn.access'' := (g (lit ''uvicorn.access''))\<lparr>lg_disabled := True\<rparr>))"
    using assms(1) by (auto simp: configure_logging_def Let_def lit_Cons split: if_splits)
  have root: "lg_handlers (g' []) = [if json_output then Json_lines else Plain_lines]" "lg_level (g' []) = Some (py_upper level)"
    by (simp_all add: g' strip_logger_def lit_Cons)
  have u: "lg_handlers (g' (lit ''uvicorn'')) = []" "lg_propagate (g' (lit ''uvicorn''))" "\<not> lg_disabled (g' (lit ''uvicorn''))"
    using assms(3) by (simp_all add: g' strip_logger_def lit_Cons)
  have e: "lg_handlers (g' (lit ''uvicorn.error'')) = []" "lg_propagate (g' (lit ''uvicorn.error''))" "\<not> lg_disabled (g' (lit ''uvicorn.error''))"
    using assms(2) by (simp_all add: g' strip_logger_def lit_Cons)
  have a: "lg_disabled (g' (lit ''uvicorn.access''))" by (simp add: g' strip_logger_def lit_Cons)
  have p: "parent_logger (lit ''uvicorn'') = []" "parent_logger (lit ''uvicorn.error'') = lit ''uvicorn''"
    by (simp_all add: parent_logger_def lit_Cons)
  have "lit ''uvicorn'' \<noteq> []" "lit ''uvicorn.error'' \<noteq> []" by (simp_all add: lit_Cons)
  with root u e a p show ?thesis
    by (simp add: outputs_def outputs_from.simps [of g' "[]"] outputs_from.simps [of g' "lit ''uvicorn''"]
        outputs_from.simps [of g' "lit ''uvicorn.error''"] del: lit_Cons)
qed

section \<open>Witnesses\<close>

text \<open>Bob connects, Redis hands the loop a JSON array on his channel, the process is shut down.\<close>

theorem shutdown_needs_live_loop_witness:
  "\<exists>p p'. hub_task p = Some (Failed RuntimeError) \<and> shutdown p = (Some RuntimeError, p') \<and> redis_open p' \<and> db_open p' \<and>
     (\<exists>c. conns (p_hub p') 1 = Some c \<and> \<not> closing c)"
proof -
  let ?S = "default_settings (lit ''r1'')" and ?bob = "lit ''bob''"
  define p0 where "p0 = startup ?S True"
  define p1 where "p1 = p0\<lparr>p_hub := register (new_conn 1 ?bob) (p_hub p0)\<rparr>"
  define p2 where "p2 = loop_raised RuntimeError (p_hub p1) p1"
  have h0: "p_hub p0 = resubscribe (new_hub (lit ''r1''))" "hub_task p0 = Some Running"
    by (simp_all add: p0_def startup_def start_relay_def start_hub_def new_process_def default_settings_def)
  then have h1: "conns_of (p_hub p1) ?bob = [1]" "listening (p_hub p1)" "hub_task p1 = Some Running"
    "conns (p_hub p1) 1 = Some (new_conn 1 ?bob)"
    by (simp_all add: p1_def register_def Let_def resubscribe_def new_hub_def conns_of_def dict_get_def request_def)
  have "dispatch 0 0 (Some (user_channel ?bob)) (dumps False (JArr [])) (p_hub p1) = Inl RuntimeError"
    using non_object_event_ends_loop [of "p_hub p1" ?bob 0 "dumps False (JArr [])" "[]"] h1(1) json_loads_dumps [of "JArr []" 0 False] by (simp add: json_nesting_def)
  then have "process_step p1 p2"
    using receives [OF h1(3,2), of 0 0 "Some (user_channel ?bob)" "dumps False (JArr [])"] by (simp add: p2_def)
  moreover have "process_step p0 p1" unfolding p1_def
    by (rule opened) (simp add: h0 resubscribe_def new_hub_def)
  ultimately have "process_step\<^sup>*\<^sup>* (startup ?S True) p2" using two_steps p0_def by metis
  moreover obtain res p' where sd: "shutdown p2 = (res, p')" by fastforce
  moreover have "hub_task p2 = Some (Failed RuntimeError)" "conns (p_hub p2) 1 = Some (new_conn 1 ?bob)"
    using h1(4) by (simp_all add: p2_def loop_raised_def connection_lost_def pubsub_closed_def)
  ultimately show ?thesis using shutdown_needs_live_loop [of ?S True p2 res p'] by (auto simp: new_conn_def)
qed

theorem records_are_written_once_witness:
  "\<exists>g'. configure_logging (lit ''info'') True (\<lambda>name. \<lparr>lg_handlers = [Plain_lines], lg_propagate = True, lg_disabled = False, lg_level = None\<rparr>) =
      (Inr (), g') \<and> outputs g' (lit ''uvicorn.error'') = [Json_lines]"
proof -
  let ?g = "\<lambda>name. \<lparr>lg_handlers = [Plain_lines], lg_propagate = True, lg_disabled = False, lg_level = None\<rparr>"
  have "py_upper (lit ''info'') \<in> set LEVEL_NAMES" by (simp add: py_upper_def LEVEL_NAMES_def lit_Cons)
  then obtain g' where g: "configure_logging (lit ''info'') True ?g = (Inr (), g')" by (simp add: configure_logging_def Let_def)
  from records_are_written_once [OF this] show ?thesis using g by auto
qed

end
