(* ===== verification/Spec2Isabelle.thy ===== *)
theory Spec2Isabelle
  imports Config Storage Migration Chat_Query Chat_Limits Hub_Props Relay_Props Auth Api_Props Http Ws_Props System
    Cluster_Props Cluster_Live Delivery Process
begin

text \<open>
  A verification library of the realtime chat backend.

  \<^bold>\<open>The program.\<close> Clients send messages over REST or act on them over a WebSocket. A request is
  authenticated, runs one method of the chat service in a database session of its own, and commits
  its state change together with outbox rows. A relay per replica moves outbox rows to Redis channels,
  one per user; a hub per replica subscribes to the channels of the users connected to it and queues
  each event on their sockets; a socket session writes the queue out and reads acknowledgements, read
  receipts and typing notices. Attachments go to an object store by presigned uploads.

  \<^bold>\<open>Where each part is modelled\<close> (files under \<^verbatim>\<open>src/app\<close> unless named otherwise).

  \<^item> Shared vocabulary: \<open>Chat_Prelude\<close> (Python text as lists of code points, list and string methods),
    \<open>Codecs\<close> (UTF-8, urlsafe base64, ISO datetimes), \<open>Json\<close> (printing and parsing JSON), \<open>Json_Limits\<close>
    (\<open>json.loads\<close> as a call: a value, the \<open>ValueError\<close> of malformed text, or the \<open>RecursionError\<close> of text
    nested too deep), \<open>Step_Systems\<close> (the contract of a component that runs in steps).
  \<^item> \<open>Ids\<close> and \<open>Cursors\<close>: \<^verbatim>\<open>ids.py\<close>, UUIDv7 on 128-bit words and the pagination cursors.
  \<^item> \<open>Errors\<close>: \<^verbatim>\<open>errors.py\<close>, the exceptions as one datatype, the uniform body, the handlers.
    \<open>Config\<close>: \<^verbatim>\<open>config.py\<close>.
  \<^item> \<open>Models\<close>: the rows and constraints of \<^verbatim>\<open>models.py\<close>, with the forms of statements the services use;
    a table is a list of records. \<open>Migration\<close>: \<^verbatim>\<open>alembic/versions/0001_initial.py\<close> as operations on a
    catalogue, and the schema the models declare. \<open>Schemas\<close>: \<^verbatim>\<open>schemas.py\<close>.
  \<^item> \<open>Storage\<close>: \<^verbatim>\<open>storage.py\<close> and the retry loop of \<^verbatim>\<open>bootstrap.py\<close>. \<open>Session\<close>: the database session (committed
    tables, uncommitted work, staged events) and the outside world an operation reads.
  \<^item> \<open>Chat\<close>: \<^verbatim>\<open>services/chat.py\<close>, one definition per method. \<open>send_message\<close> is the composition of its checks
    (\<open>send_prepare\<close>) and its transaction (\<open>send_insert\<close>, \<open>send_conflict\<close>), between which others commit.
  \<^item> \<open>Auth\<close>: \<^verbatim>\<open>auth.py\<close>, \<^verbatim>\<open>tokens.py\<close> and \<^verbatim>\<open>tools/mint_token.py\<close>. \<open>Api\<close>: \<^verbatim>\<open>api/v1.py\<close> and \<^verbatim>\<open>api/deps.py\<close>. \<open>Http\<close>: \<^verbatim>\<open>middleware.py\<close>,
    \<^verbatim>\<open>api/ops.py\<close>, the formatter of \<^verbatim>\<open>logging.py\<close> and the routers of \<^verbatim>\<open>main.py\<close>.
  \<^item> \<open>Hub\<close>: \<^verbatim>\<open>realtime/hub.py\<close>; its pub/sub loop is the step relation \<open>hub_step\<close> of \<open>Hub_Props\<close>.
    \<open>Relay\<close>: \<^verbatim>\<open>realtime/relay.py\<close>; several replicas with row locks are \<open>relay_step\<close>, the wake-up event
    \<open>wake_step\<close>, both in \<open>Relay_Props\<close>.
  \<^item> \<open>Ws\<close>: \<^verbatim>\<open>api/ws.py\<close>, a turn of each of the three tasks of a session and their interleavings.
  \<^item> \<open>Process\<close>: the logging set-up of \<^verbatim>\<open>logging.py\<close>, the start and stop of the background tasks (\<open>Hub.start\<close>,
    \<open>Hub.stop\<close>, \<open>OutboxRelay.start\<close>, \<open>OutboxRelay.stop\<close>) and the lifespan of \<^verbatim>\<open>main.py\<close>, with a step relation
    \<open>process_step\<close> for the time in between.
  \<^item> \<open>System\<close>: chat service, relay, Redis and hub composed. \<open>Cluster\<close>: any number of replicas with their
    sockets over shared tables as one step relation \<open>cluster_step\<close>, whose steps are the operations of the
    other theories (\<open>serve\<close>, \<open>chat_socket\<close>, \<open>reader\<close>, \<open>writer\<close>, \<open>heartbeat\<close>, \<open>publish_batch\<close>, \<open>sweep\<close>,
    \<open>dispatch\<close>, \<open>stop\<close>). \<open>Delivery\<close>: the round trip of a message and \<^verbatim>\<open>scripts/smoke.py\<close>.

  \<^bold>\<open>What the lemmas show.\<close>

  \<^item> \<open>Chat_Inv\<close>, \<open>Chat_Props\<close>: the database invariant and its preservation; a command of the service meets
    the contract \<open>transactional\<close> (an error leaves the committed tables alone, a change comes with outbox
    rows and a wake-up); a send refines the abstract write-once log \<open>put_once\<close>; retries and races.
  \<^item> \<open>Chat_Query\<close>: walks over pages in both directions meet the contract \<open>pager\<close>, so they return every
    message once and end; access control. \<open>Chat_Limits\<close>: where the service does less than it promises.
  \<^item> \<open>Migration\<close>: the upgrade creates the schema of the models and the downgrade removes it; the migrated
    tables enforce exactly the row checks the model of the tables makes.
  \<^item> \<open>Relay_Props\<close>: no committed row is lost, rows are marked after their push, faults alone duplicate, a
    backlog drains, the backoff is bounded, no wake-up is lost.
  \<^item> \<open>Json_Limits\<close>: what was printed and is not too deep is read back; opening brackets alone exceed the
    limit, a text with few of them does not.
  \<^item> \<open>Hub_Props\<close>: subscriptions follow the local users, dispatch and which payloads end the loop, the bounded
    queue, its order and its one close request.
  \<^item> \<open>Auth\<close>, \<open>Api_Props\<close>, \<open>Http\<close>: tokens, presigned keys, the one answer of a failing call and its status, request
    ids, log lines.
  \<^item> \<open>Ws_Props\<close>: a session refines receipts of its own user, survives any frame that is not nested too
    deep, closes when idle.
  \<^item> \<open>System\<close>: a stored message reaches every connected device of both parties. \<open>Delivery\<close>: so does the
    receipt its recipient acknowledges it with, and the smoke test accepts what the sockets are sent.
  \<^item> \<open>Cluster_Props\<close>: the invariant \<open>cluster_inv\<close> of the deployment (tables, commands on the way through Redis,
    queues, caches of peers, written frames), a preservation lemma per step, and what it gives: users see
    only their own conversations, and stored messages stay. \<open>Cluster_Live\<close>: no event of the program's own
    ends a loop, and what waits can be delivered from every reachable state.
  \<^item> \<open>Process\<close>: what shutting down releases, and that a dead pub/sub task prevents it.

  \<^bold>\<open>Parameters.\<close> Code outside the repository is an argument: the JWT library (\<open>jwt_lib\<close>, with its documented
  checks as \<open>jwt_lawful\<close>), the object store's answers, the URL and POST signers, the grapheme count of the
  \<^verbatim>\<open>regex\<close> package (\<^verbatim>\<open>text.py\<close>), the collation of the database, pydantic's datetime text and messages,
  Python's \<open>repr\<close>, the outcome of every database commit (any exception, \<open>w_commit_error\<close>) and Redis call,
  clocks and random bits, and how deep the interpreter reads JSON (\<open>spare\<close>, beyond 100 levels).
  Statements of one transaction run without interference; SQL is modelled by the list operations of
  \<open>Models\<close>, with errors of the driver as \<open>DBAPIError\<close> and of the connection as \<open>OperationalError\<close>.

  \<^bold>\<open>Bounds and fuel.\<close> The JSON parser takes fuel for two calls per character, and more fuel changes no
  result (\<open>loads_fuel\<close>). \<open>json_loads\<close> reads at least 100 levels of nesting, far below the bound of any build of
  CPython 3.12, and integers of at most 4300 digits, its default; no event of the program comes near either
  (\<open>outbox_events_well_formed\<close>). A walk over pages has as many requests as there are
  messages. The bootstrap makes 30 attempts. A connection queues 1000 events. Other recursion is structural.

  \<^bold>\<open>Not modelled.\<close> Metrics other than the counters a result depends on, connection pooling (\<^verbatim>\<open>metrics.py\<close>,
  \<^verbatim>\<open>db.py\<close>), the environment of Alembic, the routing and parsing FastAPI does before an endpoint,
  static files, the OpenAPI script, the tests: they only call libraries or have no logic of their own. Of
  the smoke test the token requests, the connections and the output are left out.
  Failures that are not modelled: the connection to the database fails at a commit, not at the opening of a
  session or a read; a commit that raises has stored nothing (a connection lost while the server answers can
  leave that open); the signers of URLs and tokens and the rendering of a response do not fail; a key lookup
  raises the JWT library's errors only, so no JSON error of a malformed key document. Text nested almost as
  deep as the interpreter reads is assumed to be printed again. Outbox ids are consecutive in the order of
  commits. Of PostgreSQL the key order of JSONB, the name space indexes share with tables and the
  cascading of deletes, which the program never makes, are left out.
  Cancellation of a task in the middle of a handler is not modelled: a turn of a task is atomic. In the
  steps of \<open>Cluster\<close> a REST request is one step too; the interleavings inside a send are in \<open>Chat_Props\<close>.
\<close>

end
